(* ===== verification/Prelude.thy ===== *)
theory Prelude
  imports Main "HOL-Library.Word"
begin

text \<open>
  Shared vocabulary of the development: the machine integer types of the Rust sources, the
  checked and saturating arithmetic of the standard library, slices and fixed-size arrays as
  lists, and the three interface locales that the components instantiate:
  \<^item> \<open>invariant_system\<close>: a step relation with an invariant, and what holds along every run;
  \<^item> \<open>generational\<close>: keys that carry a generation, and that a dead key stays dead;
  \<^item> \<open>codec\<close>: an encoder and a decoder that are inverse to each other.
  A Rust \<open>Result<T, E>\<close> is a sum \<open>'e + 't\<close> (\<open>Inl\<close> the error), a Rust \<open>Option\<close> an
  \<open>option\<close>; a method on \<open>&mut self\<close> returns its result together with the new state, on
  every branch, so that what an error leaves behind is part of the model.
\<close>

unbundle bit_operations_syntax

section \<open>Machine integers\<close>

type_synonym u8 = "8 word"
type_synonym u16 = "16 word"
type_synonym u32 = "32 word"
type_synonym u64 = "64 word"

type_synonym ('e, 'a) result = "'e + 'a"

text \<open>The error of a result, if it is one.\<close>

definition error_of :: "('e, 'a) result \<Rightarrow> 'e option" where
  "error_of r = (case r of Inl e \<Rightarrow> Some e | Inr _ \<Rightarrow> None)"

lemma error_of_simps [simp]: "error_of (Inl e) = Some e" "error_of (Inr x) = None"
  by (simp_all add: error_of_def)

named_theorems array_simps
named_theorems checked_simps

text \<open>\<open>checked_add\<close>, \<open>checked_mul\<close>, \<open>checked_sub\<close>, \<open>saturating_add\<close> and
  \<open>saturating_sub\<close> of the unsigned integer types.\<close>

definition checked_add :: "'a::len word \<Rightarrow> 'a word \<Rightarrow> 'a word option" where
  "checked_add a b = (if unat a + unat b < 2 ^ LENGTH('a) then Some (a + b) else None)"

definition checked_mul :: "'a::len word \<Rightarrow> 'a word \<Rightarrow> 'a word option" where
  "checked_mul a b = (if unat a * unat b < 2 ^ LENGTH('a) then Some (a * b) else None)"

definition checked_sub :: "'a::len word \<Rightarrow> 'a word \<Rightarrow> 'a word option" where
  "checked_sub a b = (if b \<le> a then Some (a - b) else None)"

definition saturating_add :: "'a::len word \<Rightarrow> 'a word \<Rightarrow> 'a word" where
  "saturating_add a b = (case checked_add a b of Some c \<Rightarrow> c | None \<Rightarrow> - 1)"

definition saturating_sub :: "'a::len word \<Rightarrow> 'a word \<Rightarrow> 'a word" where
  "saturating_sub a b = (if b \<le> a then a - b else 0)"

text \<open>\<open>is_multiple_of\<close> (only 0 is a multiple of 0) and \<open>is_power_of_two\<close>.\<close>

definition is_multiple_of :: "'a::len word \<Rightarrow> 'a word \<Rightarrow> bool" where
  "is_multiple_of a b \<longleftrightarrow> (if b = 0 then a = 0 else a mod b = 0)"

definition is_power_of_two :: "'a::len word \<Rightarrow> bool" where
  "is_power_of_two w \<longleftrightarrow> w \<noteq> 0 \<and> w AND (w - 1) = 0"

text \<open>The \<open>MAX\<close> constants are the all-ones words.\<close>

abbreviation U32_MAX :: u32 where
  "U32_MAX \<equiv> - 1"

abbreviation U64_MAX :: u64 where
  "U64_MAX \<equiv> - 1"

lemma checked_add_Some_iff [checked_simps]:
  fixes a b c :: "'a::len word"
  shows "checked_add a b = Some c \<longleftrightarrow> unat c = unat a + unat b"
proof
  assume "checked_add a b = Some c"
  then show "unat c = unat a + unat b"
    by (auto simp: checked_add_def unat_word_ariths split: if_splits)
next
  assume c: "unat c = unat a + unat b"
  moreover have "unat c < 2 ^ LENGTH('a)" by (rule unsigned_less)
  ultimately have "unat a + unat b < 2 ^ LENGTH('a)" by simp
  with c have "unat (a + b) = unat c" by (simp add: unat_word_ariths)
  then have "a + b = c" by (simp only: word_unat_eq_iff)
  with \<open>unat a + unat b < 2 ^ LENGTH('a)\<close> show "checked_add a b = Some c"
    by (simp add: checked_add_def)
qed

lemma checked_add_None_iff [checked_simps]:
  fixes a b :: "'a::len word"
  shows "checked_add a b = None \<longleftrightarrow> 2 ^ LENGTH('a) \<le> unat a + unat b"
  by (simp add: checked_add_def not_less)

lemma checked_mul_Some_iff [checked_simps]:
  fixes a b c :: "'a::len word"
  shows "checked_mul a b = Some c \<longleftrightarrow> unat c = unat a * unat b"
proof
  assume "checked_mul a b = Some c"
  then show "unat c = unat a * unat b"
    by (auto simp: checked_mul_def unat_word_ariths split: if_splits)
next
  assume c: "unat c = unat a * unat b"
  moreover have "unat c < 2 ^ LENGTH('a)" by (rule unsigned_less)
  ultimately have "unat a * unat b < 2 ^ LENGTH('a)" by simp
  with c have "unat (a * b) = unat c" by (simp add: unat_word_ariths)
  then have "a * b = c" by (simp only: word_unat_eq_iff)
  with \<open>unat a * unat b < 2 ^ LENGTH('a)\<close> show "checked_mul a b = Some c"
    by (simp add: checked_mul_def)
qed

lemma checked_sub_Some_iff [checked_simps]:
  fixes a b c :: "'a::len word"
  shows "checked_sub a b = Some c \<longleftrightarrow> unat a = unat b + unat c"
proof
  assume "checked_sub a b = Some c"
  then have "b \<le> a" and "c = a - b" by (auto simp: checked_sub_def split: if_splits)
  then show "unat a = unat b + unat c" by (simp add: unat_sub word_le_nat_alt)
next
  assume eq: "unat a = unat b + unat c"
  then have le: "b \<le> a" by (simp add: word_le_nat_alt)
  then have "unat (a - b) = unat c" using eq by (simp add: unat_sub)
  then have "a - b = c" by (simp only: word_unat_eq_iff)
  with le show "checked_sub a b = Some c" by (simp add: checked_sub_def)
qed

text \<open>For evaluation the bounds are compared on integers, whose numerals are binary.\<close>

lemma checked_add_code [code]:
  fixes a b :: "'a::len word"
  shows "checked_add a b = (if uint a + uint b < 2 ^ LENGTH('a) then Some (a + b) else None)"
proof -
  have "uint a + uint b < 2 ^ LENGTH('a) \<longleftrightarrow> int (unat a + unat b) < int (2 ^ LENGTH('a))" by simp
  then show ?thesis by (simp only: checked_add_def of_nat_less_iff)
qed

lemma checked_mul_code [code]:
  fixes a b :: "'a::len word"
  shows "checked_mul a b = (if uint a * uint b < 2 ^ LENGTH('a) then Some (a * b) else None)"
proof -
  have "uint a * uint b < 2 ^ LENGTH('a) \<longleftrightarrow> int (unat a * unat b) < int (2 ^ LENGTH('a))" by simp
  then show ?thesis by (simp only: checked_mul_def of_nat_less_iff)
qed

lemma unat_saturating_add:
  fixes a b :: "'a::len word"
  shows "unat (saturating_add a b) = min (unat a + unat b) (2 ^ LENGTH('a) - 1)"
proof (cases "checked_add a b")
  case None
  then have "2 ^ LENGTH('a) \<le> unat a + unat b" by (simp add: checked_simps)
  with None show ?thesis by (simp add: saturating_add_def unsigned_minus_1_eq_mask mask_eq_exp_minus_1)
next
  case (Some c)
  then have "unat c = unat a + unat b" by (simp add: checked_simps)
  moreover have "unat c < 2 ^ LENGTH('a)" by (rule unsigned_less)
  ultimately show ?thesis using Some by (simp add: saturating_add_def)
qed

lemma unat_saturating_sub:
  fixes a b :: "'a::len word"
  shows "unat (saturating_sub a b) = unat a - unat b"
  by (simp add: saturating_sub_def unat_sub word_le_nat_alt)

lemma is_multiple_of_iff: "is_multiple_of a b \<longleftrightarrow> unat b dvd unat a"
proof (cases "b = 0")
  case True
  then show ?thesis by (simp add: is_multiple_of_def unat_eq_0)
next
  case False
  have "a mod b = 0 \<longleftrightarrow> unat (a mod b) = 0" by (simp add: unat_eq_0)
  also have "unat (a mod b) = unat a mod unat b" by (rule unat_mod_distrib)
  finally show ?thesis using False by (simp add: is_multiple_of_def dvd_eq_mod_eq_0)
qed

lemma unat_plus_one:
  fixes a :: "'a::len word"
  assumes "a \<noteq> - 1"
  shows "unat (a + 1) = unat a + 1"
proof -
  have "unat a \<noteq> unat (- 1 :: 'a word)" using assms word_unat_eq_iff by blast
  then have "unat a \<noteq> 2 ^ LENGTH('a) - 1" by (simp add: unsigned_minus_1_eq_mask mask_eq_exp_minus_1)
  moreover have "unat a < 2 ^ LENGTH('a)" by (rule unsigned_less)
  ultimately have "unat a + 1 < 2 ^ LENGTH('a)" by linarith
  then show ?thesis by (simp add: unat_word_ariths)
qed

lemma unat_minus_one_pos:
  fixes a :: "'a::len word"
  assumes "a \<noteq> 0"
  shows "unat (a - 1) = unat a - 1"
  using assms by (simp add: unat_minus_one)

lemma unat_word_of_nat:
  assumes "n < 2 ^ LENGTH('a)"
  shows "unat (word_of_nat n :: 'a::len word) = n"
  using assms by (simp add: unat_of_nat)

section \<open>Slices and arrays\<close>

text \<open>A Rust array or slice is a list. \<open>get\<close> is the bounds-checked read; \<open>position\<close> is
  \<open>iter().position(p)\<close>, the least index that satisfies the predicate. A loop that finds the
  first element and writes through the reference is \<open>position\<close> and a list update.\<close>

definition array_get :: "'a list \<Rightarrow> nat \<Rightarrow> 'a option" where
  "array_get xs i = (if i < length xs then Some (xs ! i) else None)"

fun position :: "('a \<Rightarrow> bool) \<Rightarrow> 'a list \<Rightarrow> nat option" where
  "position P [] = None"
| "position P (x # xs) = (if P x then Some 0 else map_option Suc (position P xs))"

lemma array_get_Some_iff [array_simps]:
  "array_get xs i = Some x \<longleftrightarrow> i < length xs \<and> xs ! i = x"
  by (auto simp: array_get_def)

lemma array_get_None_iff [array_simps]:
  "array_get xs i = None \<longleftrightarrow> length xs \<le> i"
  by (auto simp: array_get_def)

lemma position_None_iff [array_simps]:
  "position P xs = None \<longleftrightarrow> (\<forall>x \<in> set xs. \<not> P x)"
  by (induction xs) auto

lemma position_Some_iff:
  "position P xs = Some i \<longleftrightarrow> i < length xs \<and> P (xs ! i) \<and> (\<forall>j < i. \<not> P (xs ! j))"
proof (induction xs arbitrary: i)
  case Nil
  then show ?case by simp
next
  case (Cons x xs)
  show ?case
  proof (cases i)
    case 0
    then show ?thesis by (auto simp: option.map_disc_iff)
  next
    case (Suc k)
    then show ?thesis by (auto simp: Cons.IH less_Suc_eq_0_disj)
  qed
qed

lemma position_SomeD:
  assumes "position P xs = Some i"
  shows "i < length xs" and "P (xs ! i)" and "\<And>j. j < i \<Longrightarrow> \<not> P (xs ! j)"
  using assms by (simp_all add: position_Some_iff)

lemma position_exists:
  assumes "x \<in> set xs" and "P x"
  shows "\<exists>i. position P xs = Some i"
  using assms by (cases "position P xs") (auto simp: array_simps)

text \<open>Sums over an array after one element is replaced. With an indicator function this is
  the change of a count.\<close>

lemma sum_list_map_update:
  fixes f :: "'a \<Rightarrow> nat"
  assumes "i < length xs"
  shows "sum_list (map f (xs[i := x])) + f (xs ! i) = sum_list (map f xs) + f x"
  using assms
proof (induction xs arbitrary: i)
  case Nil
  then show ?case by simp
next
  case (Cons y ys)
  then show ?case by (cases i) (auto simp: add.assoc add.commute add.left_commute)
qed

lemma sum_list_map_ge_nth:
  fixes f :: "'a \<Rightarrow> nat"
  assumes "i < length xs"
  shows "f (xs ! i) \<le> sum_list (map f xs)"
  using assms by (metis length_map elem_le_sum_list nth_map)

lemma sum_list_map_pos_iff:
  fixes f :: "'a \<Rightarrow> nat"
  shows "0 < sum_list (map f xs) \<longleftrightarrow> (\<exists>x \<in> set xs. 0 < f x)"
  by (induction xs) auto

lemma length_filter_update:
  assumes "i < length xs"
  shows "length (filter P (xs[i := x])) + (if P (xs ! i) then 1 else 0) =
    length (filter P xs) + (if P x then 1 else 0)"
  using assms
proof (induction xs arbitrary: i)
  case Nil
  then show ?case by simp
next
  case (Cons y ys)
  then show ?case by (cases i) auto
qed

lemma count_map_filter_update:
  assumes "i < length xs"
  shows "count_list (List.map_filter f (xs[i := x])) y + (if f (xs ! i) = Some y then 1 else 0) =
    count_list (List.map_filter f xs) y + (if f x = Some y then 1 else 0)"
  using assms
proof (induction xs arbitrary: i)
  case Nil
  then show ?case by simp
next
  case (Cons z zs)
  show ?case
  proof (cases i)
    case 0
    then show ?thesis by (auto simp: List.map_filter_simps split: option.splits)
  next
    case (Suc k)
    then have "k < length zs" using Cons.prems by simp
    from Cons.IH [OF this] show ?thesis
      using Suc by (cases "f z") (simp_all add: List.map_filter_simps)
  qed
qed

lemma map_filter_update_same:
  "i < length xs \<Longrightarrow> f x = f (xs ! i) \<Longrightarrow> List.map_filter f (xs[i := x]) = List.map_filter f xs"
proof (induction xs arbitrary: i)
  case (Cons z zs)
  show ?case
  proof (cases i)
    case 0
    then show ?thesis using Cons.prems by (simp add: List.map_filter_simps)
  next
    case (Suc k)
    then show ?thesis
      using Cons.prems Cons.IH [of k] by (cases "f z") (simp_all add: List.map_filter_simps)
  qed
qed simp

lemma set_map_filter: "set (List.map_filter f xs) = {y. \<exists>x \<in> set xs. f x = Some y}"
  by (induction xs) (auto simp: List.map_filter_simps split: option.splits)

lemma count_list_pos_iff: "0 < count_list xs x \<longleftrightarrow> x \<in> set xs"
  by (metis count_list_0_iff neq0_conv)

lemma count_concat_map_update:
  assumes "i < length xs"
  shows "count_list (concat (map f (xs[i := x]))) y + count_list (f (xs ! i)) y =
    count_list (concat (map f xs)) y + count_list (f x) y"
  using assms
proof (induction xs arbitrary: i)
  case (Cons z zs)
  then show ?case by (cases i) (auto simp: add.assoc add.commute add.left_commute)
qed simp

lemma count_up_inj:
  fixes f g :: "'a \<Rightarrow> nat"
  assumes "f(a := f a + 1) = g(a := g a + 1)"
  shows "f = g"
proof
  fix x
  show "f x = g x" using fun_cong [OF assms, of x] by (simp split: if_splits)
qed

section \<open>Systems with an invariant\<close>

locale invariant_system =
  fixes init :: "'s \<Rightarrow> bool"
    and step :: "'s \<Rightarrow> 's \<Rightarrow> bool"
    and inv :: "'s \<Rightarrow> bool"
  assumes init_inv: "init s \<Longrightarrow> inv s"
    and step_inv: "step s t \<Longrightarrow> inv s \<Longrightarrow> inv t"
begin

lemma run_inv:
  assumes "step\<^sup>*\<^sup>* s t" and "inv s"
  shows "inv t"
  using assms by (induction rule: rtranclp_induct) (auto intro: step_inv)

lemma reachable_inv:
  assumes "init s" and "step\<^sup>*\<^sup>* s t"
  shows "inv t"
  using assms(2) init_inv [OF assms(1)] by (rule run_inv)

end

section \<open>Generational keys\<close>

text \<open>A key is \<open>live\<close> when the component resolves it and \<open>issued\<close> when the component has
  handed it out, now or earlier. The laws are about single steps; the lemma is about runs.\<close>

locale generational =
  fixes step :: "'s \<Rightarrow> 's \<Rightarrow> bool"
    and inv :: "'s \<Rightarrow> bool"
    and live :: "'s \<Rightarrow> 'k \<Rightarrow> bool"
    and issued :: "'s \<Rightarrow> 'k \<Rightarrow> bool"
  assumes keeps_inv: "step s t \<Longrightarrow> inv s \<Longrightarrow> inv t"
    and live_issued: "inv s \<Longrightarrow> live s k \<Longrightarrow> issued s k"
    and issued_mono: "step s t \<Longrightarrow> inv s \<Longrightarrow> issued s k \<Longrightarrow> issued t k"
    and no_revival: "step s t \<Longrightarrow> inv s \<Longrightarrow> issued s k \<Longrightarrow> \<not> live s k \<Longrightarrow> \<not> live t k"
begin

lemma run_issued:
  assumes "step\<^sup>*\<^sup>* s t" and "inv s" and "issued s k"
  shows "inv t \<and> issued t k"
  using assms by (induction rule: rtranclp_induct) (auto intro: keeps_inv issued_mono)

lemma dead_stays_dead:
  assumes "step\<^sup>*\<^sup>* s t" and "inv s" and "issued s k" and "\<not> live s k"
  shows "\<not> live t k"
  using assms
proof (induction rule: rtranclp_induct)
  case base
  then show ?case by simp
next
  case (step t u)
  then show ?case using run_issued no_revival by blast
qed

lemma never_revived:
  assumes "inv s" and "live s k"
    and "step\<^sup>*\<^sup>* s t" and "\<not> live t k" and "step\<^sup>*\<^sup>* t u"
  shows "\<not> live u k"
proof -
  have "issued s k" using assms(1,2) by (rule live_issued)
  then have "inv t" and "issued t k" using run_issued [OF assms(3,1)] by auto
  then show ?thesis using dead_stays_dead assms(4,5) by blast
qed

end

section \<open>Codecs\<close>

locale codec =
  fixes encode :: "'a \<Rightarrow> u8 list option"
    and decode :: "u8 list \<Rightarrow> 'a option"
  assumes decode_encode: "encode x = Some bs \<Longrightarrow> decode bs = Some x"
    and encode_decode: "decode bs = Some x \<Longrightarrow> encode x = Some bs"
begin

lemma decode_iff: "decode bs = Some x \<longleftrightarrow> encode x = Some bs"
  using decode_encode encode_decode by blast

lemma encode_inj:
  assumes "encode x = Some bs" and "encode y = Some bs"
  shows "x = y"
  using decode_encode [OF assms(1)] decode_encode [OF assms(2)] by simp

lemma decode_inj:
  assumes "decode bs = Some x" and "decode cs = Some x"
  shows "bs = cs"
  using encode_decode [OF assms(1)] encode_decode [OF assms(2)] by simp

end

end
