(* ===== verification/Objects.thy ===== *)
theory Objects
  imports Prelude
begin

text \<open>
  Rights sets and the object registry of the kernel (\<open>kernel/src/handles.rs\<close>, first half).
  The registry is an array of slots; an \<open>ObjectId\<close> names a slot together with the
  generation the slot had when the object was created. The state is the array; the operations are
  \<open>create\<close>, \<open>retain\<close>, \<open>release\<close>, \<open>validate\<close> and \<open>reference_count\<close>. The
  abstraction is \<open>reg_refs\<close>, the number of references each object identity has: the operations
  are shown to be exactly increment, decrement and fresh allocation on it, and an identity that
  died is shown never to resolve again.
\<close>

section \<open>Rights\<close>

type_synonym rights = u32

definition RIGHT_READ :: rights where "RIGHT_READ = push_bit 0 1"
definition RIGHT_WRITE :: rights where "RIGHT_WRITE = push_bit 1 1"
definition RIGHT_MAP :: rights where "RIGHT_MAP = push_bit 2 1"
definition RIGHT_TRANSFER :: rights where "RIGHT_TRANSFER = push_bit 3 1"
definition RIGHT_CONTROL :: rights where "RIGHT_CONTROL = push_bit 4 1"
definition RIGHT_DUPLICATE :: rights where "RIGHT_DUPLICATE = push_bit 5 1"
definition RIGHT_WAIT :: rights where "RIGHT_WAIT = push_bit 6 1"
definition RIGHT_SIGNAL :: rights where "RIGHT_SIGNAL = push_bit 7 1"
definition RIGHT_EXECUTE :: rights where "RIGHT_EXECUTE = push_bit 8 1"

lemmas right_defs = RIGHT_READ_def RIGHT_WRITE_def RIGHT_MAP_def RIGHT_TRANSFER_def
  RIGHT_CONTROL_def RIGHT_DUPLICATE_def RIGHT_WAIT_def RIGHT_SIGNAL_def RIGHT_EXECUTE_def

definition RIGHTS_KNOWN :: rights where
  "RIGHTS_KNOWN = RIGHT_READ OR RIGHT_WRITE OR RIGHT_MAP OR RIGHT_TRANSFER OR RIGHT_CONTROL
     OR RIGHT_DUPLICATE OR RIGHT_WAIT OR RIGHT_SIGNAL OR RIGHT_EXECUTE"

definition rights_from_bits :: "u32 \<Rightarrow> rights option" where
  "rights_from_bits bits = (if bits AND NOT RIGHTS_KNOWN = 0 then Some bits else None)"

definition rights_contains :: "rights \<Rightarrow> rights \<Rightarrow> bool" where
  "rights_contains r required \<longleftrightarrow> r AND required = required"

definition rights_is_subset_of :: "rights \<Rightarrow> rights \<Rightarrow> bool" where
  "rights_is_subset_of r available \<longleftrightarrow> rights_contains available r"

lemma rights_contains_bits:
  "rights_contains r q \<longleftrightarrow> (\<forall>n. bit q n \<longrightarrow> bit r n)"
proof
  assume "rights_contains r q"
  then have "r AND q = q" by (simp add: rights_contains_def)
  then show "\<forall>n. bit q n \<longrightarrow> bit r n" by (metis bit_and_iff)
next
  assume "\<forall>n. bit q n \<longrightarrow> bit r n"
  then have "r AND q = q" by (auto intro!: bit_eqI simp: bit_and_iff)
  then show "rights_contains r q" by (simp add: rights_contains_def)
qed

lemma rights_subset_refl [simp]: "rights_is_subset_of r r"
  by (simp add: rights_is_subset_of_def rights_contains_def)

lemma rights_subset_trans:
  "rights_is_subset_of a b \<Longrightarrow> rights_is_subset_of b c \<Longrightarrow> rights_is_subset_of a c"
  by (simp add: rights_is_subset_of_def rights_contains_bits)

lemma rights_contains_mono:
  "rights_contains a q \<Longrightarrow> rights_is_subset_of a b \<Longrightarrow> rights_contains b q"
  by (simp add: rights_is_subset_of_def rights_contains_bits)

section \<open>Objects and their registry\<close>

datatype object_kind =
    KProcess | KAddressSpace | KVmo | KChannel | KChannelEndpoint | KEvent | KTimer

record object_id =
  oid_slot :: u32
  oid_generation :: u32
  oid_kind :: object_kind

datatype handle_error =
    HE_Invalid | HE_Stale | HE_Closed | HE_WrongType | HE_RightsMissing | HE_TableFull
  | HE_ReceiverFull | HE_GenerationExhausted | HE_ObjectTableFull | HE_ObjectReferenceOverflow

record object_slot =
  os_generation :: u32
  os_kind :: "object_kind option"
  os_references :: u32
  os_retired :: bool

definition OBJECT_SLOT_EMPTY :: object_slot where
  "OBJECT_SLOT_EMPTY =
     \<lparr>os_generation = 1, os_kind = None, os_references = 0, os_retired = False\<rparr>"

record object_registry =
  reg_slots :: "object_slot list"

definition registry_new :: "nat \<Rightarrow> object_registry" where
  "registry_new n = \<lparr>reg_slots = replicate n OBJECT_SLOT_EMPTY\<rparr>"

definition registry_create ::
  "object_registry \<Rightarrow> object_kind \<Rightarrow> (handle_error, object_id) result \<times> object_registry" where
  "registry_create r kind =
     (case position (\<lambda>s. os_kind s = None \<and> \<not> os_retired s) (reg_slots r) of
        None \<Rightarrow> (Inl HE_ObjectTableFull, r)
      | Some index \<Rightarrow>
          let s = reg_slots r ! index;
              s' = s\<lparr>os_kind := Some kind, os_references := 1\<rparr>
          in (Inr \<lparr>oid_slot = word_of_nat index, oid_generation = os_generation s,
                   oid_kind = kind\<rparr>,
              r\<lparr>reg_slots := (reg_slots r)[index := s']\<rparr>))"

text \<open>The shared lookup of \<open>object_slot\<close> and \<open>object_slot_mut\<close>: the latter returns a
  mutable reference, here the lookup followed by \<open>put_object_slot\<close>.\<close>

definition object_slot :: "object_registry \<Rightarrow> object_id \<Rightarrow> (handle_error, object_slot) result" where
  "object_slot r ob =
     (if oid_generation ob = 0 then Inl HE_Invalid
      else case array_get (reg_slots r) (unat (oid_slot ob)) of
        None \<Rightarrow> Inl HE_Invalid
      | Some s \<Rightarrow>
          if os_generation s \<noteq> oid_generation ob \<or> os_kind s \<noteq> Some (oid_kind ob)
          then Inl HE_Stale else Inr s)"

definition put_object_slot :: "object_registry \<Rightarrow> object_id \<Rightarrow> object_slot \<Rightarrow> object_registry" where
  "put_object_slot r ob s = r\<lparr>reg_slots := (reg_slots r)[unat (oid_slot ob) := s]\<rparr>"

definition registry_retain ::
  "object_registry \<Rightarrow> object_id \<Rightarrow> (handle_error, unit) result \<times> object_registry" where
  "registry_retain r ob =
     (case object_slot r ob of
        Inl e \<Rightarrow> (Inl e, r)
      | Inr s \<Rightarrow>
          if os_references s = U32_MAX then (Inl HE_ObjectReferenceOverflow, r)
          else (Inr (), put_object_slot r ob (s\<lparr>os_references := os_references s + 1\<rparr>)))"

text \<open>What \<open>release\<close> does to a slot whose last reference is gone.\<close>

definition vacate_object_slot :: "object_slot \<Rightarrow> object_slot" where
  "vacate_object_slot s =
     (if os_generation s = U32_MAX then s\<lparr>os_kind := None, os_retired := True\<rparr>
      else s\<lparr>os_kind := None, os_generation := os_generation s + 1\<rparr>)"

definition registry_release ::
  "object_registry \<Rightarrow> object_id \<Rightarrow> (handle_error, unit) result \<times> object_registry" where
  "registry_release r ob =
     (case object_slot r ob of
        Inl e \<Rightarrow> (Inl e, r)
      | Inr s \<Rightarrow>
          if os_references s = 0 then (Inl HE_Stale, r)
          else
            let s1 = s\<lparr>os_references := os_references s - 1\<rparr>;
                s2 = (if os_references s1 = 0 then vacate_object_slot s1 else s1)
            in (Inr (), put_object_slot r ob s2))"

definition registry_validate ::
  "object_registry \<Rightarrow> object_id \<Rightarrow> object_kind \<Rightarrow> (handle_error, unit) result" where
  "registry_validate r ob expected =
     (if oid_kind ob \<noteq> expected then Inl HE_WrongType
      else case array_get (reg_slots r) (unat (oid_slot ob)) of
        None \<Rightarrow> Inl HE_Invalid
      | Some s \<Rightarrow>
          if os_generation s \<noteq> oid_generation ob \<or> os_kind s \<noteq> Some expected
          then Inl HE_Stale else Inr ())"

definition registry_reference_count ::
  "object_registry \<Rightarrow> object_id \<Rightarrow> (handle_error, u32) result" where
  "registry_reference_count r ob =
     (case object_slot r ob of Inl e \<Rightarrow> Inl e | Inr s \<Rightarrow> Inr (os_references s))"

section \<open>Well-formed registries and the reference counts\<close>

text \<open>A slot holds an object exactly when it has references; its generation is never 0; a
  retired slot is empty and has spent its last generation.\<close>

definition slot_ok :: "object_slot \<Rightarrow> bool" where
  "slot_ok s \<longleftrightarrow> (os_kind s = None \<longleftrightarrow> os_references s = 0) \<and> os_generation s \<noteq> 0 \<and>
     (os_retired s \<longrightarrow> os_kind s = None \<and> os_generation s = U32_MAX)"

definition reg_inv :: "object_registry \<Rightarrow> bool" where
  "reg_inv r \<longleftrightarrow> list_all slot_ok (reg_slots r) \<and> length (reg_slots r) \<le> 2 ^ 32"

definition reg_refs :: "object_registry \<Rightarrow> object_id \<Rightarrow> nat" where
  "reg_refs r ob = (case object_slot r ob of Inl e \<Rightarrow> 0 | Inr s \<Rightarrow> unat (os_references s))"

definition reg_live :: "object_registry \<Rightarrow> object_id \<Rightarrow> bool" where
  "reg_live r ob \<longleftrightarrow> (\<exists>s. object_slot r ob = Inr s)"

lemma reg_inv_nth: "reg_inv r \<Longrightarrow> i < length (reg_slots r) \<Longrightarrow> slot_ok (reg_slots r ! i)"
  by (simp add: reg_inv_def list_all_length)

lemma reg_inv_update:
  "reg_inv r \<Longrightarrow> slot_ok s \<Longrightarrow> reg_inv (r\<lparr>reg_slots := (reg_slots r)[i := s]\<rparr>)"
  unfolding reg_inv_def list_all_iff by (auto dest!: set_update_subset_insert [THEN subsetD])

lemma reg_inv_new: "n \<le> 2 ^ 32 \<Longrightarrow> reg_inv (registry_new n)"
  by (simp add: reg_inv_def registry_new_def slot_ok_def OBJECT_SLOT_EMPTY_def list_all_length)

lemma object_slot_Inr_iff:
  "object_slot r ob = Inr s \<longleftrightarrow> oid_generation ob \<noteq> 0 \<and>
     unat (oid_slot ob) < length (reg_slots r) \<and> reg_slots r ! unat (oid_slot ob) = s \<and>
     os_generation s = oid_generation ob \<and> os_kind s = Some (oid_kind ob)"
  by (auto simp: object_slot_def array_get_def)

lemma reg_refs_pos_iff:
  assumes "reg_inv r"
  shows "0 < reg_refs r ob \<longleftrightarrow> reg_live r ob"
proof (cases "object_slot r ob")
  case (Inl e)
  then show ?thesis by (simp add: reg_refs_def reg_live_def)
next
  case (Inr s)
  then have "slot_ok s" and "os_kind s \<noteq> None"
    using reg_inv_nth [OF assms] by (auto simp: object_slot_Inr_iff)
  then have "os_references s \<noteq> 0" by (simp add: slot_ok_def)
  then show ?thesis using Inr by (simp add: reg_refs_def reg_live_def unat_gt_0)
qed

lemma reg_refs_dead: "reg_inv r \<Longrightarrow> \<not> reg_live r ob \<Longrightarrow> reg_refs r ob = 0"
  using reg_refs_pos_iff by (metis neq0_conv)

lemma validate_iff_live:
  assumes "reg_inv r"
  shows "registry_validate r ob (oid_kind ob) = Inr () \<longleftrightarrow> reg_live r ob"
proof -
  have "os_generation (reg_slots r ! i) \<noteq> 0" if "i < length (reg_slots r)" for i
    using reg_inv_nth [OF assms that] by (simp add: slot_ok_def)
  then show ?thesis
    by (auto simp: registry_validate_def reg_live_def object_slot_Inr_iff array_get_def)
qed

lemma validate_live_Inr:
  "reg_inv r \<Longrightarrow> reg_live r ob \<Longrightarrow> registry_validate r ob (oid_kind ob) = Inr ()"
  by (simp add: validate_iff_live)

text \<open>Two identities that resolve to the same slot are equal, so a change of one slot changes
  the count of one identity.\<close>

lemma oid_eqI:
  fixes a b :: object_id
  shows "oid_slot a = oid_slot b \<Longrightarrow> oid_generation a = oid_generation b \<Longrightarrow>
     oid_kind a = oid_kind b \<Longrightarrow> a = b"
  by simp

lemma put_refs_other:
  assumes "object_slot r ob = Inr s" and "ob' \<noteq> ob"
    and "os_kind s' = None \<or> os_generation s' = os_generation s \<and> os_kind s' = os_kind s"
  shows "reg_refs (put_object_slot r ob s') ob' = reg_refs r ob'"
proof (cases "oid_slot ob' = oid_slot ob")
  case True
  then have "\<not> (oid_generation ob' = oid_generation ob \<and> oid_kind ob' = oid_kind ob)"
    using assms(2) by auto
  then have "object_slot r ob' \<noteq> Inr t" and "object_slot (put_object_slot r ob s') ob' \<noteq> Inr t" for t
    using True assms(1,3) by (auto simp: object_slot_Inr_iff put_object_slot_def)
  then show ?thesis by (auto simp: reg_refs_def split: sum.splits)
next
  case False
  then have "unat (oid_slot ob') \<noteq> unat (oid_slot ob)" by (simp add: word_unat_eq_iff)
  then show ?thesis
    by (simp add: reg_refs_def put_object_slot_def object_slot_def array_get_def)
qed

lemma put_refs_same:
  assumes "object_slot r ob = Inr s"
    and "os_generation s' = os_generation s" and "os_kind s' = os_kind s"
  shows "reg_refs (put_object_slot r ob s') ob = unat (os_references s')"
proof -
  have "object_slot (put_object_slot r ob s') ob = Inr s'"
    using assms by (auto simp: object_slot_Inr_iff put_object_slot_def)
  then show ?thesis by (simp add: reg_refs_def)
qed

lemma put_refs_freed:
  assumes "object_slot r ob = Inr s" and "os_kind s' = None"
  shows "reg_refs (put_object_slot r ob s') ob = 0"
  using assms by (simp add: reg_refs_def put_object_slot_def object_slot_def array_get_def
      object_slot_Inr_iff)

section \<open>The operations on the counts\<close>

lemma retain_cases:
  assumes "reg_inv r"
  shows "(fst (registry_retain r ob) = Inr () \<longleftrightarrow>
      reg_live r ob \<and> reg_refs r ob < 2 ^ 32 - 1)"
proof (cases "object_slot r ob")
  case (Inl e)
  then show ?thesis by (simp add: registry_retain_def reg_live_def)
next
  case (Inr s)
  have "os_references s = U32_MAX \<longleftrightarrow> unat (os_references s) = 2 ^ 32 - 1"
    by (simp add: word_unat_eq_iff unsigned_minus_1_eq_mask mask_eq_exp_minus_1)
  moreover have "unat (os_references s) < 2 ^ 32"
    using unsigned_less [of "os_references s"] by simp
  ultimately show ?thesis using Inr by (auto simp: registry_retain_def reg_live_def reg_refs_def)
qed

lemma retain_refs:
  assumes "registry_retain r ob = (Inr (), r')"
  shows "reg_refs r' = (reg_refs r)(ob := reg_refs r ob + 1)"
proof -
  obtain s where s: "object_slot r ob = Inr s" and m: "os_references s \<noteq> U32_MAX"
    and r': "r' = put_object_slot r ob (s\<lparr>os_references := os_references s + 1\<rparr>)"
    using assms by (auto simp: registry_retain_def split: sum.splits if_splits)
  show ?thesis
  proof
    fix o'
    show "reg_refs r' o' = ((reg_refs r)(ob := reg_refs r ob + 1)) o'"
    proof (cases "o' = ob")
      case True
      then show ?thesis
        using s r' m by (simp add: put_refs_same unat_plus_one reg_refs_def [of r])
    next
      case False
      then show ?thesis using s r' by (simp add: put_refs_other)
    qed
  qed
qed

lemma retain_inv:
  assumes "reg_inv r" and "registry_retain r ob = (x, r')"
  shows "reg_inv r'"
proof (cases x)
  case (Inl e)
  then have "r' = r" using assms(2)
    by (auto simp: registry_retain_def split: sum.splits if_splits)
  then show ?thesis using assms(1) by simp
next
  case (Inr u)
  then obtain s where s: "object_slot r ob = Inr s" and m: "os_references s \<noteq> U32_MAX"
    and r': "r' = put_object_slot r ob (s\<lparr>os_references := os_references s + 1\<rparr>)"
    using assms by (auto simp: registry_retain_def split: sum.splits if_splits)
  have "slot_ok s" using s reg_inv_nth [OF assms(1)] by (auto simp: object_slot_Inr_iff)
  moreover have "os_references s + 1 \<noteq> 0"
    using unat_plus_one [OF m] by (metis add_is_0 one_neq_zero unat_0)
  ultimately have "slot_ok (s\<lparr>os_references := os_references s + 1\<rparr>)"
    using s by (auto simp: slot_ok_def object_slot_Inr_iff)
  then show ?thesis using assms(1) r' by (simp add: put_object_slot_def reg_inv_update)
qed

lemma retain_err_unchanged: "registry_retain r ob = (Inl e, r') \<Longrightarrow> r' = r"
  by (auto simp: registry_retain_def split: sum.splits if_splits)

lemma release_ok_iff:
  assumes "reg_inv r"
  shows "fst (registry_release r ob) = Inr () \<longleftrightarrow> reg_live r ob"
proof (cases "object_slot r ob")
  case (Inl e)
  then show ?thesis by (simp add: registry_release_def reg_live_def)
next
  case (Inr s)
  then have "reg_live r ob" by (simp add: reg_live_def)
  then have "0 < reg_refs r ob" using reg_refs_pos_iff [OF assms] by simp
  then have "os_references s \<noteq> 0" using Inr by (auto simp: reg_refs_def)
  then show ?thesis using Inr \<open>reg_live r ob\<close> by (simp add: registry_release_def Let_def)
qed

lemma release_refs:
  assumes "registry_release r ob = (Inr (), r')"
  shows "reg_refs r' = (reg_refs r)(ob := reg_refs r ob - 1)"
proof
  fix o'
  obtain s where s: "object_slot r ob = Inr s" and nz: "os_references s \<noteq> 0"
    using assms by (auto simp: registry_release_def split: sum.splits if_splits)
  have cnt: "unat (os_references s - 1) = unat (os_references s) - 1"
    using nz by (rule unat_minus_one_pos)
  show "reg_refs r' o' = ((reg_refs r)(ob := reg_refs r ob - 1)) o'"
  proof (cases "os_references s - 1 = 0")
    case True
    then have "r' = put_object_slot r ob (vacate_object_slot (s\<lparr>os_references := 0\<rparr>))"
      using assms s nz by (simp add: registry_release_def Let_def)
    moreover have "os_kind (vacate_object_slot (s\<lparr>os_references := 0\<rparr>)) = None"
      by (simp add: vacate_object_slot_def)
    ultimately show ?thesis
      using s True cnt
      by (cases "o' = ob") (simp_all add: put_refs_freed put_refs_other reg_refs_def [of r ob])
  next
    case False
    then have "r' = put_object_slot r ob (s\<lparr>os_references := os_references s - 1\<rparr>)"
      using assms s nz by (auto simp: registry_release_def Let_def)
    then show ?thesis
      using s cnt
      by (cases "o' = ob") (simp_all add: put_refs_same put_refs_other reg_refs_def [of r ob])
  qed
qed

lemma retain_then_release:
  assumes "reg_inv r" and "registry_retain r ob = (Inr (), r')"
  shows "registry_release r' ob = (Inr (), r)"
proof -
  obtain s where s: "object_slot r ob = Inr s" and m: "os_references s \<noteq> U32_MAX"
    and r': "r' = put_object_slot r ob (s\<lparr>os_references := os_references s + 1\<rparr>)"
    using assms(2) by (auto simp: registry_retain_def split: sum.splits if_splits)
  have "0 < reg_refs r ob" using reg_refs_pos_iff [OF assms(1)] s by (auto simp: reg_live_def)
  then have nz: "os_references s \<noteq> 0" using s by (auto simp: reg_refs_def)
  have nz': "os_references s + 1 \<noteq> 0"
    using unat_plus_one [OF m] by (metis add_is_0 one_neq_zero unat_0)
  have "object_slot r' ob = Inr (s\<lparr>os_references := os_references s + 1\<rparr>)"
    using s r' by (auto simp: object_slot_Inr_iff put_object_slot_def)
  moreover have "put_object_slot r' ob s = r"
    using s r' by (auto simp: object_slot_Inr_iff put_object_slot_def)
  ultimately show ?thesis using nz nz' by (simp add: registry_release_def Let_def)
qed

lemma release_err_unchanged: "registry_release r ob = (Inl e, r') \<Longrightarrow> r' = r"
  by (auto simp: registry_release_def Let_def split: sum.splits if_splits)

lemma slot_ok_vacate:
  assumes "slot_ok s" and "os_kind s \<noteq> None"
  shows "slot_ok (vacate_object_slot (s\<lparr>os_references := 0\<rparr>))"
proof -
  have "os_generation s + 1 \<noteq> 0" if "os_generation s \<noteq> U32_MAX"
    using unat_plus_one [OF that] by (metis add_is_0 one_neq_zero unat_0)
  then show ?thesis using assms by (auto simp: slot_ok_def vacate_object_slot_def)
qed

lemma release_inv:
  assumes "reg_inv r" and "registry_release r ob = (x, r')"
  shows "reg_inv r'"
proof (cases x)
  case (Inl e)
  then show ?thesis using assms release_err_unchanged by blast
next
  case (Inr u)
  then obtain s where s: "object_slot r ob = Inr s" and nz: "os_references s \<noteq> 0"
    using assms by (auto simp: registry_release_def split: sum.splits if_splits)
  have ok: "slot_ok s" using s reg_inv_nth [OF assms(1)] by (auto simp: object_slot_Inr_iff)
  have "slot_ok (if os_references s - 1 = 0
      then vacate_object_slot (s\<lparr>os_references := os_references s - 1\<rparr>)
      else s\<lparr>os_references := os_references s - 1\<rparr>)"
  proof (cases "os_references s - 1 = 0")
    case True
    then show ?thesis using ok s by (simp add: slot_ok_vacate object_slot_Inr_iff)
  next
    case False
    then show ?thesis using ok s nz by (auto simp: slot_ok_def object_slot_Inr_iff)
  qed
  moreover have "r' = put_object_slot r ob (if os_references s - 1 = 0
      then vacate_object_slot (s\<lparr>os_references := os_references s - 1\<rparr>)
      else s\<lparr>os_references := os_references s - 1\<rparr>)"
    using assms(2) s nz Inr by (simp add: registry_release_def Let_def)
  ultimately show ?thesis using assms(1) by (simp only: put_object_slot_def reg_inv_update)
qed

lemma create_ok:
  assumes "reg_inv r" and "registry_create r kind = (Inr ob, r')"
  shows "reg_inv r'" and "reg_refs r ob = 0" and "reg_refs r' = (reg_refs r)(ob := 1)"
    and "oid_kind ob = kind" and "\<not> reg_live r ob"
proof -
  obtain i where i: "position (\<lambda>s. os_kind s = None \<and> \<not> os_retired s) (reg_slots r) = Some i"
    and ob: "ob = \<lparr>oid_slot = word_of_nat i, oid_generation = os_generation (reg_slots r ! i),
        oid_kind = kind\<rparr>"
    and r': "r' = r\<lparr>reg_slots := (reg_slots r)
        [i := (reg_slots r ! i)\<lparr>os_kind := Some kind, os_references := 1\<rparr>]\<rparr>"
    using assms(2) by (auto simp: registry_create_def Let_def split: option.splits)
  have len: "i < length (reg_slots r)" and free: "os_kind (reg_slots r ! i) = None"
    and nret: "\<not> os_retired (reg_slots r ! i)"
    using position_SomeD [OF i] by auto
  have ok: "slot_ok (reg_slots r ! i)" using reg_inv_nth [OF assms(1) len] .
  have "i < 2 ^ 32" using len assms(1) by (simp add: reg_inv_def)
  then have un: "unat (oid_slot ob) = i" using ob by (simp add: unat_word_of_nat)
  have "slot_ok ((reg_slots r ! i)\<lparr>os_kind := Some kind, os_references := 1\<rparr>)"
    using ok nret by (simp add: slot_ok_def)
  then show inv: "reg_inv r'" using assms(1) r' by (simp add: reg_inv_update)
  show dead: "\<not> reg_live r ob" using un free by (simp add: reg_live_def object_slot_Inr_iff)
  then show "reg_refs r ob = 0" using assms(1) by (simp add: reg_refs_dead)
  show "oid_kind ob = kind" using ob by simp
  show "reg_refs r' = (reg_refs r)(ob := 1)"
  proof
    fix o'
    show "reg_refs r' o' = ((reg_refs r)(ob := 1)) o'"
    proof (cases "o' = ob")
      case True
      have "oid_generation ob \<noteq> 0" using ok ob by (simp add: slot_ok_def)
      then show ?thesis
        using True un len ob r' by (simp add: reg_refs_def object_slot_def array_get_def)
    next
      case False
      show ?thesis
      proof (cases "unat (oid_slot o') = i")
        case True
        then have "oid_slot o' = oid_slot ob" using un by (simp add: word_unat_eq_iff)
        then have "\<not> (oid_generation o' = oid_generation ob \<and> oid_kind o' = oid_kind ob)"
          using False by (auto intro: oid_eqI)
        then have "reg_refs r' o' = 0"
          using True len ob r' by (auto simp: reg_refs_def object_slot_def array_get_def)
        moreover have "reg_refs r o' = 0"
          using True free by (auto simp: reg_refs_def object_slot_def array_get_def)
        ultimately show ?thesis using False by simp
      next
        case ne: False
        then show ?thesis
          using False r' by (simp add: reg_refs_def object_slot_def array_get_def)
      qed
    qed
  qed
qed

lemma create_err_unchanged: "registry_create r kind = (Inl e, r') \<Longrightarrow> r' = r"
  by (auto simp: registry_create_def Let_def split: option.splits)

lemma create_fails_iff:
  "(\<exists>e. fst (registry_create r kind) = Inl e) \<longleftrightarrow>
     (\<forall>s \<in> set (reg_slots r). os_kind s \<noteq> None \<or> os_retired s)"
  by (force simp: registry_create_def Let_def array_simps split: option.splits
      dest: position_SomeD)

section \<open>The interface of a reference-counted store\<close>

text \<open>What the clients of the registry (handle tables, channels, address spaces) rely on. The
  client lemmas are about a retain that is taken back and about releasing a whole list of
  references, one reference per list element.\<close>

locale refcount_store =
  fixes inv :: "'s \<Rightarrow> bool"
    and refs :: "'s \<Rightarrow> 'o \<Rightarrow> nat"
    and retain :: "'s \<Rightarrow> 'o \<Rightarrow> ('e + unit) \<times> 's"
    and release :: "'s \<Rightarrow> 'o \<Rightarrow> ('e + unit) \<times> 's"
  assumes retain_ok: "inv s \<Longrightarrow> retain s x = (Inr (), t) \<Longrightarrow>
      inv t \<and> refs t = (refs s)(x := refs s x + 1)"
    and retain_error: "retain s x = (Inl e, t) \<Longrightarrow> t = s"
    and retain_live: "inv s \<Longrightarrow> retain s x = (Inr (), t) \<Longrightarrow> 0 < refs s x"
    and release_ok: "inv s \<Longrightarrow> release s x = (Inr (), t) \<Longrightarrow>
      inv t \<and> refs t = (refs s)(x := refs s x - 1)"
    and release_error: "release s x = (Inl e, t) \<Longrightarrow> t = s"
    and release_live: "inv s \<Longrightarrow> 0 < refs s x \<Longrightarrow> \<exists>t. release s x = (Inr (), t)"
begin

lemma release_taken_back:
  assumes "inv s" and "retain s x = (Inr (), t)"
  shows "\<exists>u. release t x = (Inr (), u) \<and> inv u \<and> refs u = refs s"
proof -
  have t: "inv t" "refs t = (refs s)(x := refs s x + 1)" using retain_ok [OF assms] by auto
  then obtain u where u: "release t x = (Inr (), u)" using release_live [of t x] by auto
  then have "inv u" "refs u = (refs t)(x := refs t x - 1)" using release_ok [OF t(1)] by auto
  then show ?thesis using u t(2) by auto
qed

lemma release_list:
  assumes "inv s" and "\<And>x. count_list xs x \<le> refs s x"
  shows "inv (fold (\<lambda>x s. snd (release s x)) xs s) \<and>
    (\<forall>x. refs (fold (\<lambda>x s. snd (release s x)) xs s) x = refs s x - count_list xs x)"
  using assms
proof (induction xs arbitrary: s)
  case Nil
  then show ?case by simp
next
  case (Cons y ys)
  have "0 < refs s y" using Cons.prems(2) [of y] by simp
  then obtain t where t: "release s y = (Inr (), t)" using release_live Cons.prems(1) by blast
  then have inv: "inv t" and refs: "refs t = (refs s)(y := refs s y - 1)"
    using release_ok [OF Cons.prems(1)] by auto
  have "count_list ys x \<le> refs t x" for x
    using Cons.prems(2) [of x] refs by (cases "x = y") auto
  from Cons.IH [OF inv this] show ?case using t refs by auto
qed

end

interpretation registry: refcount_store reg_inv reg_refs registry_retain registry_release
proof unfold_locales
  fix s t :: object_registry and x e
  show "reg_inv s \<Longrightarrow> registry_retain s x = (Inr (), t) \<Longrightarrow>
      reg_inv t \<and> reg_refs t = (reg_refs s)(x := reg_refs s x + 1)"
    using retain_inv retain_refs by blast
  show "registry_retain s x = (Inl e, t) \<Longrightarrow> t = s" by (rule retain_err_unchanged)
  show "reg_inv s \<Longrightarrow> registry_retain s x = (Inr (), t) \<Longrightarrow> 0 < reg_refs s x"
    using retain_cases [of s x] reg_refs_pos_iff [of s x] by simp
  show "reg_inv s \<Longrightarrow> registry_release s x = (Inr (), t) \<Longrightarrow>
      reg_inv t \<and> reg_refs t = (reg_refs s)(x := reg_refs s x - 1)"
    using release_inv release_refs by blast
  show "registry_release s x = (Inl e, t) \<Longrightarrow> t = s" by (rule release_err_unchanged)
  show "reg_inv s \<Longrightarrow> 0 < reg_refs s x \<Longrightarrow> \<exists>t. registry_release s x = (Inr (), t)"
    using release_ok_iff [of s x] reg_refs_pos_iff [of s x]
    by (cases "registry_release s x") auto
qed

section \<open>Identities are never reused\<close>

inductive reg_step :: "object_registry \<Rightarrow> object_registry \<Rightarrow> bool" where
  create: "reg_step r (snd (registry_create r kind))"
| retain: "reg_step r (snd (registry_retain r ob))"
| release: "reg_step r (snd (registry_release r ob))"

text \<open>An identity has been issued when its generation lies behind the slot's, or is the slot's
  and the slot is in use or retired.\<close>

definition reg_issued :: "object_registry \<Rightarrow> object_id \<Rightarrow> bool" where
  "reg_issued r ob \<longleftrightarrow> unat (oid_slot ob) < length (reg_slots r) \<and>
     (let s = reg_slots r ! unat (oid_slot ob) in
        oid_generation ob < os_generation s \<or>
        oid_generation ob = os_generation s \<and> (os_kind s \<noteq> None \<or> os_retired s))"

text \<open>What one step may do to one slot.\<close>

inductive slot_step :: "object_slot \<Rightarrow> object_slot \<Rightarrow> bool" where
  same: "slot_step s s"
| fill: "os_kind s = None \<Longrightarrow> \<not> os_retired s \<Longrightarrow>
     slot_step s (s\<lparr>os_kind := Some k, os_references := n\<rparr>)"
| count: "os_kind s \<noteq> None \<Longrightarrow> slot_step s (s\<lparr>os_references := n\<rparr>)"
| empty: "os_kind s \<noteq> None \<Longrightarrow> slot_step s (vacate_object_slot (s\<lparr>os_references := n\<rparr>))"

lemma reg_step_slots:
  assumes "reg_step r r'"
  shows "length (reg_slots r') = length (reg_slots r) \<and>
    (\<forall>i < length (reg_slots r). slot_step (reg_slots r ! i) (reg_slots r' ! i))"
  using assms
proof cases
  case (create kind)
  show ?thesis
  proof (cases "position (\<lambda>s. os_kind s = None \<and> \<not> os_retired s) (reg_slots r)")
    case None
    then show ?thesis using create by (simp add: registry_create_def slot_step.same)
  next
    case (Some i)
    then have "os_kind (reg_slots r ! i) = None" and "\<not> os_retired (reg_slots r ! i)"
      and "i < length (reg_slots r)"
      using position_SomeD [OF Some] by auto
    then show ?thesis using create Some
      by (auto simp: registry_create_def Let_def nth_list_update
          intro: slot_step.intros)
  qed
next
  case (retain ob)
  then show ?thesis
    by (auto simp: registry_retain_def put_object_slot_def nth_list_update object_slot_Inr_iff
        intro: slot_step.intros split: sum.splits)
next
  case (release ob)
  then show ?thesis
    by (auto simp: registry_release_def Let_def put_object_slot_def nth_list_update
        object_slot_Inr_iff intro: slot_step.intros split: sum.splits)
qed

lemma slot_step_gen:
  assumes "slot_step s t" and "slot_ok s"
  shows "os_generation s < os_generation t \<or>
    os_generation s = os_generation t \<and>
      ((os_kind s \<noteq> None \<or> os_retired s) \<longrightarrow>
        (os_kind t \<noteq> None \<longrightarrow> os_kind t = os_kind s) \<and> (os_kind t \<noteq> None \<or> os_retired t))"
  using assms
proof cases
  case (empty n)
  show ?thesis
  proof (cases "os_generation s = U32_MAX")
    case True
    then show ?thesis using empty by (simp add: vacate_object_slot_def)
  next
    case False
    then have "os_generation s < os_generation s + 1"
      by (simp add: word_less_nat_alt unat_plus_one)
    then show ?thesis using empty False by (simp add: vacate_object_slot_def)
  qed
next
  case (fill k n)
  then show ?thesis by simp
qed (use assms in auto)

interpretation registry_ids: generational reg_step reg_inv reg_live reg_issued
proof unfold_locales
  fix s t :: object_registry and k
  show "reg_step s t \<Longrightarrow> reg_inv s \<Longrightarrow> reg_inv t"
    by (auto elim!: reg_step.cases)
       (metis prod.collapse create_ok(1) create_err_unchanged sum.exhaust_sel
         retain_inv release_inv)+
  show "reg_inv s \<Longrightarrow> reg_live s k \<Longrightarrow> reg_issued s k"
    by (auto simp: reg_live_def reg_issued_def object_slot_Inr_iff Let_def)
next
  fix s t :: object_registry and k
  assume step: "reg_step s t" and inv: "reg_inv s" and iss: "reg_issued s k"
  let ?i = "unat (oid_slot k)"
  have i: "?i < length (reg_slots s)" using iss by (simp add: reg_issued_def)
  then have len: "?i < length (reg_slots t)"
    and st: "slot_step (reg_slots s ! ?i) (reg_slots t ! ?i)"
    using reg_step_slots [OF step] by auto
  note gen = slot_step_gen [OF st reg_inv_nth [OF inv i]]
  show "reg_issued t k"
    using iss gen len by (auto simp: reg_issued_def Let_def)
  assume "\<not> reg_live s k"
  then show "\<not> reg_live t k"
    using iss gen len i by (auto simp: reg_issued_def Let_def reg_live_def object_slot_Inr_iff)
qed

section \<open>Properties\<close>

text \<open>C3. The registry refines a map from object identities to reference counts. On a well-formed
  registry, \<open>create\<close> hands out an identity that had no reference and gives it one, or reports
  a full table when every slot is in use or retired; \<open>retain\<close> adds one reference to a live
  object and fails otherwise or at the maximum count; \<open>release\<close> takes one from a live object
  and fails on every other identity. No other identity's count changes, a failure changes nothing,
  the registry stays well formed, and \<open>validate\<close> accepts exactly the identities with a
  reference.\<close>

theorem registry_refines_reference_counts:
  assumes "reg_inv r"
  shows "(case registry_create r kind of
        (Inr ob, r') \<Rightarrow> reg_inv r' \<and> reg_refs r ob = 0 \<and> oid_kind ob = kind \<and>
          reg_refs r' = (reg_refs r)(ob := 1)
      | (Inl e, r') \<Rightarrow> r' = r \<and> list_all (\<lambda>s. os_kind s \<noteq> None \<or> os_retired s) (reg_slots r)) \<and>
    (case registry_retain r ob of
        (Inr _, r') \<Rightarrow> reg_inv r' \<and> 0 < reg_refs r ob \<and>
          reg_refs r' = (reg_refs r)(ob := reg_refs r ob + 1)
      | (Inl e, r') \<Rightarrow> r' = r \<and> (reg_refs r ob = 0 \<or> reg_refs r ob = 2 ^ 32 - 1)) \<and>
    (case registry_release r ob of
        (Inr _, r') \<Rightarrow> reg_inv r' \<and> 0 < reg_refs r ob \<and>
          reg_refs r' = (reg_refs r)(ob := reg_refs r ob - 1)
      | (Inl e, r') \<Rightarrow> r' = r \<and> reg_refs r ob = 0) \<and>
    (registry_validate r ob (oid_kind ob) = Inr () \<longleftrightarrow> 0 < reg_refs r ob)"
proof (intro conjI)
  show "case registry_create r kind of
        (Inr ob, r') \<Rightarrow> reg_inv r' \<and> reg_refs r ob = 0 \<and> oid_kind ob = kind \<and>
          reg_refs r' = (reg_refs r)(ob := 1)
      | (Inl e, r') \<Rightarrow> r' = r \<and> list_all (\<lambda>s. os_kind s \<noteq> None \<or> os_retired s) (reg_slots r)"
    using create_ok [OF assms] create_err_unchanged create_fails_iff [of r kind]
    by (auto simp: list_all_iff split: prod.split sum.split)
  have "reg_refs r ob < 2 ^ 32"
  proof (cases "object_slot r ob")
    case (Inr s)
    then show ?thesis using unsigned_less [of "os_references s"] by (simp add: reg_refs_def)
  qed (simp add: reg_refs_def)
  then show "case registry_retain r ob of
        (Inr _, r') \<Rightarrow> reg_inv r' \<and> 0 < reg_refs r ob \<and>
          reg_refs r' = (reg_refs r)(ob := reg_refs r ob + 1)
      | (Inl e, r') \<Rightarrow> r' = r \<and> (reg_refs r ob = 0 \<or> reg_refs r ob = 2 ^ 32 - 1)"
    using registry.retain_ok [OF assms, of ob] registry.retain_live [OF assms, of ob]
      retain_err_unchanged [of r ob] retain_cases [OF assms, of ob] reg_refs_pos_iff [OF assms, of ob]
    by (auto split: prod.split sum.split)
  show "case registry_release r ob of
        (Inr _, r') \<Rightarrow> reg_inv r' \<and> 0 < reg_refs r ob \<and>
          reg_refs r' = (reg_refs r)(ob := reg_refs r ob - 1)
      | (Inl e, r') \<Rightarrow> r' = r \<and> reg_refs r ob = 0"
    using release_refs [of r ob] release_inv [OF assms, of ob] release_err_unchanged [of r ob]
      release_ok_iff [OF assms, of ob] reg_refs_pos_iff [OF assms, of ob]
    by (auto split: prod.split sum.split)
  show "registry_validate r ob (oid_kind ob) = Inr () \<longleftrightarrow> 0 < reg_refs r ob"
    by (simp add: validate_iff_live [OF assms] reg_refs_pos_iff [OF assms])
qed

theorem registry_refines_reference_counts_witness:
  "reg_inv (registry_new 2) \<and>
   (case registry_create (registry_new 2) KVmo of
      (Inr ob, r') \<Rightarrow> reg_inv r' \<and> reg_refs r' ob = 1 | (Inl e, r') \<Rightarrow> False)"
proof -
  have inv: "reg_inv (registry_new 2)" by (rule reg_inv_new) simp
  have "\<exists>ob r'. registry_create (registry_new 2) KVmo = (Inr ob, r')"
    by (simp add: registry_create_def registry_new_def OBJECT_SLOT_EMPTY_def numeral_2_eq_2 Let_def)
  with inv show ?thesis
    using registry_refines_reference_counts [OF inv, of KVmo]
    by (auto split: prod.splits sum.splits)
qed

text \<open>C20. Object identities are never reused. Once an identity that was valid has lost its last
  reference, no sequence of registry operations makes \<open>validate\<close> accept it again, although its
  slot is reused for other objects: the generation moves on, and a slot whose generation is spent
  is retired.\<close>

theorem object_id_never_reused:
  assumes "reg_inv r" and "registry_validate r ob (oid_kind ob) = Inr ()"
    and "reg_step\<^sup>*\<^sup>* r s" and "registry_validate s ob (oid_kind ob) \<noteq> Inr ()"
    and "reg_step\<^sup>*\<^sup>* s t"
  shows "registry_validate t ob (oid_kind ob) \<noteq> Inr ()"
proof -
  have live: "reg_live r ob" using assms(1,2) validate_iff_live by blast
  have "reg_inv s" and "reg_inv t"
    using registry_ids.run_issued [OF assms(3,1) registry_ids.live_issued [OF assms(1) live]]
      registry_ids.run_issued [OF assms(5)] by auto
  moreover have "\<not> reg_live s ob" using \<open>reg_inv s\<close> assms(4) validate_iff_live by blast
  ultimately show ?thesis
    using registry_ids.never_revived [OF assms(1) live assms(3) _ assms(5)] validate_iff_live by blast
qed

theorem object_id_never_reused_witness:
  "let ob = \<lparr>oid_slot = 0, oid_generation = 1, oid_kind = KVmo\<rparr>;
       r = snd (registry_create (registry_new 1) KVmo);
       s = snd (registry_release r ob);
       t = snd (registry_create s KVmo)
   in registry_validate r ob KVmo = Inr () \<and> registry_validate t ob KVmo \<noteq> Inr ()"
proof -
  let ?ob = "\<lparr>oid_slot = 0, oid_generation = 1, oid_kind = KVmo\<rparr>"
  let ?r = "snd (registry_create (registry_new 1) KVmo)"
  let ?s = "snd (registry_release ?r ?ob)"
  let ?t = "snd (registry_create ?s KVmo)"
  have r: "?r = \<lparr>reg_slots = [\<lparr>os_generation = 1, os_kind = Some KVmo, os_references = 1,
      os_retired = False\<rparr>]\<rparr>"
    by (simp add: registry_create_def registry_new_def OBJECT_SLOT_EMPTY_def Let_def)
  have s: "?s = \<lparr>reg_slots = [\<lparr>os_generation = 2, os_kind = None, os_references = 0,
      os_retired = False\<rparr>]\<rparr>"
    unfolding r by (simp add: registry_release_def object_slot_def array_get_def Let_def
        vacate_object_slot_def put_object_slot_def)
  have inv: "reg_inv ?r" unfolding r by (simp add: reg_inv_def slot_ok_def)
  have valid: "registry_validate ?r ?ob (oid_kind ?ob) = Inr ()"
    unfolding r by (simp add: registry_validate_def array_get_def)
  have "registry_validate ?t ?ob (oid_kind ?ob) \<noteq> Inr ()"
  proof (rule object_id_never_reused [OF inv valid])
    show "reg_step\<^sup>*\<^sup>* ?r ?s" by (rule r_into_rtranclp) (rule reg_step.release)
    show "registry_validate ?s ?ob (oid_kind ?ob) \<noteq> Inr ()"
      unfolding s by (simp add: registry_validate_def array_get_def)
    show "reg_step\<^sup>*\<^sup>* ?s ?t" by (rule r_into_rtranclp) (rule reg_step.create)
  qed
  with valid show ?thesis by (simp add: Let_def)
qed

end
