(* ===== verification/Handles.thy ===== *)
theory Handles
  imports Objects
begin

text \<open>
  Handles, handle tables and processes (\<open>kernel/src/handles.rs\<close>, second half). A handle is a
  64-bit value: the slot of the table in the low half, the generation of the slot in the high half.
  A table slot holds a capability (object identity and rights). The table operations take the
  object registry where the code does; tokens are the capabilities in transit between two tables.
  The lemmas account for every reference: what an operation changes in the registry's counts is
  exactly what it changes in the capabilities held, a closed or moved handle never resolves again,
  and a transfer never adds a right.
\<close>

section \<open>Handle values\<close>

type_synonym handle = u64

definition HANDLE_SLOT_MASK :: u64 where
  "HANDLE_SLOT_MASK = ucast (U32_MAX :: u32)"

definition handle_new :: "nat \<Rightarrow> u32 \<Rightarrow> handle" where
  "handle_new slot generation = push_bit 32 (ucast generation) OR word_of_nat slot"

definition handle_slot :: "handle \<Rightarrow> u32" where
  "handle_slot h = ucast (h AND HANDLE_SLOT_MASK)"

definition handle_generation :: "handle \<Rightarrow> u32" where
  "handle_generation h = ucast (drop_bit 32 h)"

lemma word_of_nat_ucast:
  assumes "n < 2 ^ 32"
  shows "(word_of_nat n :: u64) = ucast (word_of_nat n :: u32)"
  using assms by (simp add: word_unat_eq_iff unat_of_nat unsigned_ucast_eq take_bit_nat_eq_self)

lemma handle_new_bits:
  assumes "slot < 2 ^ 32"
  shows "handle_slot (handle_new slot g) = word_of_nat slot"
    and "handle_generation (handle_new slot g) = g"
  unfolding handle_slot_def handle_generation_def handle_new_def HANDLE_SLOT_MASK_def
    word_of_nat_ucast [OF assms]
  by (rule bit_eqI, auto simp: bit_simps)+

lemma handle_rebuild: "handle_new (unat (handle_slot h)) (handle_generation h) = h"
proof -
  have "(word_of_nat (unat (handle_slot h)) :: u64) = ucast (handle_slot h)"
    by simp
  then show ?thesis
    unfolding handle_new_def
    by (auto intro!: bit_eqI simp: handle_slot_def handle_generation_def HANDLE_SLOT_MASK_def
        bit_simps)
qed

lemma handle_eqI:
  "handle_slot a = handle_slot b \<Longrightarrow> handle_generation a = handle_generation b \<Longrightarrow> a = b"
  by (metis handle_rebuild)

section \<open>Capabilities and handle tables\<close>

record capability =
  cap_object :: object_id
  cap_rights :: rights

record transfer_token =
  tt_capability :: capability

record table_slot =
  ts_generation :: u32
  ts_capability :: "capability option"

definition HANDLE_SLOT_EMPTY :: table_slot where
  "HANDLE_SLOT_EMPTY = \<lparr>ts_generation = 1, ts_capability = None\<rparr>"

record handle_table =
  ht_slots :: "table_slot list"

definition table_new :: "nat \<Rightarrow> handle_table" where
  "table_new n = \<lparr>ht_slots = replicate n HANDLE_SLOT_EMPTY\<rparr>"

text \<open>\<open>slot\<close> and \<open>slot_mut\<close>; the mutable reference is the lookup and
  \<open>put_table_slot\<close>.\<close>

definition table_slot :: "handle_table \<Rightarrow> handle \<Rightarrow> (handle_error, table_slot) result" where
  "table_slot t h =
     (case array_get (ht_slots t) (unat (handle_slot h)) of
        None \<Rightarrow> Inl HE_Invalid
      | Some s \<Rightarrow>
          if handle_generation h = 0 \<or> ts_generation s \<noteq> handle_generation h
          then Inl HE_Stale else Inr s)"

definition put_table_slot :: "handle_table \<Rightarrow> handle \<Rightarrow> table_slot \<Rightarrow> handle_table" where
  "put_table_slot t h s = t\<lparr>ht_slots := (ht_slots t)[unat (handle_slot h) := s]\<rparr>"

definition table_entry ::
  "handle_table \<Rightarrow> object_registry \<Rightarrow> handle \<Rightarrow> (handle_error, capability) result" where
  "table_entry t r h =
     (case table_slot t h of
        Inl e \<Rightarrow> Inl e
      | Inr s \<Rightarrow>
          (case ts_capability s of
             None \<Rightarrow> Inl HE_Closed
           | Some c \<Rightarrow>
               (case registry_validate r (cap_object c) (oid_kind (cap_object c)) of
                  Inl e \<Rightarrow> Inl e
                | Inr _ \<Rightarrow> Inr c)))"

definition install_capability ::
  "handle_table \<Rightarrow> object_id \<Rightarrow> rights \<Rightarrow> (handle_error, handle) result \<times> handle_table" where
  "install_capability t ob rights =
     (case position (\<lambda>s. ts_capability s = None \<and> ts_generation s \<noteq> U32_MAX) (ht_slots t) of
        None \<Rightarrow>
          (if \<exists>s \<in> set (ht_slots t). ts_capability s = None
           then (Inl HE_GenerationExhausted, t) else (Inl HE_TableFull, t))
      | Some index \<Rightarrow>
          let s = ht_slots t ! index in
          (Inr (handle_new index (ts_generation s)),
           t\<lparr>ht_slots := (ht_slots t)
             [index := s\<lparr>ts_capability := Some \<lparr>cap_object = ob, cap_rights = rights\<rparr>\<rparr>]\<rparr>))"

definition table_insert ::
  "handle_table \<Rightarrow> object_registry \<Rightarrow> object_id \<Rightarrow> rights \<Rightarrow>
     (handle_error, handle) result \<times> handle_table \<times> object_registry" where
  "table_insert t r ob rights =
     (case registry_retain r ob of
        (Inl e, r1) \<Rightarrow> (Inl e, t, r1)
      | (Inr _, r1) \<Rightarrow>
          (case install_capability t ob rights of
             (Inr h, t1) \<Rightarrow> (Inr h, t1, r1)
           | (Inl e, t1) \<Rightarrow> (Inl e, t1, snd (registry_release r1 ob))))"

definition table_resolve ::
  "handle_table \<Rightarrow> object_registry \<Rightarrow> handle \<Rightarrow> (handle_error, object_id) result" where
  "table_resolve t r h =
     (case table_entry t r h of Inl e \<Rightarrow> Inl e | Inr c \<Rightarrow> Inr (cap_object c))"

definition table_rights ::
  "handle_table \<Rightarrow> object_registry \<Rightarrow> handle \<Rightarrow> (handle_error, rights) result" where
  "table_rights t r h =
     (case table_entry t r h of Inl e \<Rightarrow> Inl e | Inr c \<Rightarrow> Inr (cap_rights c))"

text \<open>\<open>visit_objects\<close> calls the visitor on the objects of this list, in order.\<close>

definition visit_objects :: "handle_table \<Rightarrow> object_id list" where
  "visit_objects t = List.map_filter (\<lambda>s. map_option cap_object (ts_capability s)) (ht_slots t)"

definition table_require ::
  "handle_table \<Rightarrow> object_registry \<Rightarrow> handle \<Rightarrow> object_kind \<Rightarrow> rights \<Rightarrow>
     (handle_error, object_id) result" where
  "table_require t r h expected required =
     (case table_entry t r h of
        Inl e \<Rightarrow> Inl e
      | Inr c \<Rightarrow>
          if oid_kind (cap_object c) \<noteq> expected then Inl HE_WrongType
          else if \<not> rights_contains (cap_rights c) required then Inl HE_RightsMissing
          else Inr (cap_object c))"

definition table_close ::
  "handle_table \<Rightarrow> object_registry \<Rightarrow> handle \<Rightarrow>
     (handle_error, unit) result \<times> handle_table \<times> object_registry" where
  "table_close t r h =
     (case table_slot t h of
        Inl e \<Rightarrow> (Inl e, t, r)
      | Inr s \<Rightarrow>
          (case ts_capability s of
             None \<Rightarrow> (Inl HE_Closed, t, r)
           | Some c \<Rightarrow>
               if ts_generation s = U32_MAX then (Inl HE_GenerationExhausted, t, r)
               else
                 (case registry_release r (cap_object c) of
                    (Inl e, r1) \<Rightarrow> (Inl e, t, r1)
                  | (Inr _, r1) \<Rightarrow>
                      (Inr (),
                       put_table_slot t h
                         (s\<lparr>ts_capability := None, ts_generation := ts_generation s + 1\<rparr>),
                       r1))))"

text \<open>The loop of \<open>close_all\<close>, over the slots in order.\<close>

fun close_all_slots ::
  "table_slot list \<Rightarrow> object_registry \<Rightarrow> table_slot list \<times> object_registry" where
  "close_all_slots [] r = ([], r)"
| "close_all_slots (s # ss) r =
     (case ts_capability s of
        None \<Rightarrow> (let (ss', r') = close_all_slots ss r in (s # ss', r'))
      | Some c \<Rightarrow>
          let r1 = snd (registry_release r (cap_object c));
              s' = s\<lparr>ts_capability := None, ts_generation := saturating_add (ts_generation s) 1\<rparr>;
              (ss', r') = close_all_slots ss r1
          in (s' # ss', r'))"

definition table_close_all ::
  "handle_table \<Rightarrow> object_registry \<Rightarrow> handle_table \<times> object_registry" where
  "table_close_all t r =
     (let (ss, r') = close_all_slots (ht_slots t) r in (t\<lparr>ht_slots := ss\<rparr>, r'))"

definition check_move ::
  "handle_table \<Rightarrow> object_registry \<Rightarrow> handle \<Rightarrow> rights \<Rightarrow> (handle_error, unit) result" where
  "check_move t r h requested =
     (case table_entry t r h of
        Inl e \<Rightarrow> Inl e
      | Inr c \<Rightarrow>
          if \<not> rights_contains (cap_rights c) RIGHT_TRANSFER
             \<or> \<not> rights_is_subset_of requested (cap_rights c)
          then Inl HE_RightsMissing
          else
            (case table_slot t h of
               Inl e \<Rightarrow> Inl e
             | Inr s \<Rightarrow>
                 if ts_generation s = U32_MAX then Inl HE_GenerationExhausted else Inr ()))"

definition begin_move ::
  "handle_table \<Rightarrow> object_registry \<Rightarrow> handle \<Rightarrow> rights \<Rightarrow>
     (handle_error, transfer_token) result \<times> handle_table" where
  "begin_move t r h requested =
     (case check_move t r h requested of
        Inl e \<Rightarrow> (Inl e, t)
      | Inr _ \<Rightarrow>
          (case table_slot t h of
             Inl e \<Rightarrow> (Inl e, t)
           | Inr s \<Rightarrow>
               (case ts_capability s of
                  None \<Rightarrow> (Inl HE_Closed, t)
                | Some c \<Rightarrow>
                    if ts_generation s = U32_MAX then (Inl HE_GenerationExhausted, t)
                    else
                      (Inr \<lparr>tt_capability =
                              \<lparr>cap_object = cap_object c, cap_rights = requested\<rparr>\<rparr>,
                       put_table_slot t h
                         (s\<lparr>ts_capability := None, ts_generation := ts_generation s + 1\<rparr>)))))"

definition install_token ::
  "handle_table \<Rightarrow> object_registry \<Rightarrow> transfer_token option \<Rightarrow>
     (handle_error, handle) result \<times> handle_table \<times> transfer_token option" where
  "install_token t r token =
     (case token of
        None \<Rightarrow> (Inl HE_Stale, t, token)
      | Some tok \<Rightarrow>
          let c = tt_capability tok in
          (case registry_validate r (cap_object c) (oid_kind (cap_object c)) of
             Inl e \<Rightarrow> (Inl e, t, token)
           | Inr _ \<Rightarrow>
               (case install_capability t (cap_object c) (cap_rights c) of
                  (Inl e, t1) \<Rightarrow> (Inl e, t1, token)
                | (Inr h, t1) \<Rightarrow> (Inr h, t1, None))))"

definition rollback_install ::
  "handle_table \<Rightarrow> handle \<Rightarrow> transfer_token option \<times> handle_table" where
  "rollback_install t h =
     (case table_slot t h of
        Inl _ \<Rightarrow> (None, t)
      | Inr s \<Rightarrow>
          (case ts_capability s of
             None \<Rightarrow> (None, t)
           | Some c \<Rightarrow>
               if ts_generation s = U32_MAX then (None, t)
               else
                 (Some \<lparr>tt_capability = c\<rparr>,
                  put_table_slot t h
                    (s\<lparr>ts_capability := None, ts_generation := ts_generation s + 1\<rparr>))))"

definition has_capacity :: "handle_table \<Rightarrow> nat \<Rightarrow> bool" where
  "has_capacity t additional \<longleftrightarrow>
     additional \<le> length (filter (\<lambda>s. ts_capability s = None \<and> ts_generation s \<noteq> U32_MAX)
       (ht_slots t))"

datatype process_state = PS_Running | PS_Exited

record process =
  proc_id :: u32
  proc_address_space :: object_id
  proc_handles :: handle_table
  proc_state :: process_state

definition process_new :: "nat \<Rightarrow> u32 \<Rightarrow> object_id \<Rightarrow> process" where
  "process_new n pid address_space =
     \<lparr>proc_id = pid, proc_address_space = address_space, proc_handles = table_new n,
      proc_state = PS_Running\<rparr>"

section \<open>Well-formed tables\<close>

text \<open>No generation is 0 and a slot that has spent its last generation is empty; so a live
  capability can always be closed or moved.\<close>

definition table_slot_ok :: "table_slot \<Rightarrow> bool" where
  "table_slot_ok s \<longleftrightarrow> ts_generation s \<noteq> 0 \<and> (ts_capability s \<noteq> None \<longrightarrow> ts_generation s \<noteq> U32_MAX)"

definition table_inv :: "handle_table \<Rightarrow> bool" where
  "table_inv t \<longleftrightarrow> list_all table_slot_ok (ht_slots t) \<and> length (ht_slots t) \<le> 2 ^ 32"

text \<open>The number of capabilities for an object in a table.\<close>

definition held :: "handle_table \<Rightarrow> object_id \<Rightarrow> nat" where
  "held t ob = count_list (visit_objects t) ob"

text \<open>The capability a handle value names, whatever the registry says of its object.\<close>

definition table_cap :: "handle_table \<Rightarrow> handle \<Rightarrow> capability option" where
  "table_cap t h = (case table_slot t h of Inl _ \<Rightarrow> None | Inr s \<Rightarrow> ts_capability s)"

definition clear_slot :: "table_slot \<Rightarrow> table_slot" where
  "clear_slot s = s\<lparr>ts_capability := None, ts_generation := ts_generation s + 1\<rparr>"

definition clear_handle :: "handle_table \<Rightarrow> handle \<Rightarrow> handle_table" where
  "clear_handle t h = put_table_slot t h (clear_slot (ht_slots t ! unat (handle_slot h)))"

lemma table_inv_nth: "table_inv t \<Longrightarrow> i < length (ht_slots t) \<Longrightarrow> table_slot_ok (ht_slots t ! i)"
  by (simp add: table_inv_def list_all_length)

lemma table_inv_update:
  "table_inv t \<Longrightarrow> table_slot_ok s \<Longrightarrow> table_inv (t\<lparr>ht_slots := (ht_slots t)[i := s]\<rparr>)"
  unfolding table_inv_def list_all_iff by (auto dest!: set_update_subset_insert [THEN subsetD])

lemma table_inv_new: "n \<le> 2 ^ 32 \<Longrightarrow> table_inv (table_new n)"
  by (simp add: table_inv_def table_new_def table_slot_ok_def HANDLE_SLOT_EMPTY_def
      list_all_length)

lemma table_slot_Inr_iff:
  "table_slot t h = Inr s \<longleftrightarrow> unat (handle_slot h) < length (ht_slots t) \<and>
     ht_slots t ! unat (handle_slot h) = s \<and> handle_generation h \<noteq> 0 \<and>
     ts_generation s = handle_generation h"
  by (auto simp: table_slot_def array_get_def)

lemma table_cap_Some_iff:
  "table_cap t h = Some c \<longleftrightarrow> (\<exists>s. table_slot t h = Inr s \<and> ts_capability s = Some c)"
  by (auto simp: table_cap_def split: sum.splits)

lemma table_entry_iff:
  assumes "reg_inv r"
  shows "table_entry t r h = Inr c \<longleftrightarrow> table_cap t h = Some c \<and> reg_live r (cap_object c)"
  by (auto simp: table_entry_def table_cap_def validate_iff_live [OF assms, symmetric]
      split: sum.splits option.splits)

section \<open>The operations on the capabilities held\<close>

lemma gen_succ_nonzero: "(g :: u32) \<noteq> U32_MAX \<Longrightarrow> g + 1 \<noteq> 0"
  by (metis add_is_0 one_neq_zero unat_0 unat_plus_one)

lemma clear_handle_ok:
  assumes "table_inv t" and "table_cap t h = Some c"
  shows "table_inv (clear_handle t h)"
    and "table_cap (clear_handle t h) = (table_cap t)(h := None)"
    and "held t = (held (clear_handle t h))(cap_object c := held (clear_handle t h) (cap_object c) + 1)"
    and "table_slot t h = Inr (ht_slots t ! unat (handle_slot h))"
    and "ts_capability (ht_slots t ! unat (handle_slot h)) = Some c"
    and "ts_generation (ht_slots t ! unat (handle_slot h)) \<noteq> U32_MAX"
proof -
  let ?i = "unat (handle_slot h)"
  let ?s = "ht_slots t ! ?i"
  have s: "table_slot t h = Inr ?s" and c: "ts_capability ?s = Some c"
    and i: "?i < length (ht_slots t)"
    and gen: "ts_generation ?s = handle_generation h"
    using assms(2) by (auto simp: table_cap_Some_iff table_slot_Inr_iff)
  have ok: "table_slot_ok ?s" using table_inv_nth [OF assms(1) i] .
  then have nm: "ts_generation ?s \<noteq> U32_MAX" using c by (simp add: table_slot_ok_def)
  show "table_slot t h = Inr ?s" "ts_capability ?s = Some c" "ts_generation ?s \<noteq> U32_MAX"
    by (fact s, fact c, fact nm)
  have "table_slot_ok (clear_slot ?s)"
    using gen_succ_nonzero [OF nm] by (simp add: table_slot_ok_def clear_slot_def)
  then show "table_inv (clear_handle t h)"
    using assms(1) by (simp add: clear_handle_def put_table_slot_def table_inv_update)
  show "table_cap (clear_handle t h) = (table_cap t)(h := None)"
  proof
    fix h'
    show "table_cap (clear_handle t h) h' = ((table_cap t)(h := None)) h'"
    proof (cases "handle_slot h' = handle_slot h")
      case True
      have "table_cap (clear_handle t h) h' = None"
        using True i by (auto simp: table_cap_def table_slot_def array_get_def clear_handle_def
            put_table_slot_def clear_slot_def)
      moreover have "table_cap t h' = None" if "h' \<noteq> h"
      proof -
        have "handle_generation h' \<noteq> handle_generation h" using that True handle_eqI by blast
        then show ?thesis using True gen i
          by (auto simp: table_cap_def table_slot_def array_get_def)
      qed
      ultimately show ?thesis by simp
    next
      case False
      then have "unat (handle_slot h') \<noteq> ?i" by (simp add: word_unat_eq_iff)
      then show ?thesis using False
        by (auto simp: table_cap_def table_slot_def array_get_def clear_handle_def
            put_table_slot_def)
    qed
  qed
  show "held t = (held (clear_handle t h))
      (cap_object c := held (clear_handle t h) (cap_object c) + 1)"
  proof
    fix ob
    show "held t ob = ((held (clear_handle t h))
        (cap_object c := held (clear_handle t h) (cap_object c) + 1)) ob"
      using count_map_filter_update [OF i, of "\<lambda>s. map_option cap_object (ts_capability s)"
          "clear_slot ?s" ob] c
      by (auto simp: held_def visit_objects_def clear_handle_def put_table_slot_def
          clear_slot_def)
  qed
qed

lemma install_ok:
  assumes "table_inv t" and "install_capability t ob rights = (Inr h, t')"
  shows "table_inv t'" and "table_cap t h = None"
    and "table_cap t' = (table_cap t)(h \<mapsto> \<lparr>cap_object = ob, cap_rights = rights\<rparr>)"
    and "held t' = (held t)(ob := held t ob + 1)"
proof -
  obtain i where pos: "position (\<lambda>s. ts_capability s = None \<and> ts_generation s \<noteq> U32_MAX)
      (ht_slots t) = Some i"
    and h: "h = handle_new i (ts_generation (ht_slots t ! i))"
    and t': "t' = t\<lparr>ht_slots := (ht_slots t)[i := (ht_slots t ! i)
        \<lparr>ts_capability := Some \<lparr>cap_object = ob, cap_rights = rights\<rparr>\<rparr>]\<rparr>"
    using assms(2) by (auto simp: install_capability_def Let_def split: option.splits if_splits)
  have i: "i < length (ht_slots t)" and free: "ts_capability (ht_slots t ! i) = None"
    and nm: "ts_generation (ht_slots t ! i) \<noteq> U32_MAX"
    using position_SomeD [OF pos] by auto
  have ok: "table_slot_ok (ht_slots t ! i)" using table_inv_nth [OF assms(1) i] .
  have "i < 2 ^ 32" using i assms(1) by (simp add: table_inv_def)
  then have hs: "unat (handle_slot h) = i" and hg: "handle_generation h = ts_generation (ht_slots t ! i)"
    using h handle_new_bits [of i] by (simp_all add: unat_word_of_nat)
  show "table_inv t'"
    using assms(1) ok nm t' by (simp add: table_inv_update table_slot_ok_def)
  show "table_cap t h = None"
    using hs free i by (simp add: table_cap_def table_slot_def array_get_def)
  show "table_cap t' = (table_cap t)(h \<mapsto> \<lparr>cap_object = ob, cap_rights = rights\<rparr>)"
  proof
    fix h'
    show "table_cap t' h' = ((table_cap t)(h \<mapsto> \<lparr>cap_object = ob, cap_rights = rights\<rparr>)) h'"
    proof (cases "unat (handle_slot h') = i")
      case True
      then have same: "handle_slot h' = handle_slot h" using hs by (simp add: word_unat_eq_iff)
      show ?thesis
      proof (cases "h' = h")
        case True
        have "handle_generation h \<noteq> 0" using ok hg by (simp add: table_slot_ok_def)
        then show ?thesis using True hs hg i t'
          by (simp add: table_cap_def table_slot_def array_get_def)
      next
        case False
        then have "handle_generation h' \<noteq> handle_generation h" using same handle_eqI by blast
        then show ?thesis using False True hg i t' free
          by (simp add: table_cap_def table_slot_def array_get_def)
      qed
    next
      case False
      then have "h' \<noteq> h" using hs by auto
      then show ?thesis using False t'
        by (simp add: table_cap_def table_slot_def array_get_def)
    qed
  qed
  show "held t' = (held t)(ob := held t ob + 1)"
  proof
    fix ob'
    show "held t' ob' = ((held t)(ob := held t ob + 1)) ob'"
      using count_map_filter_update [OF i, of "\<lambda>s. map_option cap_object (ts_capability s)"
          "(ht_slots t ! i)\<lparr>ts_capability := Some \<lparr>cap_object = ob, cap_rights = rights\<rparr>\<rparr>" ob']
        t' free
      by (auto simp: held_def visit_objects_def)
  qed
qed

lemma install_err_unchanged: "install_capability t ob rights = (Inl e, t') \<Longrightarrow> t' = t"
  by (auto simp: install_capability_def Let_def split: option.splits if_splits)

lemma install_capacity:
  assumes "has_capacity t (Suc n)"
  shows "\<exists>h t'. install_capability t ob rights = (Inr h, t') \<and> has_capacity t' n"
proof -
  let ?P = "\<lambda>s. ts_capability s = None \<and> ts_generation s \<noteq> U32_MAX"
  have "filter ?P (ht_slots t) \<noteq> []" using assms by (auto simp: has_capacity_def)
  then obtain i where i: "position ?P (ht_slots t) = Some i"
    by (cases "position ?P (ht_slots t)") (auto simp: array_simps filter_empty_conv)
  let ?s = "(ht_slots t ! i)\<lparr>ts_capability := Some \<lparr>cap_object = ob, cap_rights = rights\<rparr>\<rparr>"
  have "length (filter ?P ((ht_slots t)[i := ?s])) + 1 = length (filter ?P (ht_slots t))"
    using length_filter_update [of i "ht_slots t" ?P ?s] position_SomeD [OF i] by simp
  then show ?thesis using i assms by (simp add: install_capability_def Let_def has_capacity_def)
qed

lemma insert_ok:
  assumes "reg_inv r" and "table_inv t" and "table_insert t r ob rights = (Inr h, t', r')"
  shows "reg_inv r'" and "table_inv t'"
    and "reg_refs r' = (reg_refs r)(ob := reg_refs r ob + 1)"
    and "held t' = (held t)(ob := held t ob + 1)"
    and "table_cap t h = None"
    and "table_cap t' = (table_cap t)(h \<mapsto> \<lparr>cap_object = ob, cap_rights = rights\<rparr>)"
    and "reg_live r ob"
proof -
  obtain ret: "registry_retain r ob = (Inr (), r')"
    and inst: "install_capability t ob rights = (Inr h, t')"
    using assms(3) by (auto simp: table_insert_def split: prod.splits sum.splits)
  show "reg_inv r'" "reg_refs r' = (reg_refs r)(ob := reg_refs r ob + 1)"
    using registry.retain_ok [OF assms(1) ret] by auto
  show "reg_live r ob"
    using registry.retain_live [OF assms(1) ret] reg_refs_pos_iff [OF assms(1)] by simp
  show "table_inv t'" "held t' = (held t)(ob := held t ob + 1)" "table_cap t h = None"
    "table_cap t' = (table_cap t)(h \<mapsto> \<lparr>cap_object = ob, cap_rights = rights\<rparr>)"
    using install_ok [OF assms(2) inst] by auto
qed

lemma insert_err_unchanged:
  assumes "reg_inv r" and "table_insert t r ob rights = (Inl e, t', r')"
  shows "t' = t \<and> r' = r"
proof (cases "registry_retain r ob")
  case (Pair x r1)
  show ?thesis
  proof (cases x)
    case (Inl e')
    then show ?thesis using assms(2) Pair retain_err_unchanged [of r ob]
      by (auto simp: table_insert_def)
  next
    case (Inr u)
    then have rr: "registry_release r1 ob = (Inr (), r)"
      using retain_then_release [OF assms(1)] Pair by simp
    then show ?thesis using assms(2) Pair Inr
      by (auto simp: table_insert_def split: prod.splits sum.splits dest: install_err_unchanged)
  qed
qed

lemma close_ok:
  assumes "reg_inv r" and "table_inv t" and "table_close t r h = (Inr (), t', r')"
  obtains c where "table_cap t h = Some c" and "reg_live r (cap_object c)"
    and "t' = clear_handle t h" and "reg_inv r'"
    and "reg_refs r = (reg_refs r')(cap_object c := reg_refs r' (cap_object c) + 1)"
proof -
  obtain s c where s: "table_slot t h = Inr s" and c: "ts_capability s = Some c"
    and rel: "registry_release r (cap_object c) = (Inr (), r')"
    and t': "t' = put_table_slot t h (clear_slot s)"
    using assms(3)
    by (auto simp: table_close_def clear_slot_def split: sum.splits option.splits prod.splits if_splits)
  have cap: "table_cap t h = Some c" using s c by (simp add: table_cap_def)
  have "t' = clear_handle t h" using s t' by (auto simp: clear_handle_def table_slot_Inr_iff)
  moreover have "reg_live r (cap_object c)" using release_ok_iff [OF assms(1), of "cap_object c"] rel by simp
  moreover have "reg_refs r = (reg_refs r')(cap_object c := reg_refs r' (cap_object c) + 1)"
    using registry.release_ok [OF assms(1) rel] reg_refs_pos_iff [OF assms(1)] calculation(2)
    by (auto simp: fun_eq_iff)
  ultimately show ?thesis
    using that cap registry.release_ok [OF assms(1) rel] by blast
qed

lemma close_live:
  assumes "reg_inv r" and "table_inv t" and "table_cap t h = Some c" and "reg_live r (cap_object c)"
  shows "\<exists>r'. table_close t r h = (Inr (), clear_handle t h, r')"
proof -
  have "0 < reg_refs r (cap_object c)" using assms(4) reg_refs_pos_iff [OF assms(1)] by simp
  then obtain r' where "registry_release r (cap_object c) = (Inr (), r')"
    using registry.release_live [OF assms(1)] by blast
  then show ?thesis
    using clear_handle_ok(4-6) [OF assms(2,3)]
    by (simp add: table_close_def clear_handle_def clear_slot_def)
qed

lemma close_err_unchanged: "table_close t r h = (Inl e, t', r') \<Longrightarrow> t' = t \<and> r' = r"
  by (auto simp: table_close_def dest: release_err_unchanged
      split: sum.splits option.splits prod.splits if_splits)

lemma check_move_iff:
  assumes "reg_inv r" and "table_inv t"
  shows "check_move t r h requested = Inr () \<longleftrightarrow>
    (\<exists>c. table_cap t h = Some c \<and> reg_live r (cap_object c) \<and>
       rights_contains (cap_rights c) RIGHT_TRANSFER \<and>
       rights_is_subset_of requested (cap_rights c))"
proof
  assume "check_move t r h requested = Inr ()"
  then show "\<exists>c. table_cap t h = Some c \<and> reg_live r (cap_object c) \<and>
       rights_contains (cap_rights c) RIGHT_TRANSFER \<and>
       rights_is_subset_of requested (cap_rights c)"
    using table_entry_iff [OF assms(1)]
    by (auto simp: check_move_def split: sum.splits if_splits)
next
  assume "\<exists>c. table_cap t h = Some c \<and> reg_live r (cap_object c) \<and>
       rights_contains (cap_rights c) RIGHT_TRANSFER \<and>
       rights_is_subset_of requested (cap_rights c)"
  then obtain c where c: "table_cap t h = Some c" "reg_live r (cap_object c)"
    "rights_contains (cap_rights c) RIGHT_TRANSFER"
    "rights_is_subset_of requested (cap_rights c)" by blast
  then have "table_entry t r h = Inr c" using table_entry_iff [OF assms(1)] by simp
  then show "check_move t r h requested = Inr ()"
    using c clear_handle_ok(4,6) [OF assms(2) c(1)] by (simp add: check_move_def)
qed

lemma begin_move_eq:
  assumes "reg_inv r" and "table_inv t" and "check_move t r h requested = Inr ()"
    and "table_cap t h = Some c"
  shows "begin_move t r h requested =
    (Inr \<lparr>tt_capability = \<lparr>cap_object = cap_object c, cap_rights = requested\<rparr>\<rparr>,
     clear_handle t h)"
  using assms(3) clear_handle_ok(4-6) [OF assms(2,4)]
  by (simp add: begin_move_def clear_handle_def clear_slot_def)

lemma begin_move_ok:
  assumes "reg_inv r" and "table_inv t" and "begin_move t r h requested = (Inr tok, t')"
  obtains c where "table_cap t h = Some c" and "reg_live r (cap_object c)"
    and "rights_contains (cap_rights c) RIGHT_TRANSFER"
    and "rights_is_subset_of requested (cap_rights c)"
    and "tok = \<lparr>tt_capability = \<lparr>cap_object = cap_object c, cap_rights = requested\<rparr>\<rparr>"
    and "t' = clear_handle t h"
proof -
  have ck: "check_move t r h requested = Inr ()"
    using assms(3) by (auto simp: begin_move_def split: sum.splits)
  then obtain c where "table_cap t h = Some c" "reg_live r (cap_object c)"
    "rights_contains (cap_rights c) RIGHT_TRANSFER"
    "rights_is_subset_of requested (cap_rights c)"
    using check_move_iff [OF assms(1,2)] by blast
  with begin_move_eq [OF assms(1,2) ck] assms(3) show ?thesis using that by simp
qed

lemma begin_move_err_unchanged: "begin_move t r h requested = (Inl e, t') \<Longrightarrow> t' = t"
  by (auto simp: begin_move_def split: sum.splits option.splits if_splits)

lemma install_token_ok:
  assumes "reg_inv r" and "table_inv t" and "install_token t r token = (Inr h, t', token')"
  obtains tok where "token = Some tok" and "token' = None"
    and "reg_live r (cap_object (tt_capability tok))"
    and "install_capability t (cap_object (tt_capability tok)) (cap_rights (tt_capability tok))
           = (Inr h, t')"
  using assms(3) validate_iff_live [OF assms(1)]
  by (auto simp: install_token_def Let_def split: option.splits sum.splits prod.splits)

lemma install_token_err_unchanged:
  "install_token t r token = (Inl e, t', token') \<Longrightarrow> t' = t \<and> token' = token"
  by (auto simp: install_token_def Let_def dest: install_err_unchanged
      split: option.splits sum.splits prod.splits)

lemma close_all_slots_eq:
  "close_all_slots ss r =
    (map (\<lambda>s. if ts_capability s = None then s
          else s\<lparr>ts_capability := None, ts_generation := saturating_add (ts_generation s) 1\<rparr>) ss,
     fold (\<lambda>ob r. snd (registry_release r ob))
       (List.map_filter (\<lambda>s. map_option cap_object (ts_capability s)) ss) r)"
  by (induction ss r rule: close_all_slots.induct)
     (auto simp: List.map_filter_simps Let_def split: option.splits prod.splits)

lemma close_all_eq:
  "snd (table_close_all t r) = fold (\<lambda>ob r. snd (registry_release r ob)) (visit_objects t) r"
  by (simp add: table_close_all_def close_all_slots_eq visit_objects_def)

lemma visit_objects_close_all: "visit_objects (fst (table_close_all t r)) = []"
proof -
  have "List.map_filter (\<lambda>s. map_option cap_object (ts_capability s))
    (map (\<lambda>s. if ts_capability s = None then s
          else s\<lparr>ts_capability := None, ts_generation := g s\<rparr>) ss) = []" for ss g
    by (induction ss) (auto simp: List.map_filter_simps split: option.splits)
  then show ?thesis by (simp add: table_close_all_def close_all_slots_eq visit_objects_def)
qed

lemma visit_objects_table_new: "visit_objects (table_new n) = []"
  by (induction n)
     (auto simp: visit_objects_def table_new_def HANDLE_SLOT_EMPTY_def List.map_filter_simps)

lemma visit_objects_iff:
  assumes "table_inv t"
  shows "ob \<in> set (visit_objects t) \<longleftrightarrow> (\<exists>h c. table_cap t h = Some c \<and> cap_object c = ob)"
proof
  assume "ob \<in> set (visit_objects t)"
  then obtain s c where s: "s \<in> set (ht_slots t)" and c: "ts_capability s = Some c" "cap_object c = ob"
    by (auto simp: visit_objects_def set_map_filter)
  then obtain i where i: "i < length (ht_slots t)" "ht_slots t ! i = s"
    by (auto simp: in_set_conv_nth)
  then have "i < 2 ^ 32" using assms by (simp add: table_inv_def)
  let ?h = "handle_new i (ts_generation s)"
  have "unat (handle_slot ?h) = i" "handle_generation ?h = ts_generation s"
    using handle_new_bits [OF \<open>i < 2 ^ 32\<close>] \<open>i < 2 ^ 32\<close> by (simp_all add: unat_word_of_nat)
  moreover have "ts_generation s \<noteq> 0"
    using table_inv_nth [OF assms i(1)] i(2) by (simp add: table_slot_ok_def)
  ultimately have "table_cap t ?h = Some c"
    using i c by (simp add: table_cap_def table_slot_def array_get_def)
  then show "\<exists>h c. table_cap t h = Some c \<and> cap_object c = ob" using c by blast
next
  assume "\<exists>h c. table_cap t h = Some c \<and> cap_object c = ob"
  then show "ob \<in> set (visit_objects t)"
    by (force simp: table_cap_Some_iff table_slot_Inr_iff visit_objects_def set_map_filter)
qed

section \<open>Handle values are never reused\<close>

inductive table_step :: "handle_table \<Rightarrow> handle_table \<Rightarrow> bool" where
  insert: "table_step t (fst (snd (table_insert t r ob rights)))"
| close: "table_step t (fst (snd (table_close t r h)))"
| close_all: "table_step t (fst (table_close_all t r))"
| move: "table_step t (snd (begin_move t r h rights))"
| token: "table_step t (fst (snd (install_token t r token)))"
| rollback: "table_step t (snd (rollback_install t h))"

definition table_live :: "handle_table \<Rightarrow> handle \<Rightarrow> bool" where
  "table_live t h \<longleftrightarrow> table_cap t h \<noteq> None"

definition table_issued :: "handle_table \<Rightarrow> handle \<Rightarrow> bool" where
  "table_issued t h \<longleftrightarrow> unat (handle_slot h) < length (ht_slots t) \<and>
     (let s = ht_slots t ! unat (handle_slot h) in
        handle_generation h < ts_generation s \<or>
        handle_generation h = ts_generation s \<and> ts_capability s \<noteq> None)"

inductive table_slot_step :: "table_slot \<Rightarrow> table_slot \<Rightarrow> bool" where
  same: "table_slot_step s s"
| fill: "ts_capability s = None \<Longrightarrow> ts_generation s \<noteq> U32_MAX \<Longrightarrow>
     table_slot_step s (s\<lparr>ts_capability := Some c\<rparr>)"
| clear: "ts_capability s \<noteq> None \<Longrightarrow> ts_generation s \<noteq> U32_MAX \<Longrightarrow>
     table_slot_step s (s\<lparr>ts_capability := None, ts_generation := ts_generation s + 1\<rparr>)"

definition slotwise :: "handle_table \<Rightarrow> handle_table \<Rightarrow> bool" where
  "slotwise t t' \<longleftrightarrow> length (ht_slots t') = length (ht_slots t) \<and>
     (\<forall>i < length (ht_slots t). table_slot_step (ht_slots t ! i) (ht_slots t' ! i))"

lemma slotwise_refl: "slotwise t t"
  by (simp add: slotwise_def table_slot_step.same)

lemma slotwise_update:
  "table_slot_step (ht_slots t ! i) s \<Longrightarrow> slotwise t (t\<lparr>ht_slots := (ht_slots t)[i := s]\<rparr>)"
  by (cases "i < length (ht_slots t)")
     (auto simp: slotwise_def nth_list_update list_update_beyond table_slot_step.same)

lemma slotwise_install: "slotwise t (snd (install_capability t ob rights))"
proof (cases "position (\<lambda>s. ts_capability s = None \<and> ts_generation s \<noteq> U32_MAX) (ht_slots t)")
  case None
  then show ?thesis by (simp add: install_capability_def slotwise_refl)
next
  case (Some i)
  then show ?thesis
    using position_SomeD(2) [OF Some]
    by (simp add: install_capability_def Let_def slotwise_update table_slot_step.fill)
qed

lemma slotwise_clear:
  assumes "table_slot t h = Inr s" and "ts_capability s \<noteq> None" and "ts_generation s \<noteq> U32_MAX"
  shows "slotwise t (put_table_slot t h
    (s\<lparr>ts_capability := None, ts_generation := ts_generation s + 1\<rparr>))"
proof -
  have "ht_slots t ! unat (handle_slot h) = s" using assms(1) by (simp add: table_slot_Inr_iff)
  then show ?thesis
    unfolding put_table_slot_def using assms(2,3)
    by (intro slotwise_update) (simp add: table_slot_step.clear)
qed

lemma slotwise_close_all:
  assumes "table_inv t"
  shows "slotwise t (fst (table_close_all t r))"
proof -
  have "saturating_add (g :: u32) 1 = g + 1" if "g \<noteq> U32_MAX" for g
  proof -
    have "checked_add g 1 = Some (g + 1)"
      using unat_plus_one [OF that] by (simp add: checked_simps)
    then show ?thesis by (simp add: saturating_add_def)
  qed
  then show ?thesis
    using table_inv_nth [OF assms]
    by (auto simp: slotwise_def table_close_all_def close_all_slots_eq table_slot_ok_def
        intro: table_slot_step.intros)
qed


lemma install_token_table:
  "fst (snd (install_token t r token)) = t \<or>
   (\<exists>ob rights. fst (snd (install_token t r token)) = snd (install_capability t ob rights))"
proof (cases token)
  case None
  then show ?thesis by (simp add: install_token_def)
next
  case (Some tok)
  let ?c = "tt_capability tok"
  show ?thesis
  proof (cases "registry_validate r (cap_object ?c) (oid_kind (cap_object ?c))")
    case (Inl e)
    then show ?thesis using Some by (simp add: install_token_def Let_def)
  next
    case (Inr u)
    then have "fst (snd (install_token t r token)) =
      snd (install_capability t (cap_object ?c) (cap_rights ?c))"
      using Some by (simp add: install_token_def Let_def split: prod.split sum.split)
    then show ?thesis by blast
  qed
qed

lemma slotwise_insert: "slotwise t (fst (snd (table_insert t r ob rights)))"
proof -
  have "fst (snd (table_insert t r ob rights)) = t \<or>
    fst (snd (table_insert t r ob rights)) = snd (install_capability t ob rights)"
    by (simp add: table_insert_def split: prod.split sum.split)
  then show ?thesis using slotwise_install slotwise_refl by metis
qed

lemma slotwise_close: "slotwise t (fst (snd (table_close t r h)))"
  unfolding table_close_def
  by (auto intro: slotwise_refl slotwise_clear split: sum.split option.split prod.split)

lemma slotwise_move: "slotwise t (snd (begin_move t r h rights))"
  unfolding begin_move_def
  by (auto intro: slotwise_refl slotwise_clear split: sum.split option.split prod.split)

lemma slotwise_rollback: "slotwise t (snd (rollback_install t h))"
  unfolding rollback_install_def
  by (auto intro: slotwise_refl slotwise_clear split: sum.split option.split prod.split)

lemma table_step_slotwise:
  assumes "table_step t t'" and "table_inv t"
  shows "slotwise t t'"
  using assms(1)
proof cases
  case (token r token)
  then show ?thesis using install_token_table [of t r token] slotwise_install slotwise_refl by metis
qed (simp_all add: slotwise_insert slotwise_close slotwise_move slotwise_rollback
    slotwise_close_all [OF assms(2)])

lemma table_slot_step_ok: "table_slot_step s t \<Longrightarrow> table_slot_ok s \<Longrightarrow> table_slot_ok t"
  by (auto elim!: table_slot_step.cases simp: table_slot_ok_def gen_succ_nonzero)

lemma slotwise_inv: "slotwise t t' \<Longrightarrow> table_inv t \<Longrightarrow> table_inv t'"
  unfolding slotwise_def table_inv_def list_all_length using table_slot_step_ok by auto

lemma table_slot_step_gen:
  assumes "table_slot_step s t"
  shows "ts_generation s < ts_generation t \<or>
    ts_generation s = ts_generation t \<and> (ts_capability s \<noteq> None \<longrightarrow> t = s)"
  using assms
proof cases
  case clear
  then have "ts_generation s < ts_generation s + 1"
    by (simp add: word_less_nat_alt unat_plus_one)
  then show ?thesis using clear by simp
qed auto

interpretation table_handles: generational table_step table_inv table_live table_issued
proof unfold_locales
  fix s t :: handle_table and k
  show "table_step s t \<Longrightarrow> table_inv s \<Longrightarrow> table_inv t"
    using table_step_slotwise slotwise_inv by blast
  show "table_inv s \<Longrightarrow> table_live s k \<Longrightarrow> table_issued s k"
    by (auto simp: table_live_def table_issued_def table_cap_Some_iff table_slot_Inr_iff Let_def)
next
  fix s t :: handle_table and k
  assume step: "table_step s t" and inv: "table_inv s" and iss: "table_issued s k"
  define a where "a = ht_slots s ! unat (handle_slot k)"
  define b where "b = ht_slots t ! unat (handle_slot k)"
  have i: "unat (handle_slot k) < length (ht_slots s)" using iss by (simp add: table_issued_def)
  then have len: "unat (handle_slot k) < length (ht_slots t)" and st: "table_slot_step a b"
    using table_step_slotwise [OF step inv] by (auto simp: slotwise_def a_def b_def)
  have a: "handle_generation k < ts_generation a \<or>
      handle_generation k = ts_generation a \<and> ts_capability a \<noteq> None"
    using iss by (simp add: table_issued_def Let_def a_def)
  then have b: "handle_generation k < ts_generation b \<or>
      handle_generation k = ts_generation b \<and> b = a"
    using table_slot_step_gen [OF st] by auto
  then show "table_issued t k"
    using a len by (auto simp: table_issued_def Let_def b_def)
  assume "\<not> table_live s k"
  then have "\<not> (ts_generation a = handle_generation k \<and> handle_generation k \<noteq> 0 \<and>
      ts_capability a \<noteq> None)"
    using i by (auto simp: table_live_def table_cap_Some_iff table_slot_Inr_iff a_def)
  then have "\<not> (ts_generation b = handle_generation k \<and> handle_generation k \<noteq> 0 \<and>
      ts_capability b \<noteq> None)"
    using a b by auto
  then show "\<not> table_live t k"
    by (auto simp: table_live_def table_cap_Some_iff table_slot_Inr_iff b_def)
qed


section \<open>Properties\<close>

text \<open>C21. References are conserved. \<open>insert\<close>, \<open>close\<close> and \<open>close_all\<close> change the reference
  count of every object in the registry by exactly what they change in the number of capabilities
  the table holds for it, on success and on failure (the retain of a failed \<open>insert\<close> is taken
  back), and they keep the registry and the table well formed. \<open>close_all\<close> leaves no capability
  in the table.\<close>

theorem table_conserves_references:
  assumes "reg_inv r" and "table_inv t" and "\<And>x. held t x \<le> reg_refs r x"
  shows "(case table_insert t r ob rights of (_, t', r') \<Rightarrow>
        reg_inv r' \<and> table_inv t' \<and> reg_refs r' x + held t x = reg_refs r x + held t' x) \<and>
    (case table_close t r h of (_, t', r') \<Rightarrow>
        reg_inv r' \<and> table_inv t' \<and> reg_refs r' x + held t x = reg_refs r x + held t' x) \<and>
    (case table_close_all t r of (t', r') \<Rightarrow>
        reg_inv r' \<and> table_inv t' \<and> held t' x = 0 \<and> reg_refs r' x + held t x = reg_refs r x)"
proof (intro conjI)
  show "case table_insert t r ob rights of (_, t', r') \<Rightarrow>
      reg_inv r' \<and> table_inv t' \<and> reg_refs r' x + held t x = reg_refs r x + held t' x"
  proof (cases "table_insert t r ob rights")
    case (fields res t' r')
    show ?thesis
    proof (cases res)
      case (Inl e)
      then show ?thesis using fields insert_err_unchanged [OF assms(1), of t ob rights e t' r'] assms(1,2)
        by simp
    next
      case (Inr h)
      then show ?thesis using fields insert_ok(1-4) [OF assms(1,2), of ob rights h t' r'] by simp
    qed
  qed
  show "case table_close t r h of (_, t', r') \<Rightarrow>
      reg_inv r' \<and> table_inv t' \<and> reg_refs r' x + held t x = reg_refs r x + held t' x"
  proof (cases "table_close t r h")
    case (fields res t' r')
    show ?thesis
    proof (cases res)
      case (Inl e)
      then show ?thesis using fields close_err_unchanged [of t r h e t' r'] assms(1,2) by simp
    next
      case (Inr u)
      then have "table_close t r h = (Inr (), t', r')" using fields by simp
      then obtain c where c: "table_cap t h = Some c" "t' = clear_handle t h" "reg_inv r'"
        "reg_refs r = (reg_refs r')(cap_object c := reg_refs r' (cap_object c) + 1)"
        by (rule close_ok [OF assms(1,2)])
      have "held t x = held t' x + (if x = cap_object c then 1 else 0)"
        using fun_cong [OF clear_handle_ok(3) [OF assms(2) c(1)], of x] c(2) by simp
      moreover have "reg_refs r x = reg_refs r' x + (if x = cap_object c then 1 else 0)"
        using fun_cong [OF c(4), of x] by simp
      ultimately show ?thesis
        using fields c(2,3) clear_handle_ok(1) [OF assms(2) c(1)] by simp
    qed
  qed
  have "table_inv (fst (table_close_all t r))"
    by (rule table_handles.keeps_inv [OF table_step.close_all assms(2)])
  moreover have "reg_inv (snd (table_close_all t r)) \<and>
      (\<forall>x. reg_refs (snd (table_close_all t r)) x = reg_refs r x - held t x)"
    unfolding close_all_eq held_def
    by (rule registry.release_list [OF assms(1)]) (rule assms(3) [unfolded held_def])
  moreover have "held (fst (table_close_all t r)) x = 0"
    by (simp add: held_def visit_objects_close_all)
  ultimately show "case table_close_all t r of (t', r') \<Rightarrow>
      reg_inv r' \<and> table_inv t' \<and> held t' x = 0 \<and> reg_refs r' x + held t x = reg_refs r x"
    using assms(3) [of x] by (cases "table_close_all t r") simp
qed

text \<open>A registry with one VMO that a table of two slots holds once.\<close>

definition sample_registry :: object_registry where
  "sample_registry =
     \<lparr>reg_slots = [\<lparr>os_generation = 1, os_kind = Some KVmo, os_references = 2,
                    os_retired = False\<rparr>, OBJECT_SLOT_EMPTY]\<rparr>"

definition sample_vmo :: object_id where
  "sample_vmo = \<lparr>oid_slot = 0, oid_generation = 1, oid_kind = KVmo\<rparr>"

definition sample_table :: handle_table where
  "sample_table = \<lparr>ht_slots = [\<lparr>ts_generation = 5, ts_capability = Some
     \<lparr>cap_object = sample_vmo, cap_rights = RIGHT_READ OR RIGHT_WRITE OR RIGHT_TRANSFER\<rparr>\<rparr>,
     HANDLE_SLOT_EMPTY]\<rparr>"

lemmas sample_defs = sample_registry_def sample_vmo_def sample_table_def HANDLE_SLOT_EMPTY_def
  OBJECT_SLOT_EMPTY_def

lemma sample_ok:
  "reg_inv sample_registry" "table_inv sample_table"
  "held sample_table x = (if x = sample_vmo then 1 else 0)"
  "reg_refs sample_registry sample_vmo = 2"
  by (simp_all add: sample_defs reg_inv_def slot_ok_def table_inv_def table_slot_ok_def held_def
      visit_objects_def List.map_filter_simps reg_refs_def object_slot_def array_get_def)

lemma sample_held: "held sample_table x \<le> reg_refs sample_registry x"
  by (simp add: sample_ok)

theorem table_conserves_references_witness:
  "case table_close_all sample_table sample_registry of (t', r') \<Rightarrow>
     held t' sample_vmo = 0 \<and> reg_refs r' sample_vmo = 1"
  using table_conserves_references [OF sample_ok(1,2) sample_held, where x = sample_vmo]
  by (auto simp: sample_ok split: prod.splits)

text \<open>C22. A handle value resolves to what was inserted under it, and to nothing else. After a
  successful \<open>insert\<close> the fresh handle resolves to the object with the given rights, every other
  handle value resolves exactly as before, and closing the handle restores the registry's counts
  and makes the value an error.\<close>

theorem insert_lookup_close:
  assumes "reg_inv r" and "table_inv t" and "table_insert t r ob rights = (Inr h, t', r')"
  shows "table_resolve t' r' h = Inr ob \<and> table_rights t' r' h = Inr rights \<and>
    (h' \<noteq> h \<longrightarrow> (table_entry t' r' h' = Inr c \<longleftrightarrow> table_entry t r h' = Inr c)) \<and>
    (\<exists>t'' r''. table_close t' r' h = (Inr (), t'', r'') \<and> reg_refs r'' = reg_refs r \<and>
       held t'' = held t \<and> (\<exists>e. table_resolve t'' r'' h = Inl e))"
proof -
  note ins = insert_ok [OF assms]
  let ?c = "\<lparr>cap_object = ob, cap_rights = rights\<rparr>"
  have live: "reg_live r' x \<longleftrightarrow> reg_live r x" for x
    using ins(3,7) reg_refs_pos_iff [OF assms(1), of x] reg_refs_pos_iff [OF ins(1), of x]
    by (auto split: if_splits)
  have cap: "table_cap t' h = Some ?c" using ins(6) by simp
  have ent: "table_entry t' r' h = Inr ?c"
    using cap ins(7) live by (simp add: table_entry_iff [OF ins(1)])
  obtain r'' where cl: "table_close t' r' h = (Inr (), clear_handle t' h, r'')"
    using close_live [OF ins(1,2) cap] ins(7) live by auto
  obtain d where d: "table_cap t' h = Some d" "reg_inv r''"
    "reg_refs r' = (reg_refs r'')(cap_object d := reg_refs r'' (cap_object d) + 1)"
    using cl by (rule close_ok [OF ins(1,2)])
  have cob: "cap_object d = ob" using d(1) cap by auto
  have refs: "reg_refs r'' = reg_refs r"
    by (rule count_up_inj [of _ ob]) (use d(3) ins(3) cob in simp)
  have held: "held (clear_handle t' h) = held t"
    by (rule count_up_inj [of _ ob]) (use clear_handle_ok(3) [OF ins(2) cap] ins(4) in simp)
  have "table_cap (clear_handle t' h) h = None" using clear_handle_ok(2) [OF ins(2) cap] by simp
  then have "\<exists>e. table_resolve (clear_handle t' h) r'' h = Inl e"
    using table_entry_iff [OF d(2), of "clear_handle t' h" h]
    by (auto simp: table_resolve_def split: sum.splits)
  moreover have "h' \<noteq> h \<longrightarrow> (table_entry t' r' h' = Inr c \<longleftrightarrow> table_entry t r h' = Inr c)"
    using ins(6) live by (simp add: table_entry_iff [OF ins(1)] table_entry_iff [OF assms(1)])
  moreover have "table_resolve t' r' h = Inr ob" and "table_rights t' r' h = Inr rights"
    by (simp_all add: ent table_resolve_def table_rights_def)
  ultimately show ?thesis using cl refs held by blast
qed

theorem insert_lookup_close_witness:
  "case table_insert sample_table sample_registry sample_vmo RIGHT_READ of
     (Inr h, t', r') \<Rightarrow> table_resolve t' r' h = Inr sample_vmo
   | (Inl e, t', r') \<Rightarrow> False"
proof -
  have "\<exists>h t' r'. table_insert sample_table sample_registry sample_vmo RIGHT_READ = (Inr h, t', r')"
    by (simp add: table_insert_def registry_retain_def object_slot_def array_get_def Let_def
        install_capability_def sample_defs)
  then show ?thesis
    using insert_lookup_close [OF sample_ok(1,2)] by auto
qed

text \<open>C23. Handle values are never reused. Once a handle value that named a capability no longer
  names one, no sequence of table operations, with whatever registries, makes it resolve again.\<close>

theorem handle_never_reused:
  assumes "table_inv s" and "table_cap s h = Some c"
    and "table_step\<^sup>*\<^sup>* s t" and "table_cap t h = None"
    and "table_step\<^sup>*\<^sup>* t u"
  shows "\<exists>e. table_entry u r h = Inl e"
proof -
  have "\<not> table_live u h"
    using table_handles.never_revived [OF assms(1) _ assms(3) _ assms(5)] assms(2,4)
    by (simp add: table_live_def)
  then show ?thesis by (auto simp: table_live_def table_cap_def table_entry_def
      split: sum.splits option.splits)
qed

theorem handle_never_reused_witness:
  "let t = fst (snd (table_close sample_table sample_registry (handle_new 0 5)));
       u = fst (snd (table_insert t sample_registry sample_vmo RIGHT_READ))
   in table_cap u (handle_new 0 6) \<noteq> None \<and>
      (\<exists>e. table_entry u sample_registry (handle_new 0 5) = Inl e)"
proof -
  let ?h = "handle_new 0 5 :: handle"
  let ?t = "fst (snd (table_close sample_table sample_registry ?h))"
  let ?u = "fst (snd (table_insert ?t sample_registry sample_vmo RIGHT_READ))"
  have hb: "handle_slot (handle_new 0 g) = 0" "handle_generation (handle_new 0 g) = g" for g
    using handle_new_bits [of 0 g] by simp_all
  have t: "?t = \<lparr>ht_slots = [\<lparr>ts_generation = 6, ts_capability = None\<rparr>, HANDLE_SLOT_EMPTY]\<rparr>"
    by (simp add: table_close_def table_slot_def hb array_get_def registry_release_def
        object_slot_def Let_def put_table_slot_def sample_defs)
  have u: "?u = \<lparr>ht_slots = [\<lparr>ts_generation = 6, ts_capability = Some
      \<lparr>cap_object = sample_vmo, cap_rights = RIGHT_READ\<rparr>\<rparr>, HANDLE_SLOT_EMPTY]\<rparr>"
    unfolding t by (simp add: table_insert_def registry_retain_def object_slot_def array_get_def
        Let_def install_capability_def sample_defs)
  have "\<exists>e. table_entry ?u sample_registry ?h = Inl e"
  proof (rule handle_never_reused [OF sample_ok(2)])
    show "table_cap sample_table ?h = Some \<lparr>cap_object = sample_vmo,
        cap_rights = RIGHT_READ OR RIGHT_WRITE OR RIGHT_TRANSFER\<rparr>"
      by (simp add: table_cap_def table_slot_def hb array_get_def sample_defs)
    show "table_step\<^sup>*\<^sup>* sample_table ?t" by (rule r_into_rtranclp) (rule table_step.close)
    show "table_cap ?t ?h = None"
      unfolding t by (simp add: table_cap_def table_slot_def hb array_get_def)
    show "table_step\<^sup>*\<^sup>* ?t ?u" by (rule r_into_rtranclp) (rule table_step.insert)
  qed
  moreover have "table_cap ?u (handle_new 0 6) \<noteq> None"
    unfolding u by (simp add: table_cap_def table_slot_def hb array_get_def)
  ultimately show ?thesis by (simp add: Let_def)
qed

text \<open>C24. A transfer moves a capability and never adds a right. A handle that \<open>begin_move\<close> takes
  out of one table and \<open>install_token\<close> puts into another had the transfer right; the new handle
  names the same object with the requested rights, which are among the rights the sender had; the
  sent handle no longer resolves, every other handle of both tables is as before, and the two
  tables together hold each object as often as before.\<close>

theorem transfer_attenuates:
  assumes "reg_inv r" and "table_inv t1" and "table_inv t2"
    and "begin_move t1 r h requested = (Inr tok, t1')"
    and "install_token t2 r (Some tok) = (Inr h', t2', tok')"
  shows "\<exists>c. table_cap t1 h = Some c \<and> rights_contains (cap_rights c) RIGHT_TRANSFER \<and>
    rights_is_subset_of requested (cap_rights c) \<and>
    table_cap t1' = (table_cap t1)(h := None) \<and>
    table_cap t2' = (table_cap t2)(h' \<mapsto> \<lparr>cap_object = cap_object c, cap_rights = requested\<rparr>) \<and>
    table_cap t2 h' = None \<and> tok' = None \<and> table_inv t1' \<and> table_inv t2' \<and>
    held t1' x + held t2' x = held t1 x + held t2 x"
proof -
  obtain c where c: "table_cap t1 h = Some c" "rights_contains (cap_rights c) RIGHT_TRANSFER"
    "rights_is_subset_of requested (cap_rights c)"
    "tok = \<lparr>tt_capability = \<lparr>cap_object = cap_object c, cap_rights = requested\<rparr>\<rparr>"
    "t1' = clear_handle t1 h"
    using assms(4) by (rule begin_move_ok [OF assms(1,2)])
  have inst: "install_capability t2 (cap_object c) requested = (Inr h', t2')" and "tok' = None"
    using assms(5) by (auto simp: c(4) elim: install_token_ok [OF assms(1,3)])
  note cl = clear_handle_ok(1-3) [OF assms(2) c(1), folded c(5)]
  note ins = install_ok [OF assms(3) inst]
  have "held t1 x = held t1' x + (if x = cap_object c then 1 else 0)"
    using fun_cong [OF cl(3), of x] by (auto split: if_splits)
  moreover have "held t2' x = held t2 x + (if x = cap_object c then 1 else 0)"
    using fun_cong [OF ins(4), of x] by (auto split: if_splits)
  ultimately show ?thesis using c cl(1,2) ins(1-3) \<open>tok' = None\<close> by auto
qed

theorem transfer_attenuates_witness:
  "case begin_move sample_table sample_registry (handle_new 0 5) RIGHT_READ of
     (Inr tok, t1') \<Rightarrow>
       (case install_token (table_new 2) sample_registry (Some tok) of
          (Inr h', t2', tok') \<Rightarrow> table_cap t1' (handle_new 0 5) = None \<and>
            table_cap t2' h' = Some \<lparr>cap_object = sample_vmo, cap_rights = RIGHT_READ\<rparr>
        | (Inl e, t2', tok') \<Rightarrow> False)
   | (Inl e, t1') \<Rightarrow> False"
proof -
  have hb: "handle_slot (handle_new 0 5) = 0" "handle_generation (handle_new 0 5) = 5"
    using handle_new_bits [of 0 5] by simp_all
  define tok where "tok = \<lparr>tt_capability = \<lparr>cap_object = sample_vmo, cap_rights = RIGHT_READ\<rparr>\<rparr>"
  have cap: "table_cap sample_table (handle_new 0 5) = Some \<lparr>cap_object = sample_vmo,
        cap_rights = RIGHT_READ OR RIGHT_WRITE OR RIGHT_TRANSFER\<rparr>"
    by (simp add: table_cap_def table_slot_def hb array_get_def sample_defs)
  obtain t1' where mv:
    "begin_move sample_table sample_registry (handle_new 0 5) RIGHT_READ = (Inr tok, t1')"
    by (simp add: tok_def begin_move_def check_move_def table_entry_def registry_validate_def
        table_slot_def hb array_get_def sample_defs right_defs rights_contains_def
        rights_is_subset_of_def)
  obtain h' t2' tok' where inst:
    "install_token (table_new 2) sample_registry (Some tok) = (Inr h', t2', tok')"
    by (simp add: tok_def install_token_def registry_validate_def array_get_def sample_defs Let_def
        install_capability_def table_new_def numeral_2_eq_2)
  have new: "table_inv (table_new 2)" by (rule table_inv_new) simp
  show ?thesis
    using transfer_attenuates [OF sample_ok(1,2) new mv inst] cap mv inst by simp
qed

end
