(* ===== verification/Wait_Registry.thy ===== *)
theory Wait_Registry
  imports Objects
begin

text \<open>
  Signals, waiters and the wait registry of \<open>kernel/src/ipc.rs\<close>. The registry holds two arrays
  of \<open>MAX_WAIT_ITEMS\<close> slots: the registrations of blocked waiters and the wakeups queued for
  them. The loop of \<open>notify\<close> restarts at index 0 after every wakeup; it is a recursion whose
  measure is the number of registrations, then the distance to the end. The lemmas show that the
  bound on registrations and wakeups together is kept by every operation, that this bound is what
  makes \<open>notify\<close> lose no wakeup, and that a waiter is woken once.
\<close>

section \<open>Signals\<close>

type_synonym signals = u32

definition SIGNALS_READABLE :: signals where "SIGNALS_READABLE = push_bit 0 1"
definition SIGNALS_WRITABLE :: signals where "SIGNALS_WRITABLE = push_bit 1 1"
definition SIGNALS_PEER_CLOSED :: signals where "SIGNALS_PEER_CLOSED = push_bit 2 1"
definition SIGNALS_SIGNALED :: signals where "SIGNALS_SIGNALED = push_bit 3 1"
definition SIGNALS_FIRED :: signals where "SIGNALS_FIRED = push_bit 4 1"

lemmas signals_defs = SIGNALS_READABLE_def SIGNALS_WRITABLE_def SIGNALS_PEER_CLOSED_def
  SIGNALS_SIGNALED_def SIGNALS_FIRED_def

definition signals_intersects :: "signals \<Rightarrow> signals \<Rightarrow> bool" where
  "signals_intersects a b \<longleftrightarrow> a AND b \<noteq> 0"

section \<open>Waiters and the registry\<close>

definition MAX_WAIT_ITEMS :: nat where "MAX_WAIT_ITEMS = 8"
definition MAX_WAIT_WAKEUPS :: nat where "MAX_WAIT_WAKEUPS = MAX_WAIT_ITEMS"

datatype wait_error =
    WE_Empty | WE_TooMany | WE_Blocked | WE_Invalid | WE_Stale | WE_WrongType | WE_RightsMissing

definition wait_error_from :: "handle_error \<Rightarrow> wait_error" where
  "wait_error_from e =
     (case e of
        HE_RightsMissing \<Rightarrow> WE_RightsMissing
      | HE_WrongType \<Rightarrow> WE_WrongType
      | HE_Invalid \<Rightarrow> WE_Invalid
      | HE_ObjectTableFull \<Rightarrow> WE_Invalid
      | _ \<Rightarrow> WE_Stale)"

record wait_outcome =
  wo_index :: nat
  wo_observed :: signals

datatype waiter_state = Waiter_Runnable | Waiter_Blocked

record waiter =
  wt_id :: u32
  wt_epoch :: u64
  wt_state :: waiter_state
  wt_wake :: "wait_outcome option"

definition waiter_new :: "u32 \<Rightarrow> waiter" where
  "waiter_new wid = \<lparr>wt_id = wid, wt_epoch = 0, wt_state = Waiter_Runnable, wt_wake = None\<rparr>"

definition waiter_is_runnable :: "waiter \<Rightarrow> bool" where
  "waiter_is_runnable w \<longleftrightarrow> wt_state w = Waiter_Runnable"

record wait_registration =
  wr_waiter_id :: u32
  wr_epoch :: u64
  wr_object :: object_id
  wr_interests :: signals
  wr_index :: nat

record wait_wake =
  ww_waiter_id :: u32
  ww_epoch :: u64
  ww_outcome :: wait_outcome

record wait_registry =
  wq_registrations :: "wait_registration option list"
  wq_wakeups :: "wait_wake option list"

text \<open>A wait item, over any type of sources. \<open>register\<close> reads only the object and the
  interests.\<close>

record 'src wait_item =
  wi_source :: 'src
  wi_object :: object_id
  wi_interests :: signals
  wi_observed :: signals

definition wait_registry_new :: wait_registry where
  "wait_registry_new =
     \<lparr>wq_registrations = replicate MAX_WAIT_ITEMS None,
      wq_wakeups = replicate MAX_WAIT_WAKEUPS None\<rparr>"

text \<open>\<open>Waiter::sync\<close> and \<open>Waiter::take_outcome\<close>.\<close>

definition waiter_sync :: "waiter \<Rightarrow> wait_registry \<Rightarrow> bool \<times> waiter \<times> wait_registry" where
  "waiter_sync w q =
     (case position (\<lambda>wake. case wake of None \<Rightarrow> False
                | Some k \<Rightarrow> ww_waiter_id k = wt_id w \<and> ww_epoch k = wt_epoch w) (wq_wakeups q) of
        None \<Rightarrow> (False, w, q)
      | Some index \<Rightarrow>
          (True,
           w\<lparr>wt_wake := map_option ww_outcome (wq_wakeups q ! index), wt_state := Waiter_Runnable\<rparr>,
           q\<lparr>wq_wakeups := (wq_wakeups q)[index := None]\<rparr>))"

definition waiter_take_outcome :: "waiter \<Rightarrow> wait_outcome option \<times> waiter" where
  "waiter_take_outcome w = (wt_wake w, w\<lparr>wt_wake := None\<rparr>)"

text \<open>Dropping the registrations that satisfy a predicate: the three clearing loops.\<close>

definition drop_where :: "('a \<Rightarrow> bool) \<Rightarrow> 'a option list \<Rightarrow> 'a option list" where
  "drop_where P xs = map (\<lambda>x. case x of None \<Rightarrow> None | Some y \<Rightarrow> if P y then None else Some y) xs"

definition clear_for_waiter :: "wait_registry \<Rightarrow> u32 \<Rightarrow> wait_registry" where
  "clear_for_waiter q wid =
     q\<lparr>wq_registrations := drop_where (\<lambda>e. wr_waiter_id e = wid) (wq_registrations q)\<rparr>"

definition clear_wakeup_for_waiter :: "wait_registry \<Rightarrow> u32 \<Rightarrow> wait_registry" where
  "clear_wakeup_for_waiter q wid =
     q\<lparr>wq_wakeups := drop_where (\<lambda>e. ww_waiter_id e = wid) (wq_wakeups q)\<rparr>"

definition cancel_wait :: "wait_registry \<Rightarrow> waiter \<Rightarrow> wait_registry" where
  "cancel_wait q w =
     q\<lparr>wq_registrations :=
        drop_where (\<lambda>e. wr_waiter_id e = wt_id w \<and> wr_epoch e = wt_epoch w) (wq_registrations q)\<rparr>"

definition cancel_waiter :: "wait_registry \<Rightarrow> u32 \<Rightarrow> wait_registry" where
  "cancel_waiter q wid = clear_wakeup_for_waiter (clear_for_waiter q wid) wid"

definition occupied :: "'a option list \<Rightarrow> nat" where
  "occupied xs = length (filter (\<lambda>x. x \<noteq> None) xs)"

definition registration_matches :: "object_id \<Rightarrow> signals \<Rightarrow> wait_registration \<Rightarrow> bool" where
  "registration_matches ob sigs e \<longleftrightarrow>
     wr_object e = ob \<and> signals_intersects (wr_interests e) sigs"

definition same_wait :: "wait_registration \<Rightarrow> wait_wake \<Rightarrow> bool" where
  "same_wait e k \<longleftrightarrow> ww_waiter_id k = wr_waiter_id e \<and> ww_epoch k = wr_epoch e"

definition drop_registration :: "wait_registration \<Rightarrow> wait_registry \<Rightarrow> wait_registry" where
  "drop_registration e q =
     q\<lparr>wq_registrations :=
        drop_where (\<lambda>x. wr_waiter_id x = wr_waiter_id e \<and> wr_epoch x = wr_epoch e)
          (wq_registrations q)\<rparr>"

definition already_queued :: "wait_registry \<Rightarrow> wait_registration \<Rightarrow> bool" where
  "already_queued q e \<longleftrightarrow> list_ex (\<lambda>k. case k of None \<Rightarrow> False | Some w \<Rightarrow> same_wait e w) (wq_wakeups q)"

definition queue_wakeup :: "wait_registry \<Rightarrow> nat \<Rightarrow> wait_registration \<Rightarrow> signals \<Rightarrow> wait_registry" where
  "queue_wakeup q j e sigs =
     q\<lparr>wq_wakeups := (wq_wakeups q)[j := Some \<lparr>ww_waiter_id = wr_waiter_id e,
        ww_epoch = wr_epoch e,
        ww_outcome = \<lparr>wo_index = wr_index e, wo_observed = sigs\<rparr>\<rparr>]\<rparr>"

lemma occupied_drop_where_le: "occupied (drop_where P xs) \<le> occupied xs"
  by (induction xs) (auto simp: occupied_def drop_where_def split: option.splits)

lemma occupied_drop_where_less:
  assumes "Some y \<in> set xs" and "P y"
  shows "occupied (drop_where P xs) < occupied xs"
  using assms(1)
proof (induction xs)
  case Nil
  then show ?case by simp
next
  case (Cons x xs)
  show ?case
  proof (cases "x = Some y")
    case True
    then show ?thesis
      using assms(2) occupied_drop_where_le [of P xs]
      by (simp add: occupied_def drop_where_def)
  next
    case False
    then have "occupied (drop_where P xs) < occupied xs" using Cons by simp
    then show ?thesis by (auto simp: occupied_def drop_where_def split: option.splits)
  qed
qed

lemma length_drop_where [simp]: "length (drop_where P xs) = length xs"
  by (simp add: drop_where_def)

lemma set_drop_where: "Some y \<in> set (drop_where P xs) \<longleftrightarrow> Some y \<in> set xs \<and> \<not> P y"
  by (induction xs) (auto simp: drop_where_def split: option.splits if_splits)

lemma drop_where_drop_where: "drop_where P (drop_where Q xs) = drop_where (\<lambda>x. Q x \<or> P x) xs"
  by (auto simp: drop_where_def split: option.splits)

lemma drop_where_cong: "(\<And>y. Some y \<in> set xs \<Longrightarrow> P y \<longleftrightarrow> Q y) \<Longrightarrow> drop_where P xs = drop_where Q xs"
  by (auto simp: drop_where_def split: option.split)

lemma drop_where_none: "(\<And>y. Some y \<in> set xs \<Longrightarrow> \<not> P y) \<Longrightarrow> drop_where P xs = xs"
  by (auto simp: drop_where_def split: option.split intro!: map_idI)

lemma occupied_drop_where:
  "occupied (drop_where P xs) = length (filter (\<lambda>x. case x of None \<Rightarrow> False | Some y \<Rightarrow> \<not> P y) xs)"
  by (induction xs) (auto simp: occupied_def drop_where_def split: option.splits)

function notify_loop ::
  "wait_registry \<Rightarrow> object_id \<Rightarrow> signals \<Rightarrow> nat \<Rightarrow> bool \<Rightarrow> wait_registry \<times> bool" where
  "notify_loop q ob sigs i notified =
     (if i < length (wq_registrations q) then
        (case wq_registrations q ! i of
           None \<Rightarrow> notify_loop q ob sigs (Suc i) notified
         | Some e \<Rightarrow>
             if \<not> registration_matches ob sigs e then notify_loop q ob sigs (Suc i) notified
             else if already_queued q e then notify_loop (drop_registration e q) ob sigs 0 notified
             else
               (case position (\<lambda>k. k = None) (wq_wakeups q) of
                  None \<Rightarrow> notify_loop q ob sigs (Suc i) notified
                | Some j \<Rightarrow>
                    notify_loop (drop_registration e (queue_wakeup q j e sigs)) ob sigs 0 True))
      else (q, notified))"
  by pat_completeness auto
termination
proof (relation "measures [\<lambda>(q, ob, sigs, i, n). occupied (wq_registrations q),
    \<lambda>(q, ob, sigs, i, n). length (wq_registrations q) - i]", goal_cases)
  case 1
  show ?case by simp
next
  case (4 q ob sigs i notified e)
  then have "Some e \<in> set (wq_registrations q)" by (metis nth_mem)
  then show ?case by (simp add: drop_registration_def occupied_drop_where_less)
next
  case (6 q ob sigs i notified e j)
  then have "Some e \<in> set (wq_registrations q)" by (metis nth_mem)
  then show ?case by (simp add: drop_registration_def queue_wakeup_def occupied_drop_where_less)
qed auto

declare notify_loop.simps [simp del]

definition notify :: "wait_registry \<Rightarrow> object_id \<Rightarrow> signals \<Rightarrow> bool \<times> wait_registry" where
  "notify q ob sigs = (let (q', n) = notify_loop q ob sigs 0 False in (n, q'))"

text \<open>\<open>register\<close>: the loop over the items writes each registration into the first free
  slot; it runs out of slots only if the capacity check before it is wrong.\<close>

definition item_registration :: "u32 \<Rightarrow> u64 \<Rightarrow> nat \<Rightarrow> 'src wait_item \<Rightarrow> wait_registration" where
  "item_registration wid epoch index item =
     \<lparr>wr_waiter_id = wid, wr_epoch = epoch, wr_object = wi_object item,
      wr_interests = wi_interests item, wr_index = index\<rparr>"

fun register_items ::
  "u32 \<Rightarrow> u64 \<Rightarrow> nat \<Rightarrow> 'src wait_item list \<Rightarrow> wait_registry \<Rightarrow>
     (wait_error, unit) result \<times> wait_registry" where
  "register_items wid epoch index [] q = (Inr (), q)"
| "register_items wid epoch index (item # items) q =
     (case position (\<lambda>x. x = None) (wq_registrations q) of
        None \<Rightarrow> (Inl WE_TooMany, clear_for_waiter q wid)
      | Some j \<Rightarrow>
          register_items wid epoch (Suc index) items
            (q\<lparr>wq_registrations :=
                (wq_registrations q)[j := Some (item_registration wid epoch index item)]\<rparr>))"

definition register ::
  "wait_registry \<Rightarrow> waiter \<Rightarrow> 'src wait_item list \<Rightarrow>
     (wait_error, unit) result \<times> wait_registry \<times> waiter" where
  "register q w items =
     (let q1 = clear_wakeup_for_waiter (clear_for_waiter q (wt_id w)) (wt_id w);
          occ = occupied (wq_registrations q1) + occupied (wq_wakeups q1)
      in if MAX_WAIT_WAKEUPS < occ + length items then (Inl WE_TooMany, q1, w)
         else
           let w1 = w\<lparr>wt_epoch := wt_epoch w + 1\<rparr> in
           (case register_items (wt_id w1) (wt_epoch w1) 0 items q1 of
              (Inl e, q2) \<Rightarrow> (Inl e, q2, w1)
            | (Inr _, q2) \<Rightarrow> (Inr (), q2, w1\<lparr>wt_state := Waiter_Blocked\<rparr>)))"

text \<open>\<open>take_woken_waiters\<close>: the identities in \<open>WokenWaiters.ids[..length]\<close>, in order and
  without repetition.\<close>

fun woken_ids :: "wait_wake option list \<Rightarrow> u32 list \<Rightarrow> u32 list" where
  "woken_ids [] ids = ids"
| "woken_ids (None # ks) ids = woken_ids ks ids"
| "woken_ids (Some k # ks) ids =
     (if ww_waiter_id k \<in> set ids then woken_ids ks ids
      else woken_ids ks (ids @ [ww_waiter_id k]))"

definition take_woken_waiters :: "wait_registry \<Rightarrow> u32 list \<times> wait_registry" where
  "take_woken_waiters q =
     (woken_ids (wq_wakeups q) [],
      q\<lparr>wq_wakeups := map (\<lambda>_. None) (wq_wakeups q)\<rparr>)"

section \<open>The capacity invariant\<close>

text \<open>Registrations and queued wakeups together fit the wakeup array, so every registered
  waiter can be woken.\<close>

definition wait_inv :: "wait_registry \<Rightarrow> bool" where
  "wait_inv q \<longleftrightarrow> length (wq_registrations q) = MAX_WAIT_ITEMS \<and>
     length (wq_wakeups q) = MAX_WAIT_WAKEUPS \<and>
     occupied (wq_registrations q) + occupied (wq_wakeups q) \<le> MAX_WAIT_WAKEUPS"

definition woken :: "wait_registry \<Rightarrow> wait_registration \<Rightarrow> bool" where
  "woken q e \<longleftrightarrow> (\<exists>k. Some k \<in> set (wq_wakeups q) \<and> same_wait e k)"

lemma occupied_update:
  assumes "i < length xs"
  shows "occupied (xs[i := x]) + (if xs ! i \<noteq> None then 1 else 0) =
    occupied xs + (if x \<noteq> None then 1 else 0)"
  using length_filter_update [OF assms, of "\<lambda>x. x \<noteq> None" x] by (simp add: occupied_def)

lemma occupied_pos: "Some y \<in> set xs \<Longrightarrow> 0 < occupied xs"
  by (auto simp: occupied_def filter_empty_conv)

lemma free_slot_exists: "occupied xs < length xs \<Longrightarrow> \<exists>j. position (\<lambda>x. x = None) xs = Some j"
proof (cases "position (\<lambda>x. x = None) xs")
  case None
  then have "filter (\<lambda>x. x \<noteq> None) xs = xs" by (simp add: array_simps filter_id_conv)
  then show "occupied xs < length xs \<Longrightarrow> ?thesis" by (simp add: occupied_def)
qed simp

lemma wait_inv_new: "wait_inv wait_registry_new"
  by (simp add: wait_inv_def wait_registry_new_def occupied_def MAX_WAIT_WAKEUPS_def)

lemma wait_inv_drop_registrations:
  "wait_inv q \<Longrightarrow> wait_inv (q\<lparr>wq_registrations := drop_where P (wq_registrations q)\<rparr>)"
  using occupied_drop_where_le [of P "wq_registrations q"] by (simp add: wait_inv_def)

lemma wait_inv_drop_wakeups:
  "wait_inv q \<Longrightarrow> wait_inv (q\<lparr>wq_wakeups := drop_where P (wq_wakeups q)\<rparr>)"
  using occupied_drop_where_le [of P "wq_wakeups q"] by (simp add: wait_inv_def)

lemma wait_inv_cancel_waiter: "wait_inv q \<Longrightarrow> wait_inv (cancel_waiter q wid)"
  unfolding cancel_waiter_def clear_wakeup_for_waiter_def clear_for_waiter_def
  by (rule wait_inv_drop_wakeups) (rule wait_inv_drop_registrations)

lemma wait_inv_cancel_wait: "wait_inv q \<Longrightarrow> wait_inv (cancel_wait q w)"
  unfolding cancel_wait_def by (rule wait_inv_drop_registrations)

lemma wait_inv_take_woken: "wait_inv q \<Longrightarrow> wait_inv (snd (take_woken_waiters q))"
  by (simp add: wait_inv_def take_woken_waiters_def occupied_def)

lemma wait_inv_sync: "wait_inv q \<Longrightarrow> wait_inv (snd (snd (waiter_sync w q)))"
proof -
  assume inv: "wait_inv q"
  have "occupied ((wq_wakeups q)[i := None]) \<le> occupied (wq_wakeups q)" for i
    by (cases "i < length (wq_wakeups q)")
       (use occupied_update [of i "wq_wakeups q" None] in \<open>auto simp: list_update_beyond split: if_splits\<close>)
  then show ?thesis using inv
    by (auto simp: wait_inv_def waiter_sync_def split: option.split intro: order_trans)
       (meson add_left_mono order_trans)+
qed


lemma set_fill_slot:
  assumes "position (\<lambda>x. x = None) xs = Some j"
  shows "Some x \<in> set (xs[j := Some y]) \<longleftrightarrow> Some x \<in> set xs \<or> x = y"
proof -
  note jl = position_SomeD(1,2) [OF assms]
  have "Some x \<in> set (xs[j := Some y])" if x: "Some x \<in> set xs"
  proof -
    from x obtain i where i: "i < length xs" "xs ! i = Some x" by (metis in_set_conv_nth)
    then have "xs[j := Some y] ! i = Some x" using jl by (auto simp: nth_list_update)
    then show ?thesis using i(1) by (metis length_list_update nth_mem)
  qed
  then show ?thesis
    using jl(1) set_update_memI [of j xs "Some y"] set_update_subset_insert [of xs j "Some y"] by auto
qed

lemma occupied_fill_slot:
  assumes "position (\<lambda>x. x = None) xs = Some j"
  shows "occupied (xs[j := Some y]) = Suc (occupied xs)"
  using occupied_update [OF position_SomeD(1) [OF assms], of "Some y"] position_SomeD(2) [OF assms]
  by simp

lemma register_items_ok:
  assumes "length (wq_registrations q) = MAX_WAIT_ITEMS"
    and "occupied (wq_registrations q) + length items \<le> MAX_WAIT_ITEMS"
  shows "\<exists>rs. register_items wid epoch index items q = (Inr (), q\<lparr>wq_registrations := rs\<rparr>) \<and>
    length rs = MAX_WAIT_ITEMS \<and>
    occupied rs = occupied (wq_registrations q) + length items \<and>
    (\<forall>e. Some e \<in> set rs \<longleftrightarrow> Some e \<in> set (wq_registrations q) \<or>
       (\<exists>i < length items. e = item_registration wid epoch (index + i) (items ! i)))"
  using assms
proof (induction items arbitrary: q index)
  case Nil
  then show ?case by (intro exI [of _ "wq_registrations q"]) auto
next
  case (Cons item items)
  obtain j where j: "position (\<lambda>x. x = None) (wq_registrations q) = Some j"
    using free_slot_exists [of "wq_registrations q"] Cons.prems by auto
  define q1 where "q1 = q\<lparr>wq_registrations :=
    (wq_registrations q)[j := Some (item_registration wid epoch index item)]\<rparr>"
  have occ: "occupied (wq_registrations q1) = Suc (occupied (wq_registrations q))"
    using occupied_fill_slot [OF j] by (simp add: q1_def)
  obtain rs where rs: "register_items wid epoch (Suc index) items q1 =
        (Inr (), q1\<lparr>wq_registrations := rs\<rparr>)" "length rs = MAX_WAIT_ITEMS"
      "occupied rs = occupied (wq_registrations q1) + length items"
      "\<forall>e. Some e \<in> set rs \<longleftrightarrow> Some e \<in> set (wq_registrations q1) \<or>
         (\<exists>i < length items. e = item_registration wid epoch (Suc index + i) (items ! i))"
    using Cons.IH [of q1 "Suc index"] Cons.prems occ by (auto simp: q1_def)
  have "(\<exists>i < length (item # items). e = item_registration wid epoch (index + i) ((item # items) ! i))
      \<longleftrightarrow> e = item_registration wid epoch index item \<or>
        (\<exists>i < length items. e = item_registration wid epoch (Suc index + i) (items ! i))" for e
    by (simp add: Ex_less_Suc2)
  then show ?case using j rs occ set_fill_slot [OF j]
    by (intro exI [of _ rs]) (simp add: q1_def)
qed

text \<open>The stale registrations of the waiter are gone before the new ones are counted.\<close>

lemma register_cases:
  fixes q :: wait_registry and w :: waiter and items :: "'src wait_item list"
  assumes inv: "wait_inv q"
  defines "q1 \<equiv> cancel_waiter q (wt_id w)"
  shows "if MAX_WAIT_WAKEUPS <
            occupied (wq_registrations q1) + occupied (wq_wakeups q1) + length items
    then register q w items = (Inl WE_TooMany, q1, w)
    else \<exists>rs. register q w items =
        (Inr (), q1\<lparr>wq_registrations := rs\<rparr>,
         w\<lparr>wt_epoch := wt_epoch w + 1, wt_state := Waiter_Blocked\<rparr>) \<and>
      wait_inv (q1\<lparr>wq_registrations := rs\<rparr>) \<and>
      (\<forall>e. Some e \<in> set rs \<longleftrightarrow> Some e \<in> set (wq_registrations q1) \<or>
         (\<exists>i < length items. e = item_registration (wt_id w) (wt_epoch w + 1) i (items ! i)))"
proof (cases "MAX_WAIT_WAKEUPS <
    occupied (wq_registrations q1) + occupied (wq_wakeups q1) + length items")
  case True
  then show ?thesis by (simp add: register_def q1_def cancel_waiter_def Let_def)
next
  case False
  have inv1: "wait_inv q1" using wait_inv_cancel_waiter [OF inv] by (simp add: q1_def)
  have len: "length (wq_registrations q1) = MAX_WAIT_ITEMS"
    and fit: "occupied (wq_registrations q1) + length items \<le> MAX_WAIT_ITEMS"
    using inv1 False by (auto simp: wait_inv_def MAX_WAIT_WAKEUPS_def)
  obtain rs where rs: "register_items (wt_id w) (wt_epoch w + 1) 0 items q1 =
        (Inr (), q1\<lparr>wq_registrations := rs\<rparr>)" "length rs = MAX_WAIT_ITEMS"
      "occupied rs = occupied (wq_registrations q1) + length items"
      "\<forall>e. Some e \<in> set rs \<longleftrightarrow> Some e \<in> set (wq_registrations q1) \<or>
         (\<exists>i < length items. e = item_registration (wt_id w) (wt_epoch w + 1) i (items ! i))"
    using register_items_ok [OF len fit, of "wt_id w" "wt_epoch w + 1" 0] by auto
  have "register q w items = (Inr (), q1\<lparr>wq_registrations := rs\<rparr>,
      w\<lparr>wt_epoch := wt_epoch w + 1, wt_state := Waiter_Blocked\<rparr>)"
    using False rs(1) by (simp add: register_def q1_def cancel_waiter_def Let_def)
  moreover have "wait_inv (q1\<lparr>wq_registrations := rs\<rparr>)"
    using inv1 rs(2,3) False by (simp add: wait_inv_def)
  ultimately show ?thesis using False rs(4) by auto
qed

lemma cancel_waiter_gone:
  "Some e \<in> set (wq_registrations (cancel_waiter q wid)) \<longleftrightarrow>
     Some e \<in> set (wq_registrations q) \<and> wr_waiter_id e \<noteq> wid"
  "Some k \<in> set (wq_wakeups (cancel_waiter q wid)) \<longleftrightarrow>
     Some k \<in> set (wq_wakeups q) \<and> ww_waiter_id k \<noteq> wid"
  by (simp_all add: cancel_waiter_def clear_wakeup_for_waiter_def clear_for_waiter_def
      set_drop_where)

text \<open>The slots that the registrations and the queued wakeups of the other waiters take.\<close>

definition load_of_others :: "wait_registry \<Rightarrow> u32 \<Rightarrow> nat" where
  "load_of_others q wid =
     length (filter (\<lambda>x. case x of None \<Rightarrow> False | Some e \<Rightarrow> wr_waiter_id e \<noteq> wid) (wq_registrations q)) +
     length (filter (\<lambda>x. case x of None \<Rightarrow> False | Some k \<Rightarrow> ww_waiter_id k \<noteq> wid) (wq_wakeups q))"

text \<open>What a registration leaves alone, accepted or refused.\<close>

lemma register_refused:
  assumes "wait_inv q" and "register q w items = (Inl err, q1, w1)"
  shows "err = WE_TooMany" and "w1 = w" and "q1 = cancel_waiter q (wt_id w)"
  using register_cases [OF assms(1), of w items] assms(2) by (auto split: if_splits)

lemma register_accepted:
  assumes inv: "wait_inv q" and reg: "register q w items = (Inr u, q1, w1)"
  shows "wait_inv q1" and "w1 = w\<lparr>wt_epoch := wt_epoch w + 1, wt_state := Waiter_Blocked\<rparr>"
    and "wr_waiter_id e = wt_id w \<Longrightarrow> Some e \<in> set (wq_registrations q1) \<longleftrightarrow>
      (\<exists>i < length items. e = item_registration (wt_id w) (wt_epoch w + 1) i (items ! i))"
  using register_cases [OF inv, of w items] reg cancel_waiter_gone(1) [of e q "wt_id w"] by (auto split: if_splits)

lemma register_frame:
  assumes inv: "wait_inv q" and reg: "register q w items = (res, q1, w1)"
  shows "(\<exists>err. res = Inl err) \<longleftrightarrow> MAX_WAIT_WAKEUPS < load_of_others q (wt_id w) + length items"
    and "wr_waiter_id e \<noteq> wt_id w \<Longrightarrow> Some e \<in> set (wq_registrations q1) \<longleftrightarrow> Some e \<in> set (wq_registrations q)"
    and "ww_waiter_id k \<noteq> wt_id w \<Longrightarrow> Some k \<in> set (wq_wakeups q1) \<longleftrightarrow> Some k \<in> set (wq_wakeups q)"
proof -
  let ?q = "cancel_waiter q (wt_id w)"
  have "occupied (wq_registrations ?q) + occupied (wq_wakeups ?q) = load_of_others q (wt_id w)"
    by (simp add: cancel_waiter_def clear_wakeup_for_waiter_def clear_for_waiter_def occupied_drop_where load_of_others_def)
  note c = register_cases [OF inv, of w items, unfolded this] and gone = cancel_waiter_gone [of _ q "wt_id w"]
  show "(\<exists>err. res = Inl err) \<longleftrightarrow> MAX_WAIT_WAKEUPS < load_of_others q (wt_id w) + length items"
    using c reg by (auto split: if_splits)
  show "Some e \<in> set (wq_registrations q1) \<longleftrightarrow> Some e \<in> set (wq_registrations q)" if "wr_waiter_id e \<noteq> wt_id w"
    using c reg that gone(1) [of e] by (auto simp: item_registration_def split: if_splits)
  show "Some k \<in> set (wq_wakeups q1) \<longleftrightarrow> Some k \<in> set (wq_wakeups q)" if "ww_waiter_id k \<noteq> wt_id w"
    using c reg that gone(2) [of k] by (auto split: if_splits)
qed

section \<open>No lost wakeup\<close>

definition wake_of :: "signals \<Rightarrow> wait_registration \<Rightarrow> wait_wake" where
  "wake_of sigs e = \<lparr>ww_waiter_id = wr_waiter_id e, ww_epoch = wr_epoch e,
     ww_outcome = \<lparr>wo_index = wr_index e, wo_observed = sigs\<rparr>\<rparr>"

lemma same_wait_wake_of [simp]: "same_wait e (wake_of sigs e)"
  by (simp add: same_wait_def wake_of_def)

lemma wakeups_queue_wakeup:
  assumes "position (\<lambda>k. k = None) (wq_wakeups q) = Some j"
  shows "Some k \<in> set (wq_wakeups (queue_wakeup q j e sigs)) \<longleftrightarrow>
    Some k \<in> set (wq_wakeups q) \<or> k = wake_of sigs e"
  using set_fill_slot [OF assms, of k "wake_of sigs e"] by (simp add: queue_wakeup_def wake_of_def)

lemma wait_inv_queue_wakeup:
  assumes inv: "wait_inv q" and e: "Some e \<in> set (wq_registrations q)"
    and j: "position (\<lambda>k. k = None) (wq_wakeups q) = Some j"
  shows "wait_inv (drop_registration e (queue_wakeup q j e sigs))"
proof -
  have "occupied (wq_wakeups (queue_wakeup q j e sigs)) = Suc (occupied (wq_wakeups q))"
    using occupied_fill_slot [OF j] by (simp add: queue_wakeup_def)
  moreover have "occupied (wq_registrations (drop_registration e (queue_wakeup q j e sigs))) <
      occupied (wq_registrations q)"
    using occupied_drop_where_less [OF e] by (simp add: drop_registration_def queue_wakeup_def)
  ultimately show ?thesis using inv
    by (simp add: wait_inv_def drop_registration_def queue_wakeup_def)
qed

lemma registrations_drop_registration:
  "Some x \<in> set (wq_registrations (drop_registration e q)) \<longleftrightarrow>
     Some x \<in> set (wq_registrations q) \<and>
     \<not> (wr_waiter_id x = wr_waiter_id e \<and> wr_epoch x = wr_epoch e)"
  by (simp add: drop_registration_def set_drop_where)

lemma wakeups_drop_registration [simp]: "wq_wakeups (drop_registration e q) = wq_wakeups q"
  by (simp add: drop_registration_def)

lemma registrations_queue_wakeup [simp]:
  "wq_registrations (queue_wakeup q j e sigs) = wq_registrations q"
  by (simp add: queue_wakeup_def)

text \<open>The waits that a notification ends: those with a matching registration.\<close>

definition wait_ends :: "object_id \<Rightarrow> signals \<Rightarrow> wait_registry \<Rightarrow> wait_registration \<Rightarrow> bool" where
  "wait_ends ob sigs q e \<longleftrightarrow> (\<exists>m. Some m \<in> set (wq_registrations q) \<and> registration_matches ob sigs m \<and>
     wr_waiter_id m = wr_waiter_id e \<and> wr_epoch m = wr_epoch e)"

text \<open>What a run of the loop from any index achieves, when the registrations below the index
  do not match. \<open>woken_or_kept\<close> relates the registry before and after.\<close>

definition woken_or_kept :: "object_id \<Rightarrow> signals \<Rightarrow> wait_registry \<Rightarrow> wait_registry \<Rightarrow> bool" where
  "woken_or_kept ob sigs q q' \<longleftrightarrow> wait_inv q' \<and>
     (\<forall>k. Some k \<in> set (wq_wakeups q) \<longrightarrow> Some k \<in> set (wq_wakeups q')) \<and>
     (\<forall>k. Some k \<in> set (wq_wakeups q') \<longrightarrow> Some k \<in> set (wq_wakeups q) \<or>
        (\<exists>e. Some e \<in> set (wq_registrations q) \<and> registration_matches ob sigs e \<and>
           k = wake_of sigs e)) \<and>
     wq_registrations q' = drop_where (wait_ends ob sigs q) (wq_registrations q) \<and>
     (\<forall>e. Some e \<in> set (wq_registrations q) \<and> wait_ends ob sigs q e \<longrightarrow> woken q' e)"

lemma woken_mono:
  "woken q e \<Longrightarrow> (\<And>k. Some k \<in> set (wq_wakeups q) \<Longrightarrow> Some k \<in> set (wq_wakeups q')) \<Longrightarrow> woken q' e"
  by (auto simp: woken_def)

lemma woken_or_kept_drop:
  assumes w: "woken_or_kept ob sigs (drop_registration e q1) q'"
    and regs: "wq_registrations q1 = wq_registrations q"
    and wakes: "\<And>k. Some k \<in> set (wq_wakeups q1) \<longleftrightarrow>
      Some k \<in> set (wq_wakeups q) \<or> k \<in> new"
    and new: "\<And>k. k \<in> new \<Longrightarrow> k = wake_of sigs e"
    and reg: "Some e \<in> set (wq_registrations q)" "registration_matches ob sigs e"
    and e: "woken q1 e"
  shows "woken_or_kept ob sigs q q'"
proof -
  have "woken q' x" if "wr_waiter_id x = wr_waiter_id e" "wr_epoch x = wr_epoch e" for x
  proof -
    have "woken q1 x" using e that by (auto simp: woken_def same_wait_def)
    then show ?thesis by (rule woken_mono) (use w in \<open>simp add: woken_or_kept_def\<close>)
  qed
  moreover have "Some k \<in> set (wq_wakeups q) \<or>
      (\<exists>e. Some e \<in> set (wq_registrations q) \<and> registration_matches ob sigs e \<and> k = wake_of sigs e)"
    if "Some k \<in> set (wq_wakeups q')" for k
    using that w wakes [of k] new [of k] reg
    by (auto simp: woken_or_kept_def registrations_drop_registration regs)
  moreover have ends: "wait_ends ob sigs q x \<longleftrightarrow>
      wr_waiter_id x = wr_waiter_id e \<and> wr_epoch x = wr_epoch e \<or> wait_ends ob sigs (drop_registration e q1) x" for x
    using reg by (auto simp: wait_ends_def registrations_drop_registration regs)
  moreover have "wq_registrations q' = drop_where (wait_ends ob sigs q) (wq_registrations q)"
  proof -
    have "wq_registrations q' = drop_where (wait_ends ob sigs (drop_registration e q1))
        (drop_where (\<lambda>x. wr_waiter_id x = wr_waiter_id e \<and> wr_epoch x = wr_epoch e) (wq_registrations q))"
      using w by (simp add: woken_or_kept_def drop_registration_def regs)
    then show ?thesis unfolding drop_where_drop_where by (simp add: ends [symmetric] cong: drop_where_cong)
  qed
  ultimately show ?thesis using w wakes
    by (auto simp: woken_or_kept_def registrations_drop_registration regs)
qed

lemma notify_loop_correct:
  assumes "wait_inv q"
    and "\<And>j e. j < i \<Longrightarrow> wq_registrations q ! j = Some e \<Longrightarrow> \<not> registration_matches ob sigs e"
  shows "woken_or_kept ob sigs q (fst (notify_loop q ob sigs i notified))"
  using assms
proof (induction q ob sigs i notified rule: notify_loop.induct)
  case (1 q ob sigs i notified)
  show ?case
  proof (cases "i < length (wq_registrations q)")
    case False
    have "\<not> registration_matches ob sigs e" if "Some e \<in> set (wq_registrations q)" for e
    proof -
      from that obtain j where "j < length (wq_registrations q)" "wq_registrations q ! j = Some e"
        by (metis in_set_conv_nth)
      then show ?thesis using 1(7) [of j e] False by simp
    qed
    then have "\<not> wait_ends ob sigs q e" for e by (auto simp: wait_ends_def)
    then show ?thesis using 1(6) False
      by (simp add: notify_loop.simps [of q] woken_or_kept_def drop_where_none)
  next
    case len: True
    show ?thesis
    proof (cases "wq_registrations q ! i")
      case None
      have "woken_or_kept ob sigs q (fst (notify_loop q ob sigs (Suc i) notified))"
        by (rule 1(1) [OF len None 1(6)]) (use None 1(7) in \<open>auto simp: less_Suc_eq\<close>)
      then show ?thesis using len None by (simp add: notify_loop.simps [of q ob sigs i])
    next
      case (Some e)
      have e: "Some e \<in> set (wq_registrations q)" using Some len by (metis nth_mem)
      consider (skip) "\<not> registration_matches ob sigs e"
        | (queued) "registration_matches ob sigs e" "already_queued q e"
        | (wake) "registration_matches ob sigs e" "\<not> already_queued q e" by blast
      then show ?thesis
      proof cases
        case skip
        have "woken_or_kept ob sigs q (fst (notify_loop q ob sigs (Suc i) notified))"
          by (rule 1(2) [OF len Some skip 1(6)]) (use Some skip 1(7) in \<open>auto simp: less_Suc_eq\<close>)
        then show ?thesis using len Some skip by (simp add: notify_loop.simps [of q ob sigs i])
      next
        case queued
        have "woken_or_kept ob sigs (drop_registration e q)
            (fst (notify_loop (drop_registration e q) ob sigs 0 notified))"
          by (rule 1(3) [OF len Some]) (use queued 1(6) in
            \<open>auto simp: drop_registration_def intro: wait_inv_drop_registrations\<close>)
        then have "woken_or_kept ob sigs q
            (fst (notify_loop (drop_registration e q) ob sigs 0 notified))"
          by (rule woken_or_kept_drop [where new = "{}"]) (use queued e in
            \<open>auto simp: already_queued_def woken_def list_ex_iff split: option.splits\<close>)
        then show ?thesis using len Some queued by (simp add: notify_loop.simps [of q ob sigs i])
      next
        case wake
        obtain j where j: "position (\<lambda>k. k = None) (wq_wakeups q) = Some j"
          using free_slot_exists [of "wq_wakeups q"] occupied_pos [OF e] 1(6)
          by (auto simp: wait_inv_def)
        let ?q1 = "drop_registration e (queue_wakeup q j e sigs)"
        have "woken_or_kept ob sigs ?q1 (fst (notify_loop ?q1 ob sigs 0 True))"
          by (rule 1(5) [OF len Some _ _ j]) (use wake wait_inv_queue_wakeup [OF 1(6) e j] in auto)
        then have "woken_or_kept ob sigs q (fst (notify_loop ?q1 ob sigs 0 True))"
          by (rule woken_or_kept_drop [where new = "{wake_of sigs e}"])
             (use wakeups_queue_wakeup [OF j] wake(1) e in \<open>auto simp: woken_def\<close>)
        then show ?thesis using len Some wake j by (simp add: notify_loop.simps [of q ob sigs i])
      qed
    qed
  qed
qed

lemma notify_correct: "wait_inv q \<Longrightarrow> woken_or_kept ob sigs q (snd (notify q ob sigs))"
  using notify_loop_correct [of q 0 ob sigs False] by (auto simp: notify_def split: prod.splits)

lemma notify_inv: "wait_inv q \<Longrightarrow> wait_inv (snd (notify q ob sigs))"
  using notify_correct by (simp add: woken_or_kept_def)

lemma woken_ids_set: "set (woken_ids ks ids) = set ids \<union> {ww_waiter_id k |k. Some k \<in> set ks}"
  by (induction ks ids rule: woken_ids.induct) auto

lemma woken_ids_distinct: "distinct ids \<Longrightarrow> distinct (woken_ids ks ids)"
  by (induction ks ids rule: woken_ids.induct) auto

lemma woken_ids_length: "length (woken_ids ks ids) \<le> length ids + occupied ks"
  by (induction ks ids rule: woken_ids.induct) (auto simp: occupied_def)


lemma sync_woken:
  assumes "Some k \<in> set (wq_wakeups q)" and "ww_waiter_id k = wt_id w" and "ww_epoch k = wt_epoch w"
  obtains k' q' where
    "waiter_sync w q =
       (True, w\<lparr>wt_wake := Some (ww_outcome k'), wt_state := Waiter_Runnable\<rparr>, q')"
    and "Some k' \<in> set (wq_wakeups q)" and "ww_waiter_id k' = wt_id w" and "ww_epoch k' = wt_epoch w"
proof -
  let ?P = "\<lambda>wake. case wake of None \<Rightarrow> False
      | Some k \<Rightarrow> ww_waiter_id k = wt_id w \<and> ww_epoch k = wt_epoch w"
  obtain i where i: "position ?P (wq_wakeups q) = Some i"
    using position_exists [OF assms(1), of ?P] assms(2,3) by auto
  then obtain k' where k': "wq_wakeups q ! i = Some k'" "ww_waiter_id k' = wt_id w"
    "ww_epoch k' = wt_epoch w"
    using position_SomeD(2) [OF i] by (auto split: option.splits)
  then have "Some k' \<in> set (wq_wakeups q)" using position_SomeD(1) [OF i] by (metis nth_mem)
  with k' i show ?thesis by (intro that [of k']) (simp_all add: waiter_sync_def)
qed

text \<open>A registered waiter that is notified of signals it waits for is woken by them.\<close>

lemma register_then_notify:
  fixes items :: "'src wait_item list"
  assumes inv: "wait_inv q" and ok: "register q w items = (Inr (), q1, w1)"
    and nt: "notify q1 ob sigs = (n, q2)" and i: "i < length items"
    and ready: "wi_object (items ! i) = ob" "signals_intersects (wi_interests (items ! i)) sigs"
  shows "\<not> waiter_is_runnable w1 \<and> (\<exists>w2 q3 j. waiter_sync w1 q2 = (True, w2, q3) \<and>
        waiter_is_runnable w2 \<and> wt_wake w2 = Some \<lparr>wo_index = j, wo_observed = sigs\<rparr> \<and>
        j < length items \<and> wi_object (items ! j) = ob \<and>
        signals_intersects (wi_interests (items ! j)) sigs)"
proof -
  let ?q0 = "cancel_waiter q (wt_id w)"
  obtain rs where q1: "q1 = ?q0\<lparr>wq_registrations := rs\<rparr>" and inv1: "wait_inv q1"
    and w1: "w1 = w\<lparr>wt_epoch := wt_epoch w + 1, wt_state := Waiter_Blocked\<rparr>"
    and rs: "\<And>e. Some e \<in> set rs \<longleftrightarrow> Some e \<in> set (wq_registrations ?q0) \<or>
      (\<exists>i < length items. e = item_registration (wt_id w) (wt_epoch w + 1) i (items ! i))"
    using register_cases [OF inv, of w items] ok by (auto split: if_splits)
  let ?e = "item_registration (wt_id w) (wt_epoch w + 1) i (items ! i)"
  have nc: "woken_or_kept ob sigs q1 q2" using notify_correct [OF inv1, of ob sigs] nt by simp
  have "Some ?e \<in> set (wq_registrations q1)" using rs [of ?e] i q1 by auto
  moreover have "registration_matches ob sigs ?e"
    using ready by (simp add: registration_matches_def item_registration_def)
  ultimately have "wait_ends ob sigs q1 ?e" by (auto simp: wait_ends_def)
  then have "woken q2 ?e" using nc \<open>Some ?e \<in> set (wq_registrations q1)\<close> unfolding woken_or_kept_def by blast
  then obtain k where k: "Some k \<in> set (wq_wakeups q2)" "ww_waiter_id k = wt_id w1"
    "ww_epoch k = wt_epoch w1"
    by (auto simp: woken_def same_wait_def item_registration_def w1)
  then obtain k' q3 where sync: "waiter_sync w1 q2 =
      (True, w1\<lparr>wt_wake := Some (ww_outcome k'), wt_state := Waiter_Runnable\<rparr>, q3)"
    and k': "Some k' \<in> set (wq_wakeups q2)" "ww_waiter_id k' = wt_id w1"
    by (rule sync_woken)
  have "Some k' \<notin> set (wq_wakeups q1)"
    using k'(2) cancel_waiter_gone(2) [of k' q "wt_id w"] by (simp add: q1 w1)
  then obtain e' where e': "Some e' \<in> set rs" "registration_matches ob sigs e'"
    "k' = wake_of sigs e'"
    using nc k'(1) q1 unfolding woken_or_kept_def by auto
  then have "wr_waiter_id e' = wt_id w" using k'(2) by (simp add: wake_of_def w1)
  then obtain j where "j < length items"
    "e' = item_registration (wt_id w) (wt_epoch w + 1) j (items ! j)"
    using rs [of e'] e'(1) cancel_waiter_gone(1) [of e' q "wt_id w"] by auto
  then show ?thesis using sync e'(2,3) w1
    by (auto simp: waiter_is_runnable_def registration_matches_def item_registration_def wake_of_def)
qed

section \<open>Properties\<close>

text \<open>C15. No wakeup is lost. When registrations and queued wakeups together fit the wakeup array,
  which every operation preserves, \<open>notify\<close> ends exactly the waits that have a registration which matches the
  object and intersects the signals. Every registration of such a wait, matching or not, is removed
  from its slot, and a wakeup of the wait is queued; every other slot is unchanged. Every wakeup already
  queued is kept, and none is added without a matching registration. The branch that skips a
  registration because the wakeup array is full is never taken.\<close>

theorem notify_loses_no_wakeup:
  assumes "wait_inv q" and "notify q ob sigs = (n, q')"
  defines "ended e \<equiv> \<exists>m. Some m \<in> set (wq_registrations q) \<and> wr_object m = ob \<and>
    wr_interests m AND sigs \<noteq> 0 \<and> wr_waiter_id m = wr_waiter_id e \<and> wr_epoch m = wr_epoch e"
  shows "wait_inv q' \<and>
    wq_registrations q' = map (\<lambda>slot. case slot of None \<Rightarrow> None | Some e \<Rightarrow> if ended e then None else Some e)
      (wq_registrations q) \<and>
    (\<forall>e. Some e \<in> set (wq_registrations q) \<and> ended e \<longrightarrow>
       (\<exists>k. Some k \<in> set (wq_wakeups q') \<and> ww_waiter_id k = wr_waiter_id e \<and> ww_epoch k = wr_epoch e)) \<and>
    (\<forall>k. Some k \<in> set (wq_wakeups q) \<longrightarrow> Some k \<in> set (wq_wakeups q')) \<and>
    (\<forall>k. Some k \<in> set (wq_wakeups q') \<and> Some k \<notin> set (wq_wakeups q) \<longrightarrow>
       (\<exists>e. Some e \<in> set (wq_registrations q) \<and> wr_object e = ob \<and> wr_interests e AND sigs \<noteq> 0 \<and>
          k = \<lparr>ww_waiter_id = wr_waiter_id e, ww_epoch = wr_epoch e,
               ww_outcome = \<lparr>wo_index = wr_index e, wo_observed = sigs\<rparr>\<rparr>))"
proof -
  have "woken_or_kept ob sigs q q'" using notify_correct [OF assms(1), of ob sigs] assms(2) by simp
  moreover have "wait_ends ob sigs q = ended"
    by (auto simp: fun_eq_iff wait_ends_def ended_def registration_matches_def signals_intersects_def)
  ultimately show ?thesis
    unfolding woken_or_kept_def woken_def same_wait_def wake_of_def drop_where_def
      registration_matches_def signals_intersects_def by simp blast
qed

definition sample_event :: object_id where
  "sample_event = \<lparr>oid_slot = 4, oid_generation = 1, oid_kind = KEvent\<rparr>"

definition sample_item :: "unit wait_item" where
  "sample_item = \<lparr>wi_source = (), wi_object = sample_event, wi_interests = SIGNALS_SIGNALED,
     wi_observed = 0\<rparr>"

text \<open>A wait for two objects: a notification of one of them removes both registrations.\<close>

theorem notify_loses_no_wakeup_witness:
  "let r = \<lparr>wr_waiter_id = 3, wr_epoch = 1, wr_object = sample_event, wr_interests = SIGNALS_SIGNALED, wr_index = 0\<rparr>;
       q = \<lparr>wq_registrations = [Some r, Some (r\<lparr>wr_object := sample_event\<lparr>oid_slot := 5\<rparr>, wr_index := 1\<rparr>),
              Some (r\<lparr>wr_waiter_id := 4, wr_interests := SIGNALS_FIRED\<rparr>), None, None, None, None, None],
            wq_wakeups = [None, None, None, None, None, None, None, None]\<rparr>
   in wait_inv q \<and>
      wq_registrations (snd (notify q sample_event SIGNALS_SIGNALED)) =
        [None, None, Some (r\<lparr>wr_waiter_id := 4, wr_interests := SIGNALS_FIRED\<rparr>), None, None, None, None, None]"
proof -
  define r where "r = \<lparr>wr_waiter_id = 3, wr_epoch = 1, wr_object = sample_event, wr_interests = SIGNALS_SIGNALED,
    wr_index = 0\<rparr>"
  define q where "q = \<lparr>wq_registrations = [Some r, Some (r\<lparr>wr_object := sample_event\<lparr>oid_slot := 5\<rparr>, wr_index := 1\<rparr>),
      Some (r\<lparr>wr_waiter_id := 4, wr_interests := SIGNALS_FIRED\<rparr>), None, None, None, None, None],
    wq_wakeups = [None, None, None, None, None, None, None, None]\<rparr>"
  have inv: "wait_inv q"
    by (simp add: q_def wait_inv_def occupied_def MAX_WAIT_WAKEUPS_def MAX_WAIT_ITEMS_def)
  obtain n q' where n: "notify q sample_event SIGNALS_SIGNALED = (n, q')" by fastforce
  have "wq_registrations q' =
      [None, None, Some (r\<lparr>wr_waiter_id := 4, wr_interests := SIGNALS_FIRED\<rparr>), None, None, None, None, None]"
    using notify_loses_no_wakeup [OF inv n] by (simp add: q_def r_def signals_defs ex_disj_distrib conj_disj_distribR)
  with inv n show ?thesis by (simp add: q_def r_def Let_def)
qed

text \<open>C25. A blocked waiter is woken by the event it waits for. If \<open>register\<close> accepts the items of
  a waiter and the registry is then notified of signals in which one of the items is interested,
  \<open>sync\<close> finds the wakeup, makes the waiter runnable and gives it an outcome that names one of its
  own items with that object and those interests, never a stale wakeup of an earlier wait. A wait is
  refused exactly if its items do not fit beside the registrations and wakeups of the other waiters;
  the waiter is then unchanged and has neither registration nor wakeup. Accepted or refused, the
  registrations and the queued wakeups of all other waiters stay as they are.\<close>

theorem register_notify_sync:
  fixes items :: "'src wait_item list"
  assumes inv: "wait_inv q" and reg: "register q w items = (res, q1, w1)"
    and nt: "notify q1 ob sigs = (n, q2)" and i: "i < length items"
    and ready: "wi_object (items ! i) = ob" "signals_intersects (wi_interests (items ! i)) sigs"
  shows "(case res of
      Inr _ \<Rightarrow> \<not> waiter_is_runnable w1 \<and> (\<exists>w2 q3 j. waiter_sync w1 q2 = (True, w2, q3) \<and>
        waiter_is_runnable w2 \<and> wt_wake w2 = Some \<lparr>wo_index = j, wo_observed = sigs\<rparr> \<and>
        j < length items \<and> wi_object (items ! j) = ob \<and>
        signals_intersects (wi_interests (items ! j)) sigs)
    | Inl err \<Rightarrow> err = WE_TooMany \<and> w1 = w \<and>
        (\<forall>e. Some e \<in> set (wq_registrations q1) \<longrightarrow> wr_waiter_id e \<noteq> wt_id w) \<and>
        (\<forall>k. Some k \<in> set (wq_wakeups q1) \<longrightarrow> ww_waiter_id k \<noteq> wt_id w)) \<and>
    ((\<exists>err. res = Inl err) \<longleftrightarrow> MAX_WAIT_WAKEUPS < load_of_others q (wt_id w) + length items) \<and>
    (\<forall>e. wr_waiter_id e \<noteq> wt_id w \<longrightarrow>
       (Some e \<in> set (wq_registrations q1) \<longleftrightarrow> Some e \<in> set (wq_registrations q))) \<and>
    (\<forall>k. ww_waiter_id k \<noteq> wt_id w \<longrightarrow> (Some k \<in> set (wq_wakeups q1) \<longleftrightarrow> Some k \<in> set (wq_wakeups q)))"
proof (intro conjI)
  note frame = register_frame [OF inv reg]
  show "(\<exists>err. res = Inl err) \<longleftrightarrow> MAX_WAIT_WAKEUPS < load_of_others q (wt_id w) + length items"
    by (rule frame(1))
  show "\<forall>e. wr_waiter_id e \<noteq> wt_id w \<longrightarrow>
       (Some e \<in> set (wq_registrations q1) \<longleftrightarrow> Some e \<in> set (wq_registrations q))"
    and "\<forall>k. ww_waiter_id k \<noteq> wt_id w \<longrightarrow> (Some k \<in> set (wq_wakeups q1) \<longleftrightarrow> Some k \<in> set (wq_wakeups q))"
    using frame(2,3) by simp_all
  show "case res of
      Inr _ \<Rightarrow> \<not> waiter_is_runnable w1 \<and> (\<exists>w2 q3 j. waiter_sync w1 q2 = (True, w2, q3) \<and>
        waiter_is_runnable w2 \<and> wt_wake w2 = Some \<lparr>wo_index = j, wo_observed = sigs\<rparr> \<and>
        j < length items \<and> wi_object (items ! j) = ob \<and>
        signals_intersects (wi_interests (items ! j)) sigs)
    | Inl err \<Rightarrow> err = WE_TooMany \<and> w1 = w \<and>
        (\<forall>e. Some e \<in> set (wq_registrations q1) \<longrightarrow> wr_waiter_id e \<noteq> wt_id w) \<and>
        (\<forall>k. Some k \<in> set (wq_wakeups q1) \<longrightarrow> ww_waiter_id k \<noteq> wt_id w)"
  proof (cases res)
    case (Inl err)
    then show ?thesis using register_refused [OF inv, of w items err q1 w1] reg by (simp add: cancel_waiter_gone)
  next
    case (Inr u)
    then show ?thesis using register_then_notify [OF inv _ nt i ready] reg by simp
  qed
qed

theorem register_notify_sync_witness:
  "case register wait_registry_new (waiter_new 3) [sample_item] of (res, q1, w1) \<Rightarrow>
     (case notify q1 sample_event SIGNALS_SIGNALED of (n, q2) \<Rightarrow>
        fst (waiter_sync w1 q2) \<and> waiter_is_runnable (fst (snd (waiter_sync w1 q2))))"
proof -
  obtain q1 w1 where reg: "register wait_registry_new (waiter_new 3) [sample_item] = (Inr (), q1, w1)"
    by (simp add: register_def wait_registry_new_def waiter_new_def Let_def
        clear_for_waiter_def clear_wakeup_for_waiter_def drop_where_def occupied_def
        MAX_WAIT_WAKEUPS_def MAX_WAIT_ITEMS_def numeral_eq_Suc)
  obtain n q2 where nt: "notify q1 sample_event SIGNALS_SIGNALED = (n, q2)" by fastforce
  have "wi_object ([sample_item] ! 0) = sample_event"
    "signals_intersects (wi_interests ([sample_item] ! 0)) SIGNALS_SIGNALED"
    by (simp_all add: sample_item_def signals_intersects_def signals_defs)
  from register_notify_sync [OF wait_inv_new reg nt _ this] show ?thesis
    using reg nt by auto
qed

end
