(* ===== verification/Channel.thy ===== *)
theory Channel
  imports Handles Wait_Registry
begin

text \<open>
  Channels of \<open>kernel/src/ipc.rs\<close>: messages, the ring buffer of queued messages, and a channel
  pair with one queue per direction. A send checks every transfer before it moves the first one; a
  receive checks capacity and every token before it installs the first one, and has a rollback for
  an install that fails all the same. The lemmas show that the checks are enough: an operation
  that returns an error has changed nothing and the rollback is never needed. The ring buffer
  refines a bounded first-in first-out list through the locale \<open>bounded_fifo\<close>, and the objects in
  transit are accounted for like the objects in the tables.
\<close>

section \<open>Messages\<close>

definition MAX_QUEUE :: nat where "MAX_QUEUE = 8"
definition MAX_INLINE_PAYLOAD :: nat where "MAX_INLINE_PAYLOAD = 128"
definition MAX_TRANSFER_HANDLES :: nat where "MAX_TRANSFER_HANDLES = 4"

datatype channel_error =
    CE_InvalidEndpoint | CE_Stale | CE_RightsMissing | CE_QueueFull | CE_Empty
  | CE_MessageTooLarge | CE_TooManyTransfers | CE_DuplicateTransfer | CE_ReceiverFull
  | CE_ObjectStale

definition channel_error_from :: "handle_error \<Rightarrow> channel_error" where
  "channel_error_from e =
     (case e of
        HE_Stale \<Rightarrow> CE_Stale
      | HE_Closed \<Rightarrow> CE_Stale
      | HE_Invalid \<Rightarrow> CE_Stale
      | HE_WrongType \<Rightarrow> CE_InvalidEndpoint
      | HE_RightsMissing \<Rightarrow> CE_RightsMissing
      | HE_TableFull \<Rightarrow> CE_ReceiverFull
      | HE_ReceiverFull \<Rightarrow> CE_ReceiverFull
      | _ \<Rightarrow> CE_ObjectStale)"

record message_header =
  mh_protocol_id :: u16
  mh_version :: u16
  mh_request_id :: u64
  mh_opcode :: u16
  mh_flags :: u16

record handle_disposition =
  hd_source :: handle
  hd_rights :: rights

record outgoing_message =
  om_header :: message_header
  om_payload :: "u8 list"
  om_payload_len :: nat
  om_transfers :: "handle_disposition option list"
  om_transfer_count :: nat

definition outgoing_new :: "message_header \<Rightarrow> outgoing_message" where
  "outgoing_new header =
     \<lparr>om_header = header, om_payload = replicate MAX_INLINE_PAYLOAD 0, om_payload_len = 0,
      om_transfers = replicate MAX_TRANSFER_HANDLES None, om_transfer_count = 0\<rparr>"

definition set_payload ::
  "outgoing_message \<Rightarrow> u8 list \<Rightarrow> (channel_error, unit) result \<times> outgoing_message" where
  "set_payload m payload =
     (if MAX_INLINE_PAYLOAD < length payload then (Inl CE_MessageTooLarge, m)
      else (Inr (), m\<lparr>om_payload := payload @ drop (length payload) (om_payload m),
                     om_payload_len := length payload\<rparr>))"

definition add_transfer ::
  "outgoing_message \<Rightarrow> handle \<Rightarrow> rights \<Rightarrow> (channel_error, unit) result \<times> outgoing_message" where
  "add_transfer m source rights =
     (case array_get (om_transfers m) (om_transfer_count m) of
        None \<Rightarrow> (Inl CE_TooManyTransfers, m)
      | Some _ \<Rightarrow>
          (Inr (), m\<lparr>om_transfers := (om_transfers m)
             [om_transfer_count m := Some \<lparr>hd_source = source, hd_rights = rights\<rparr>],
             om_transfer_count := om_transfer_count m + 1\<rparr>))"

record received_message =
  rm_sender_process_id :: u32
  rm_header :: message_header
  rm_payload :: "u8 list"
  rm_payload_len :: nat
  rm_handles :: "handle option list"
  rm_handle_count :: nat

definition received_payload :: "received_message \<Rightarrow> u8 list" where
  "received_payload m = take (rm_payload_len m) (rm_payload m)"

definition received_handle :: "received_message \<Rightarrow> nat \<Rightarrow> handle option" where
  "received_handle m index =
     (case array_get (rm_handles m) index of None \<Rightarrow> None | Some h \<Rightarrow> h)"

record queued_message =
  qm_sender_process_id :: u32
  qm_header :: message_header
  qm_payload :: "u8 list"
  qm_payload_len :: nat
  qm_tokens :: "transfer_token option list"
  qm_token_count :: nat

section \<open>The ring buffer\<close>

record queue =
  qu_entries :: "queued_message option list"
  qu_head :: nat
  qu_tail :: nat
  qu_length :: nat

definition queue_new :: queue where
  "queue_new =
     \<lparr>qu_entries = replicate MAX_QUEUE None, qu_head = 0, qu_tail = 0, qu_length = 0\<rparr>"

definition queue_push :: "queue \<Rightarrow> queued_message \<Rightarrow> (channel_error, unit) result \<times> queue" where
  "queue_push q m =
     (if qu_length q = MAX_QUEUE then (Inl CE_QueueFull, q)
      else (Inr (), q\<lparr>qu_entries := (qu_entries q)[qu_tail q := Some m],
                     qu_tail := (qu_tail q + 1) mod MAX_QUEUE,
                     qu_length := qu_length q + 1\<rparr>))"

definition queue_peek :: "queue \<Rightarrow> queued_message option" where
  "queue_peek q = qu_entries q ! qu_head q"

text \<open>\<open>token_mut\<close>: the token slot of the message at the head, and the write through it.\<close>

definition queue_token :: "queue \<Rightarrow> nat \<Rightarrow> transfer_token option option" where
  "queue_token q index =
     (case qu_entries q ! qu_head q of
        None \<Rightarrow> None
      | Some m \<Rightarrow> array_get (qm_tokens m) index)"

definition queue_put_token :: "queue \<Rightarrow> nat \<Rightarrow> transfer_token option \<Rightarrow> queue" where
  "queue_put_token q index token =
     (case qu_entries q ! qu_head q of
        None \<Rightarrow> q
      | Some m \<Rightarrow> q\<lparr>qu_entries := (qu_entries q)
          [qu_head q := Some (m\<lparr>qm_tokens := (qm_tokens m)[index := token]\<rparr>)]\<rparr>)"

definition queue_pop :: "queue \<Rightarrow> queued_message option \<times> queue" where
  "queue_pop q =
     (case qu_entries q ! qu_head q of
        None \<Rightarrow> (None, q)
      | Some m \<Rightarrow>
          (Some m, q\<lparr>qu_entries := (qu_entries q)[qu_head q := None],
                    qu_head := (qu_head q + 1) mod MAX_QUEUE,
                    qu_length := qu_length q - 1\<rparr>))"

definition queue_is_readable :: "queue \<Rightarrow> bool" where
  "queue_is_readable q \<longleftrightarrow> qu_length q \<noteq> 0"

section \<open>The bounded FIFO contract and its ring implementation\<close>

locale bounded_fifo =
  fixes inv :: "'q \<Rightarrow> bool"
    and contents :: "'q \<Rightarrow> 'm list"
    and cap :: nat
    and push :: "'q \<Rightarrow> 'm \<Rightarrow> ('e + unit) \<times> 'q"
    and peek :: "'q \<Rightarrow> 'm option"
    and pop :: "'q \<Rightarrow> 'm option \<times> 'q"
  assumes push_room: "inv q \<Longrightarrow> length (contents q) < cap \<Longrightarrow>
      \<exists>q'. push q m = (Inr (), q') \<and> inv q' \<and> contents q' = contents q @ [m]"
    and push_full: "inv q \<Longrightarrow> length (contents q) = cap \<Longrightarrow> \<exists>e. push q m = (Inl e, q)"
    and peek_head: "inv q \<Longrightarrow>
      peek q = (case contents q of [] \<Rightarrow> None | m # ms \<Rightarrow> Some m)"
    and pop_head: "inv q \<Longrightarrow> contents q = m # ms \<Longrightarrow>
      \<exists>q'. pop q = (Some m, q') \<and> inv q' \<and> contents q' = ms"
    and pop_empty: "inv q \<Longrightarrow> contents q = [] \<Longrightarrow> pop q = (None, q)"
    and bounded: "inv q \<Longrightarrow> length (contents q) \<le> cap"
begin

text \<open>Messages pushed into an empty queue come out in the order they went in.\<close>

lemma push_list:
  assumes "inv q" and "length (contents q) + length ms \<le> cap"
  shows "inv (fold (\<lambda>m q. snd (push q m)) ms q) \<and>
    contents (fold (\<lambda>m q. snd (push q m)) ms q) = contents q @ ms"
  using assms
proof (induction ms arbitrary: q)
  case Nil
  then show ?case by simp
next
  case (Cons m ms)
  then obtain q' where "push q m = (Inr (), q')" "inv q'" "contents q' = contents q @ [m]"
    using push_room [of q m] by auto
  then show ?case using Cons.IH [of q'] Cons.prems by simp
qed

lemma push_then_pop:
  assumes "inv q" and "contents q = []" and "length ms \<le> cap" and "i < length ms"
  shows "fst (pop (((\<lambda>q. snd (pop q)) ^^ i) (fold (\<lambda>m q. snd (push q m)) ms q))) = Some (ms ! i)"
proof -
  define q0 where "q0 = fold (\<lambda>m q. snd (push q m)) ms q"
  have q0: "inv q0" "contents q0 = ms" using push_list [OF assms(1)] assms(2,3) by (auto simp: q0_def)
  have "inv (((\<lambda>q. snd (pop q)) ^^ j) q0) \<and> contents (((\<lambda>q. snd (pop q)) ^^ j) q0) = drop j ms"
    if "j \<le> length ms" for j
    using that
  proof (induction j)
    case 0
    then show ?case using q0 by simp
  next
    case (Suc j)
    then have "drop j ms = ms ! j # drop (Suc j) ms" by (simp add: Cons_nth_drop_Suc)
    then show ?case using Suc pop_head [of "((\<lambda>q. snd (pop q)) ^^ j) q0"] by fastforce
  qed
  then have "inv (((\<lambda>q. snd (pop q)) ^^ i) q0)"
    and "contents (((\<lambda>q. snd (pop q)) ^^ i) q0) = ms ! i # drop (Suc i) ms"
    using assms(4) by (auto simp: Cons_nth_drop_Suc)
  then show ?thesis using pop_head unfolding q0_def [symmetric] by fastforce
qed

end

text \<open>The occupied slots are the \<open>length\<close> slots from the head on, cyclically.\<close>

definition queue_inv :: "queue \<Rightarrow> bool" where
  "queue_inv q \<longleftrightarrow> length (qu_entries q) = MAX_QUEUE \<and> qu_head q < MAX_QUEUE \<and>
     qu_length q \<le> MAX_QUEUE \<and> qu_tail q = (qu_head q + qu_length q) mod MAX_QUEUE \<and>
     (\<forall>i < MAX_QUEUE. qu_entries q ! ((qu_head q + i) mod MAX_QUEUE) \<noteq> None \<longleftrightarrow> i < qu_length q)"

definition queue_contents :: "queue \<Rightarrow> queued_message list" where
  "queue_contents q =
     map (\<lambda>i. the (qu_entries q ! ((qu_head q + i) mod MAX_QUEUE))) [0..<qu_length q]"

lemma MAX_QUEUE_pos [simp]: "0 < MAX_QUEUE"
  by (simp add: MAX_QUEUE_def)

lemma length_queue_contents [simp]: "length (queue_contents q) = qu_length q"
  by (simp add: queue_contents_def)

lemma ring_index_inj:
  assumes "i < MAX_QUEUE" and "j < MAX_QUEUE"
  shows "(h + i) mod MAX_QUEUE = (h + j) mod MAX_QUEUE \<longleftrightarrow> i = j"
proof
  assume "(h + i) mod MAX_QUEUE = (h + j) mod MAX_QUEUE"
  then have "i mod MAX_QUEUE = j mod MAX_QUEUE" by (simp add: mod_add_left_eq nat_mod_eq_iff)
  then show "i = j" using assms by simp
qed simp


lemma queue_new_inv: "queue_inv queue_new" and queue_new_contents: "queue_contents queue_new = []"
  by (simp_all add: queue_inv_def queue_new_def queue_contents_def)

lemma queue_push_ok:
  assumes inv: "queue_inv q" and room: "qu_length q < MAX_QUEUE"
    and push: "queue_push q m = (x, q')"
  shows "x = Inr ()" and "queue_inv q'" and "queue_contents q' = queue_contents q @ [m]"
    and "qu_entries q' = (qu_entries q)[qu_tail q := Some m]"
    and "qu_tail q < length (qu_entries q)" and "qu_entries q ! qu_tail q = None"
proof -
  let ?at = "\<lambda>i. (qu_head q + i) mod MAX_QUEUE"
  have x: "x = Inr ()" and q': "q' = q\<lparr>qu_entries := (qu_entries q)[qu_tail q := Some m],
      qu_tail := (qu_tail q + 1) mod MAX_QUEUE, qu_length := qu_length q + 1\<rparr>"
    using push room by (auto simp: queue_push_def)
  have len: "length (qu_entries q) = MAX_QUEUE" and tail: "qu_tail q = ?at (qu_length q)"
    and occ: "\<And>i. i < MAX_QUEUE \<Longrightarrow> qu_entries q ! ?at i \<noteq> None \<longleftrightarrow> i < qu_length q"
    using inv by (auto simp: queue_inv_def)
  show "x = Inr ()" "qu_entries q' = (qu_entries q)[qu_tail q := Some m]" using x q' by simp_all
  show "qu_tail q < length (qu_entries q)" using len tail by simp
  show "qu_entries q ! qu_tail q = None" using occ [OF room] tail by simp
  have nth': "qu_entries q' ! ?at i = (if i = qu_length q then Some m else qu_entries q ! ?at i)"
    if "i < MAX_QUEUE" for i
    using ring_index_inj [OF room that, of "qu_head q"] len tail q' by (simp add: nth_list_update)
  have "qu_entries q' ! ?at i \<noteq> None \<longleftrightarrow> i < qu_length q'" if "i < MAX_QUEUE" for i
    using nth' [OF that] occ [OF that] q' by auto
  moreover have "qu_tail q' = ?at (qu_length q')"
    using tail q' by (simp add: mod_Suc_eq)
  ultimately show "queue_inv q'" using inv room q' by (simp add: queue_inv_def)
  show "queue_contents q' = queue_contents q @ [m]"
  proof (rule nth_equalityI)
    show "length (queue_contents q') = length (queue_contents q @ [m])" using q' by simp
    fix i assume "i < length (queue_contents q')"
    then have i: "i \<le> qu_length q" using q' by simp
    then show "queue_contents q' ! i = (queue_contents q @ [m]) ! i"
      using nth' [of i] room q'
      by (cases "i = qu_length q") (simp_all add: queue_contents_def nth_append)
  qed
qed

lemma queue_peek_eq:
  assumes "queue_inv q"
  shows "queue_peek q = (case queue_contents q of [] \<Rightarrow> None | m # ms \<Rightarrow> Some m)"
proof -
  have h: "qu_entries q ! qu_head q \<noteq> None \<longleftrightarrow> 0 < qu_length q"
    using assms unfolding queue_inv_def by (metis MAX_QUEUE_pos add.right_neutral mod_less)
  show ?thesis
  proof (cases "qu_length q")
    case 0
    then show ?thesis using h by (simp add: queue_contents_def queue_peek_def)
  next
    case (Suc n)
    have "queue_contents q = the (qu_entries q ! (qu_head q mod MAX_QUEUE)) #
        map (\<lambda>i. the (qu_entries q ! ((qu_head q + i) mod MAX_QUEUE))) [1..<qu_length q]"
      using Suc by (simp add: queue_contents_def upt_rec)
    then show ?thesis using h Suc assms by (auto simp: queue_peek_def queue_inv_def)
  qed
qed

lemma queue_pop_ok:
  assumes inv: "queue_inv q" and cont: "queue_contents q = m # ms"
  obtains q' where "queue_pop q = (Some m, q')" and "queue_inv q'" and "queue_contents q' = ms"
    and "qu_entries q' = (qu_entries q)[qu_head q := None]"
    and "qu_head q < length (qu_entries q)" and "qu_entries q ! qu_head q = Some m"
proof -
  let ?at = "\<lambda>i. (qu_head q + i) mod MAX_QUEUE"
  have len: "length (qu_entries q) = MAX_QUEUE" and hd: "qu_head q < MAX_QUEUE"
    and le: "qu_length q \<le> MAX_QUEUE" and tail: "qu_tail q = ?at (qu_length q)"
    and occ: "\<And>i. i < MAX_QUEUE \<Longrightarrow> qu_entries q ! ?at i \<noteq> None \<longleftrightarrow> i < qu_length q"
    using inv by (auto simp: queue_inv_def)
  have pos: "0 < qu_length q" using cont length_queue_contents [of q] by simp
  have head: "qu_entries q ! qu_head q = Some m"
    using queue_peek_eq [OF inv] cont by (simp add: queue_peek_def)
  define q' where "q' = q\<lparr>qu_entries := (qu_entries q)[qu_head q := None],
    qu_head := (qu_head q + 1) mod MAX_QUEUE, qu_length := qu_length q - 1\<rparr>"
  have pop: "queue_pop q = (Some m, q')" using head by (simp add: queue_pop_def q'_def)
  have at': "(qu_head q' + i) mod MAX_QUEUE = ?at (Suc i)" for i
    by (simp add: q'_def mod_Suc_eq mod_add_left_eq)
  have nth': "qu_entries q' ! ?at (Suc i) =
      (if Suc i = MAX_QUEUE then None else qu_entries q ! ?at (Suc i))" if "i < MAX_QUEUE" for i
  proof (cases "Suc i = MAX_QUEUE")
    case True
    then show ?thesis using hd len by (simp add: q'_def)
  next
    case False
    then have "Suc i < MAX_QUEUE" using that by simp
    then have "?at (Suc i) \<noteq> qu_head q"
      using ring_index_inj [of "Suc i" 0 "qu_head q"] hd by simp
    then show ?thesis using False by (simp add: q'_def)
  qed
  have "qu_entries q' ! ?at (Suc i) \<noteq> None \<longleftrightarrow> i < qu_length q'" if "i < MAX_QUEUE" for i
    using nth' [OF that] occ [of "Suc i"] that le pos by (auto simp: q'_def)
  moreover have "qu_tail q' = (qu_head q' + qu_length q') mod MAX_QUEUE"
    using at' [of "qu_length q - 1"] tail pos by (simp add: q'_def)
  ultimately have "queue_inv q'"
    using len le by (simp add: queue_inv_def at') (simp add: q'_def)
  moreover have "queue_contents q' = tl (queue_contents q)"
  proof (rule nth_equalityI)
    fix i assume "i < length (queue_contents q')"
    then have i: "Suc i < qu_length q" by (simp add: q'_def)
    then show "queue_contents q' ! i = tl (queue_contents q) ! i"
      using nth' [of i] le by (simp add: queue_contents_def at' nth_tl) (simp add: q'_def)
  qed (simp add: q'_def)
  ultimately show ?thesis using that [of q'] pop cont head hd len by (simp add: q'_def)
qed

interpretation ring: bounded_fifo queue_inv queue_contents MAX_QUEUE queue_push queue_peek queue_pop
proof
  fix q m ms
  assume inv: "queue_inv q"
  show "length (queue_contents q) < MAX_QUEUE \<Longrightarrow>
      \<exists>q'. queue_push q m = (Inr (), q') \<and> queue_inv q' \<and> queue_contents q' = queue_contents q @ [m]"
    using queue_push_ok(1-3) [OF inv, of m] by (cases "queue_push q m") simp
  show "length (queue_contents q) = MAX_QUEUE \<Longrightarrow> \<exists>e. queue_push q m = (Inl e, q)"
    by (simp add: queue_push_def)
  show "queue_peek q = (case queue_contents q of [] \<Rightarrow> None | m # ms \<Rightarrow> Some m)"
    by (rule queue_peek_eq [OF inv])
  show "queue_contents q = m # ms \<Longrightarrow>
      \<exists>q'. queue_pop q = (Some m, q') \<and> queue_inv q' \<and> queue_contents q' = ms"
    using queue_pop_ok [OF inv, of m ms] by metis
  show "queue_contents q = [] \<Longrightarrow> queue_pop q = (None, q)"
    using queue_peek_eq [OF inv] by (simp add: queue_pop_def queue_peek_def)
  show "length (queue_contents q) \<le> MAX_QUEUE" using inv by (simp add: queue_inv_def)
qed

section \<open>Channel pairs\<close>

record channel_pair =
  cp_object :: object_id
  cp_endpoint_a :: object_id
  cp_endpoint_b :: object_id
  cp_queues :: "queue list"

definition channel_new ::
  "object_id \<Rightarrow> object_id \<Rightarrow> object_id \<Rightarrow> (channel_error, channel_pair) result" where
  "channel_new ob ea eb =
     (if oid_kind ob \<noteq> KChannel \<or> oid_kind ea \<noteq> KChannelEndpoint \<or> oid_kind eb \<noteq> KChannelEndpoint
         \<or> ea = eb
      then Inl CE_InvalidEndpoint
      else Inr \<lparr>cp_object = ob, cp_endpoint_a = ea, cp_endpoint_b = eb,
               cp_queues = [queue_new, queue_new]\<rparr>)"

definition install_endpoints ::
  "channel_pair \<Rightarrow> object_registry \<Rightarrow> process \<Rightarrow> process \<Rightarrow> rights \<Rightarrow>
     (channel_error, handle \<times> handle) result \<times> object_registry \<times> process \<times> process" where
  "install_endpoints ch r pa pb rights =
     (case table_insert (proc_handles pa) r (cp_endpoint_a ch) rights of
        (Inl e, ta, r1) \<Rightarrow> (Inl (channel_error_from e), r1, pa\<lparr>proc_handles := ta\<rparr>, pb)
      | (Inr a, ta, r1) \<Rightarrow>
          (case table_insert (proc_handles pb) r1 (cp_endpoint_b ch) rights of
             (Inr b, tb, r2) \<Rightarrow>
               (Inr (a, b), r2, pa\<lparr>proc_handles := ta\<rparr>, pb\<lparr>proc_handles := tb\<rparr>)
           | (Inl e, tb, r2) \<Rightarrow>
               (case table_close ta r2 a of
                  (Inl e', ta', r3) \<Rightarrow>
                    (Inl (channel_error_from e'), r3, pa\<lparr>proc_handles := ta'\<rparr>,
                     pb\<lparr>proc_handles := tb\<rparr>)
                | (Inr _, ta', r3) \<Rightarrow>
                    (Inl (channel_error_from e), r3, pa\<lparr>proc_handles := ta'\<rparr>,
                     pb\<lparr>proc_handles := tb\<rparr>))))"

text \<open>The objects of the tokens \<open>message.tokens[..token_count].iter().flatten()\<close>.\<close>

definition message_objects :: "queued_message \<Rightarrow> object_id list" where
  "message_objects m = List.map_filter (map_option (\<lambda>t. cap_object (tt_capability t)))
     (take (qm_token_count m) (qm_tokens m))"

definition entry_objects :: "queued_message option \<Rightarrow> object_id list" where
  "entry_objects x = (case x of None \<Rightarrow> [] | Some m \<Rightarrow> message_objects m)"

definition queue_objects :: "queue \<Rightarrow> object_id list" where
  "queue_objects q = concat (map entry_objects (qu_entries q))"

definition visit_escrow_objects :: "channel_pair \<Rightarrow> object_id list" where
  "visit_escrow_objects ch = concat (map queue_objects (cp_queues ch))"

text \<open>\<open>drain\<close>: every release is tried, the first error is kept.\<close>

fun drain_tokens ::
  "object_id list \<Rightarrow> channel_error option \<Rightarrow> object_registry \<Rightarrow>
     channel_error option \<times> object_registry" where
  "drain_tokens [] err r = (err, r)"
| "drain_tokens (ob # obs) err r =
     (case registry_release r ob of
        (Inl e, r1) \<Rightarrow>
          drain_tokens obs (if err = None then Some (channel_error_from e) else err) r1
      | (Inr _, r1) \<Rightarrow> drain_tokens obs err r1)"

lemma queue_pop_occupied:
  assumes "queue_pop q = (Some m, q')" and "qu_head q < length (qu_entries q)"
  shows "occupied (qu_entries q') < occupied (qu_entries q)"
  using assms occupied_update [OF assms(2), of None]
  by (auto simp: queue_pop_def split: option.splits)

text \<open>The loop pops until the head slot is empty. Outside the array the head slot does not
  exist and the indexing would stop the program; the loop ends there.\<close>

function drain_queue ::
  "queue \<Rightarrow> channel_error option \<Rightarrow> object_registry \<Rightarrow>
     channel_error option \<times> queue \<times> object_registry" where
  "drain_queue q err r =
     (if qu_head q < length (qu_entries q) then
        (case queue_pop q of
           (None, q1) \<Rightarrow> (err, q1, r)
         | (Some m, q1) \<Rightarrow>
             let (err1, r1) = drain_tokens (message_objects m) err r in drain_queue q1 err1 r1)
      else (err, q, r))"
  by pat_completeness auto
termination
  by (relation "measure (\<lambda>(q, err, r). occupied (qu_entries q))")
     (auto intro: queue_pop_occupied [OF sym])

declare drain_queue.simps [simp del]

fun drain_queues ::
  "queue list \<Rightarrow> channel_error option \<Rightarrow> object_registry \<Rightarrow>
     channel_error option \<times> queue list \<times> object_registry" where
  "drain_queues [] err r = (err, [], r)"
| "drain_queues (q # qs) err r =
     (let (err1, q1, r1) = drain_queue q err r;
          (err2, qs2, r2) = drain_queues qs err1 r1
      in (err2, q1 # qs2, r2))"

definition drain ::
  "channel_pair \<Rightarrow> object_registry \<Rightarrow>
     (channel_error, unit) result \<times> channel_pair \<times> object_registry" where
  "drain ch r =
     (let (err, qs, r1) = drain_queues (cp_queues ch) None r
      in ((case err of None \<Rightarrow> Inr () | Some e \<Rightarrow> Inl e), ch\<lparr>cp_queues := qs\<rparr>, r1))"

definition queue_for_sender :: "channel_pair \<Rightarrow> object_id \<Rightarrow> (channel_error, nat) result" where
  "queue_for_sender ch endpoint =
     (if endpoint = cp_endpoint_a ch then Inr 0
      else if endpoint = cp_endpoint_b ch then Inr 1
      else Inl CE_InvalidEndpoint)"

definition queue_for_receiver :: "channel_pair \<Rightarrow> object_id \<Rightarrow> (channel_error, nat) result" where
  "queue_for_receiver ch endpoint =
     (if endpoint = cp_endpoint_a ch then Inr 1
      else if endpoint = cp_endpoint_b ch then Inr 0
      else Inl CE_InvalidEndpoint)"

section \<open>Sending\<close>

text \<open>The preflight loop over \<open>first\<close> with its inner loop over the earlier transfers.\<close>

fun check_duplicates ::
  "handle_disposition option list \<Rightarrow> handle_disposition \<Rightarrow> nat list \<Rightarrow>
     (channel_error, unit) result" where
  "check_duplicates transfers d [] = Inr ()"
| "check_duplicates transfers d (later # ls) =
     (case transfers ! later of
        None \<Rightarrow> Inl CE_ObjectStale
      | Some l \<Rightarrow>
          if hd_source d = hd_source l then Inl CE_DuplicateTransfer
          else check_duplicates transfers d ls)"

fun check_transfers ::
  "handle_table \<Rightarrow> object_registry \<Rightarrow> handle_disposition option list \<Rightarrow> nat list \<Rightarrow>
     (channel_error, unit) result" where
  "check_transfers t r transfers [] = Inr ()"
| "check_transfers t r transfers (first # fs) =
     (case transfers ! first of
        None \<Rightarrow> Inl CE_ObjectStale
      | Some d \<Rightarrow>
          (case check_duplicates transfers d [0..<first] of
             Inl e \<Rightarrow> Inl e
           | Inr _ \<Rightarrow>
               (case check_move t r (hd_source d) (hd_rights d) of
                  Inl e \<Rightarrow> Inl (channel_error_from e)
                | Inr _ \<Rightarrow> check_transfers t r transfers fs)))"

fun move_transfers ::
  "handle_table \<Rightarrow> object_registry \<Rightarrow> handle_disposition option list \<Rightarrow> nat list \<Rightarrow>
     transfer_token option list \<Rightarrow>
     (channel_error, transfer_token option list) result \<times> handle_table" where
  "move_transfers t r transfers [] tokens = (Inr tokens, t)"
| "move_transfers t r transfers (index # is) tokens =
     (case transfers ! index of
        None \<Rightarrow> (Inl CE_ObjectStale, t)
      | Some d \<Rightarrow>
          (case begin_move t r (hd_source d) (hd_rights d) of
             (Inl e, t1) \<Rightarrow> (Inl (channel_error_from e), t1)
           | (Inr tok, t1) \<Rightarrow> move_transfers t1 r transfers is (tokens[index := Some tok])))"

definition channel_send ::
  "channel_pair \<Rightarrow> object_registry \<Rightarrow> process \<Rightarrow> handle \<Rightarrow> outgoing_message \<Rightarrow> wait_registry \<Rightarrow>
     (channel_error, unit) result \<times> channel_pair \<times> process \<times> wait_registry" where
  "channel_send ch r sender endpoint m waiters =
     (case table_require (proc_handles sender) r endpoint KChannelEndpoint RIGHT_WRITE of
        Inl e \<Rightarrow> (Inl (channel_error_from e), ch, sender, waiters)
      | Inr endpoint_object \<Rightarrow>
     (case queue_for_sender ch endpoint_object of
        Inl e \<Rightarrow> (Inl e, ch, sender, waiters)
      | Inr qi \<Rightarrow>
     if qu_length (cp_queues ch ! qi) = MAX_QUEUE then (Inl CE_QueueFull, ch, sender, waiters)
     else
     (case check_transfers (proc_handles sender) r (om_transfers m) [0..<om_transfer_count m] of
        Inl e \<Rightarrow> (Inl e, ch, sender, waiters)
      | Inr _ \<Rightarrow>
     (case move_transfers (proc_handles sender) r (om_transfers m) [0..<om_transfer_count m]
             (replicate MAX_TRANSFER_HANDLES None) of
        (Inl e, t1) \<Rightarrow> (Inl e, ch, sender\<lparr>proc_handles := t1\<rparr>, waiters)
      | (Inr tokens, t1) \<Rightarrow>
          let queued = \<lparr>qm_sender_process_id = proc_id sender, qm_header = om_header m,
                        qm_payload = om_payload m, qm_payload_len = om_payload_len m,
                        qm_tokens = tokens, qm_token_count = om_transfer_count m\<rparr>;
              (result, q1) = queue_push (cp_queues ch ! qi) queued;
              ch1 = ch\<lparr>cp_queues := (cp_queues ch)[qi := q1]\<rparr>;
              sender1 = sender\<lparr>proc_handles := t1\<rparr>
          in (case result of
                Inl e \<Rightarrow> (Inl e, ch1, sender1, waiters)
              | Inr _ \<Rightarrow>
                  let receiver_endpoint =
                        (if endpoint_object = cp_endpoint_a ch1 then cp_endpoint_b ch1
                         else cp_endpoint_a ch1)
                  in (Inr (), ch1, sender1,
                      snd (notify waiters receiver_endpoint SIGNALS_READABLE)))))))"

section \<open>Receiving\<close>

text \<open>The rollback loop over the first \<open>count\<close> handle slots.\<close>

fun rollback_slots ::
  "queue \<Rightarrow> handle_table \<Rightarrow> handle option list \<Rightarrow> nat list \<Rightarrow>
     (channel_error, unit) result \<times> queue \<times> handle_table" where
  "rollback_slots q t handles [] = (Inr (), q, t)"
| "rollback_slots q t handles (index # is) =
     (case handles ! index of
        None \<Rightarrow> rollback_slots q t handles is
      | Some h \<Rightarrow>
          (case queue_token q index of
             None \<Rightarrow> (Inl CE_ObjectStale, q, t)
           | Some (Some _) \<Rightarrow> (Inl CE_ObjectStale, q, t)
           | Some None \<Rightarrow>
               (case rollback_install t h of
                  (None, t1) \<Rightarrow> (Inl CE_ObjectStale, q, t1)
                | (Some token, t1) \<Rightarrow>
                    rollback_slots (queue_put_token q index (Some token)) t1 handles is)))"

definition rollback_receive ::
  "queue \<Rightarrow> handle_table \<Rightarrow> handle option list \<Rightarrow> nat \<Rightarrow>
     (channel_error, unit) result \<times> queue \<times> handle_table" where
  "rollback_receive q t handles count =
     rollback_slots q t handles [0..<min count MAX_TRANSFER_HANDLES]"

fun validate_tokens :: "object_registry \<Rightarrow> object_id list \<Rightarrow> (channel_error, unit) result" where
  "validate_tokens r [] = Inr ()"
| "validate_tokens r (ob # obs) =
     (case registry_validate r ob (oid_kind ob) of
        Inl e \<Rightarrow> Inl (channel_error_from e)
      | Inr _ \<Rightarrow> validate_tokens r obs)"

fun install_tokens ::
  "queue \<Rightarrow> object_registry \<Rightarrow> handle_table \<Rightarrow> nat list \<Rightarrow> handle option list \<Rightarrow>
     (channel_error, handle option list) result \<times> queue \<times> handle_table" where
  "install_tokens q r t [] handles = (Inr handles, q, t)"
| "install_tokens q r t (index # is) handles =
     (if (case queue_peek q of None \<Rightarrow> True | Some m \<Rightarrow> qm_tokens m ! index = None) then
        (case rollback_receive q t handles index of
           (Inl e, q1, t1) \<Rightarrow> (Inl e, q1, t1)
         | (Inr _, q1, t1) \<Rightarrow> (Inl CE_ObjectStale, q1, t1))
      else
        (case install_token t r (the (queue_token q index)) of
           (Inr h, t1, token) \<Rightarrow>
             install_tokens (queue_put_token q index token) r t1 is (handles[index := Some h])
         | (Inl e, t1, token) \<Rightarrow>
             (case rollback_receive (queue_put_token q index token) t1 handles index of
                (Inl e', q1, t2) \<Rightarrow> (Inl e', q1, t2)
              | (Inr _, q1, t2) \<Rightarrow> (Inl (channel_error_from e), q1, t2))))"

definition channel_receive ::
  "channel_pair \<Rightarrow> object_registry \<Rightarrow> process \<Rightarrow> handle \<Rightarrow>
     (channel_error, received_message option) result \<times> channel_pair \<times> process" where
  "channel_receive ch r receiver endpoint =
     (case table_require (proc_handles receiver) r endpoint KChannelEndpoint RIGHT_READ of
        Inl e \<Rightarrow> (Inl (channel_error_from e), ch, receiver)
      | Inr endpoint_object \<Rightarrow>
     (case queue_for_receiver ch endpoint_object of
        Inl e \<Rightarrow> (Inl e, ch, receiver)
      | Inr qi \<Rightarrow>
     (case queue_peek (cp_queues ch ! qi) of
        None \<Rightarrow> (Inr None, ch, receiver)
      | Some queued \<Rightarrow>
     if \<not> has_capacity (proc_handles receiver) (qm_token_count queued)
     then (Inl CE_ReceiverFull, ch, receiver)
     else
     (case validate_tokens r (message_objects queued) of
        Inl e \<Rightarrow> (Inl e, ch, receiver)
      | Inr _ \<Rightarrow>
     (case install_tokens (cp_queues ch ! qi) r (proc_handles receiver)
             [0..<qm_token_count queued] (replicate MAX_TRANSFER_HANDLES None) of
        (Inl e, q1, t1) \<Rightarrow>
          (Inl e, ch\<lparr>cp_queues := (cp_queues ch)[qi := q1]\<rparr>, receiver\<lparr>proc_handles := t1\<rparr>)
      | (Inr handles, q1, t1) \<Rightarrow>
          (case queue_pop q1 of
             (None, q2) \<Rightarrow>
               (case rollback_receive q2 t1 handles (qm_token_count queued) of
                  (Inl e, q3, t2) \<Rightarrow>
                    (Inl e, ch\<lparr>cp_queues := (cp_queues ch)[qi := q3]\<rparr>,
                     receiver\<lparr>proc_handles := t2\<rparr>)
                | (Inr _, q3, t2) \<Rightarrow>
                    (Inl CE_Empty, ch\<lparr>cp_queues := (cp_queues ch)[qi := q3]\<rparr>,
                     receiver\<lparr>proc_handles := t2\<rparr>))
           | (Some _, q2) \<Rightarrow>
               (Inr (Some \<lparr>rm_sender_process_id = qm_sender_process_id queued,
                          rm_header = qm_header queued, rm_payload = qm_payload queued,
                          rm_payload_len = qm_payload_len queued, rm_handles = handles,
                          rm_handle_count = qm_token_count queued\<rparr>),
                ch\<lparr>cp_queues := (cp_queues ch)[qi := q2]\<rparr>, receiver\<lparr>proc_handles := t1\<rparr>)))))))"

definition readiness :: "channel_pair \<Rightarrow> object_id \<Rightarrow> (channel_error, signals) result" where
  "readiness ch endpoint =
     (case queue_for_receiver ch endpoint of
        Inl e \<Rightarrow> Inl e
      | Inr qi \<Rightarrow>
          Inr (if queue_is_readable (cp_queues ch ! qi)
               then SIGNALS_WRITABLE OR SIGNALS_READABLE else SIGNALS_WRITABLE))"

section \<open>Well-formed messages and channels\<close>

definition outgoing_ok :: "outgoing_message \<Rightarrow> bool" where
  "outgoing_ok m \<longleftrightarrow> length (om_transfers m) = MAX_TRANSFER_HANDLES \<and>
     om_transfer_count m \<le> MAX_TRANSFER_HANDLES \<and>
     (\<forall>i < om_transfer_count m. om_transfers m ! i \<noteq> None) \<and>
     length (om_payload m) = MAX_INLINE_PAYLOAD \<and> om_payload_len m \<le> MAX_INLINE_PAYLOAD"

definition message_ok :: "queued_message \<Rightarrow> bool" where
  "message_ok m \<longleftrightarrow> length (qm_tokens m) = MAX_TRANSFER_HANDLES \<and>
     qm_token_count m \<le> MAX_TRANSFER_HANDLES \<and>
     (\<forall>i < qm_token_count m. qm_tokens m ! i \<noteq> None) \<and>
     length (qm_payload m) = MAX_INLINE_PAYLOAD \<and> qm_payload_len m \<le> MAX_INLINE_PAYLOAD"

definition channel_inv :: "channel_pair \<Rightarrow> bool" where
  "channel_inv ch \<longleftrightarrow> length (cp_queues ch) = 2 \<and> cp_endpoint_a ch \<noteq> cp_endpoint_b ch \<and>
     (\<forall>q \<in> set (cp_queues ch). queue_inv q \<and> (\<forall>m. Some m \<in> set (qu_entries q) \<longrightarrow> message_ok m))"

text \<open>The number of tokens for an object in the queues of a channel.\<close>

definition escrow :: "channel_pair \<Rightarrow> object_id \<Rightarrow> nat" where
  "escrow ch ob = count_list (visit_escrow_objects ch) ob"

lemma outgoing_new_ok: "outgoing_ok (outgoing_new h)"
  by (simp add: outgoing_ok_def outgoing_new_def)

lemma set_payload_ok:
  assumes "outgoing_ok m" and "set_payload m payload = (Inr (), m')"
  shows "outgoing_ok m'" and "take (om_payload_len m') (om_payload m') = payload"
    and "om_transfers m' = om_transfers m" and "om_transfer_count m' = om_transfer_count m"
    and "om_header m' = om_header m"
  using assms by (auto simp: set_payload_def outgoing_ok_def split: if_splits)

lemma add_transfer_ok:
  assumes "outgoing_ok m" and "add_transfer m h rights = (Inr (), m')"
  shows "outgoing_ok m'"
    and "take (om_transfer_count m') (om_transfers m') =
      take (om_transfer_count m) (om_transfers m) @ [Some \<lparr>hd_source = h, hd_rights = rights\<rparr>]"
    and "om_payload m' = om_payload m" and "om_payload_len m' = om_payload_len m"
    and "om_header m' = om_header m"
proof -
  have lt: "om_transfer_count m < length (om_transfers m)"
    and m': "m' = m\<lparr>om_transfers := (om_transfers m)
        [om_transfer_count m := Some \<lparr>hd_source = h, hd_rights = rights\<rparr>],
        om_transfer_count := om_transfer_count m + 1\<rparr>"
    using assms(2) by (auto simp: add_transfer_def array_get_def split: if_splits)
  show "outgoing_ok m'" using assms(1) lt m' by (auto simp: outgoing_ok_def nth_list_update less_Suc_eq)
  show "take (om_transfer_count m') (om_transfers m') =
      take (om_transfer_count m) (om_transfers m) @ [Some \<lparr>hd_source = h, hd_rights = rights\<rparr>]"
    using lt m' by (simp add: take_Suc_conv_app_nth)
qed (use assms(2) in \<open>auto simp: add_transfer_def split: option.splits\<close>)

lemma queue_new_objects [simp]: "queue_objects queue_new = []"
  by (simp add: queue_objects_def queue_new_def entry_objects_def)

lemma queue_new_entries [simp]: "Some m \<notin> set (qu_entries queue_new)"
  by (simp add: queue_new_def)

lemma channel_new_ok:
  assumes "channel_new ob ea eb = Inr ch"
  shows "channel_inv ch" and "visit_escrow_objects ch = []"
    and "cp_object ch = ob" and "cp_endpoint_a ch = ea" and "cp_endpoint_b ch = eb"
    and "ea \<noteq> eb"
  using assms by (auto simp: channel_new_def channel_inv_def queue_new_inv visit_escrow_objects_def
      split: if_splits)

lemma channel_inv_queue:
  assumes "channel_inv ch" and "i < 2"
  shows "queue_inv (cp_queues ch ! i)"
    and "Some m \<in> set (qu_entries (cp_queues ch ! i)) \<Longrightarrow> message_ok m"
  using assms unfolding channel_inv_def by (metis nth_mem)+

lemma channel_inv_put:
  assumes "channel_inv ch" and "queue_inv q"
    and "\<And>m. Some m \<in> set (qu_entries q) \<Longrightarrow> message_ok m"
  shows "channel_inv (ch\<lparr>cp_queues := (cp_queues ch)[i := q]\<rparr>)"
  using assms unfolding channel_inv_def
  by (auto dest!: set_update_subset_insert [THEN subsetD])

lemma queue_index:
  "queue_for_sender ch eo = Inr qi \<Longrightarrow> qi < 2"
  "queue_for_receiver ch eo = Inr qi \<Longrightarrow> qi < 2"
  by (auto simp: queue_for_sender_def queue_for_receiver_def split: if_splits)

lemma escrow_put:
  assumes "qi < length (cp_queues ch)"
  shows "escrow (ch\<lparr>cp_queues := (cp_queues ch)[qi := q]\<rparr>) x
      + count_list (queue_objects (cp_queues ch ! qi)) x =
    escrow ch x + count_list (queue_objects q) x"
  using count_concat_map_update [OF assms, of queue_objects q x]
  by (simp add: escrow_def visit_escrow_objects_def)

lemma queue_push_objects:
  assumes "queue_inv q" and "qu_length q < MAX_QUEUE" and "queue_push q m = (x, q')"
  shows "count_list (queue_objects q') ob =
      count_list (queue_objects q) ob + count_list (message_objects m) ob"
    and "Some m' \<in> set (qu_entries q') \<Longrightarrow> Some m' \<in> set (qu_entries q) \<or> m' = m"
proof -
  note push = queue_push_ok [OF assms]
  show "count_list (queue_objects q') ob =
      count_list (queue_objects q) ob + count_list (message_objects m) ob"
    using count_concat_map_update [OF push(5), of entry_objects "Some m" ob] push(4,6)
    by (simp add: queue_objects_def entry_objects_def)
  show "Some m' \<in> set (qu_entries q') \<Longrightarrow> Some m' \<in> set (qu_entries q) \<or> m' = m"
    unfolding push(4) by (auto dest!: set_update_subset_insert [THEN subsetD])
qed

lemma queue_pop_objects:
  assumes "queue_inv q" and "queue_contents q = m # ms" and "queue_pop q = (Some m, q')"
  shows "count_list (queue_objects q) ob =
      count_list (queue_objects q') ob + count_list (message_objects m) ob"
    and "Some m' \<in> set (qu_entries q') \<Longrightarrow> Some m' \<in> set (qu_entries q)"
    and "Some m \<in> set (qu_entries q)"
proof -
  obtain q1 where "queue_pop q = (Some m, q1)" and e: "qu_entries q1 = (qu_entries q)[qu_head q := None]"
    and h: "qu_head q < length (qu_entries q)" "qu_entries q ! qu_head q = Some m"
    using queue_pop_ok [OF assms(1,2)] by metis
  then have q1: "q1 = q'" using assms(3) by simp
  show "count_list (queue_objects q) ob =
      count_list (queue_objects q') ob + count_list (message_objects m) ob"
    using count_concat_map_update [OF h(1), of entry_objects None ob] h(2) e q1
    by (simp add: queue_objects_def entry_objects_def)
  show "Some m' \<in> set (qu_entries q') \<Longrightarrow> Some m' \<in> set (qu_entries q)"
    using e q1 by (auto dest!: set_update_subset_insert [THEN subsetD])
  show "Some m \<in> set (qu_entries q)" using h by (metis nth_mem)
qed

section \<open>A send moves everything or nothing\<close>

abbreviation transfer_at :: "handle_disposition option list \<Rightarrow> nat \<Rightarrow> handle_disposition" where
  "transfer_at transfers i \<equiv> the (transfers ! i)"

lemma check_duplicates_iff:
  "check_duplicates transfers d ls = Inr () \<longleftrightarrow>
     (\<forall>j \<in> set ls. transfers ! j \<noteq> None \<and> hd_source d \<noteq> hd_source (transfer_at transfers j))"
  by (induction ls) (auto split: option.splits)

lemma check_transfers_iff:
  "check_transfers t r transfers is = Inr () \<longleftrightarrow>
     (\<forall>i \<in> set is. transfers ! i \<noteq> None \<and>
        check_duplicates transfers (transfer_at transfers i) [0..<i] = Inr () \<and>
        check_move t r (hd_source (transfer_at transfers i)) (hd_rights (transfer_at transfers i))
          = Inr ())"
  by (induction "is") (auto split: option.splits sum.splits)

lemma check_transfers_distinct:
  assumes "check_transfers t r transfers [0..<n] = Inr ()"
  shows "inj_on (\<lambda>i. hd_source (transfer_at transfers i)) {0..<n}"
proof (rule inj_onI)
  have ne: "hd_source (transfer_at transfers i) \<noteq> hd_source (transfer_at transfers j)"
    if "i < n" "j < i" for i j
    using assms that by (auto simp: check_transfers_iff check_duplicates_iff)
  fix i j assume "i \<in> {0..<n}" "j \<in> {0..<n}"
    "hd_source (transfer_at transfers i) = hd_source (transfer_at transfers j)"
  then show "i = j" using ne [of i j] ne [of j i] by (cases i j rule: linorder_cases) auto
qed

text \<open>The token that transfer \<open>i\<close> becomes.\<close>

definition moved_token :: "handle_table \<Rightarrow> handle_disposition option list \<Rightarrow> nat \<Rightarrow> transfer_token" where
  "moved_token t transfers i =
     \<lparr>tt_capability =
        \<lparr>cap_object = cap_object (the (table_cap t (hd_source (transfer_at transfers i)))),
         cap_rights = hd_rights (transfer_at transfers i)\<rparr>\<rparr>"

lemma move_transfers_ok:
  assumes "reg_inv r" and "table_inv t" and "distinct is"
    and "inj_on (\<lambda>i. hd_source (transfer_at transfers i)) (set is)"
    and "\<And>i. i \<in> set is \<Longrightarrow> i < length tokens \<and> transfers ! i \<noteq> None \<and>
      check_move t r (hd_source (transfer_at transfers i)) (hd_rights (transfer_at transfers i)) = Inr ()"
  shows "\<exists>toks t'. move_transfers t r transfers is tokens = (Inr toks, t') \<and> table_inv t' \<and>
    length toks = length tokens \<and>
    (\<forall>i < length tokens. toks ! i =
       (if i \<in> set is then Some (moved_token t transfers i) else tokens ! i)) \<and>
    table_cap t' = (\<lambda>h. if h \<in> (\<lambda>i. hd_source (transfer_at transfers i)) ` set is
                       then None else table_cap t h) \<and>
    (\<forall>x. held t x = held t' x +
       count_list (map (\<lambda>i. cap_object (tt_capability (moved_token t transfers i))) is) x)"
  using assms(2-)
proof (induction "is" arbitrary: t tokens)
  case Nil
  then show ?case by simp
next
  case (Cons k ks)
  let ?src = "\<lambda>i. hd_source (transfer_at transfers i)"
  let ?rts = "\<lambda>i. hd_rights (transfer_at transfers i)"
  obtain d where d: "transfers ! k = Some d" using Cons.prems(4) [of k] by auto
  have ck: "check_move t r (?src k) (?rts k) = Inr ()" using Cons.prems(4) [of k] by simp
  then obtain c where c: "table_cap t (?src k) = Some c" "reg_live r (cap_object c)"
    using check_move_iff [OF assms(1) Cons.prems(1)] by blast
  define t1 where "t1 = clear_handle t (?src k)"
  have bm: "begin_move t r (hd_source d) (hd_rights d) = (Inr (moved_token t transfers k), t1)"
    using begin_move_eq [OF assms(1) Cons.prems(1) ck c(1)] d c(1) by (simp add: moved_token_def t1_def)
  note cl = clear_handle_ok(1-3) [OF Cons.prems(1) c(1), folded t1_def]
  have other: "?src i \<noteq> ?src k" if "i \<in> set ks" for i
    using that Cons.prems(2,3) by (auto simp: inj_on_def)
  have cap1: "table_cap t1 (?src i) = table_cap t (?src i)" if "i \<in> set ks" for i
    using other [OF that] cl(2) by simp
  then have tok1: "moved_token t1 transfers i = moved_token t transfers i" if "i \<in> set ks" for i
    using that by (simp add: moved_token_def)
  have "check_move t1 r (?src i) (?rts i) = Inr ()" if i: "i \<in> set ks" for i
    using Cons.prems(4) [of i] i cap1 [OF i]
    by (simp add: check_move_iff [OF assms(1) cl(1)] check_move_iff [OF assms(1) Cons.prems(1)])
  then obtain toks t' where IH:
    "move_transfers t1 r transfers ks (tokens[k := Some (moved_token t transfers k)]) = (Inr toks, t')"
    "table_inv t'" "length toks = length tokens"
    "\<forall>i < length tokens. toks ! i = (if i \<in> set ks then Some (moved_token t1 transfers i)
       else tokens[k := Some (moved_token t transfers k)] ! i)"
    "table_cap t' = (\<lambda>h. if h \<in> ?src ` set ks then None else table_cap t1 h)"
    "\<forall>x. held t1 x = held t' x +
       count_list (map (\<lambda>i. cap_object (tt_capability (moved_token t1 transfers i))) ks) x"
    using Cons.IH [OF cl(1), of "tokens[k := Some (moved_token t transfers k)]"] Cons.prems
    by (auto simp: inj_on_def)
  have mv: "move_transfers t r transfers (k # ks) tokens = (Inr toks, t')"
    using d bm IH(1) by simp
  have tk: "toks ! i = (if i \<in> set (k # ks) then Some (moved_token t transfers i) else tokens ! i)"
    if "i < length tokens" for i
    using IH(4) that tok1 [of i] by (auto simp: nth_list_update)
  have tc: "table_cap t' = (\<lambda>h. if h \<in> ?src ` set (k # ks) then None else table_cap t h)"
    unfolding IH(5) cl(2) by auto
  have "held t1 x = held t' x +
      count_list (map (\<lambda>i. cap_object (tt_capability (moved_token t transfers i))) ks) x" for x
    using spec [OF IH(6), of x] by (simp add: tok1 cong: map_cong)
  moreover have "cap_object (tt_capability (moved_token t transfers k)) = cap_object c"
    using c(1) by (simp add: moved_token_def)
  ultimately have hd: "held t x = held t' x +
      count_list (map (\<lambda>i. cap_object (tt_capability (moved_token t transfers i))) (k # ks)) x" for x
    using fun_cong [OF cl(3), of x] by simp
  show ?case using mv IH(2,3) tk tc hd by (intro exI [of _ toks] exI [of _ t']) blast
qed

text \<open>The message a send puts into the queue.\<close>

definition sent_tokens :: "handle_table \<Rightarrow> outgoing_message \<Rightarrow> transfer_token option list" where
  "sent_tokens t m = map (\<lambda>i. if i < om_transfer_count m then Some (moved_token t (om_transfers m) i)
     else None) [0..<MAX_TRANSFER_HANDLES]"

definition sent_message :: "process \<Rightarrow> outgoing_message \<Rightarrow> queued_message" where
  "sent_message s m =
     \<lparr>qm_sender_process_id = proc_id s, qm_header = om_header m, qm_payload = om_payload m,
      qm_payload_len = om_payload_len m, qm_tokens = sent_tokens (proc_handles s) m,
      qm_token_count = om_transfer_count m\<rparr>"

lemma sent_message_ok: "outgoing_ok m \<Longrightarrow> message_ok (sent_message s m)"
  by (simp add: message_ok_def sent_message_def outgoing_ok_def sent_tokens_def)

lemma map_filter_map_Some: "List.map_filter f (map (\<lambda>i. Some (g i)) is) =
    List.map_filter (\<lambda>i. f (Some (g i))) is"
  by (induction "is") (auto simp: List.map_filter_simps split: option.splits)

lemma map_filter_all: "List.map_filter (\<lambda>i. Some (g i)) is = map g is"
  by (induction "is") (auto simp: List.map_filter_simps)

lemma message_objects_sent:
  assumes "outgoing_ok m"
  shows "message_objects (sent_message s m) =
    map (\<lambda>i. cap_object (tt_capability (moved_token (proc_handles s) (om_transfers m) i)))
      [0..<om_transfer_count m]"
proof -
  have n: "om_transfer_count m \<le> MAX_TRANSFER_HANDLES" using assms by (simp add: outgoing_ok_def)
  have "take (om_transfer_count m) (sent_tokens t m) =
      map (\<lambda>i. Some (moved_token t (om_transfers m) i)) [0..<om_transfer_count m]" for t
    unfolding sent_tokens_def by (rule nth_equalityI) (use n in auto)
  then show ?thesis
    by (simp add: message_objects_def sent_message_def map_filter_map_Some map_filter_all)
qed

definition sources :: "outgoing_message \<Rightarrow> handle set" where
  "sources m = (\<lambda>i. hd_source (transfer_at (om_transfers m) i)) ` {0..<om_transfer_count m}"

lemma preflight_moves:
  assumes "reg_inv r" and "table_inv t" and m: "outgoing_ok m"
    and ck: "check_transfers t r (om_transfers m) [0..<om_transfer_count m] = Inr ()"
  shows "\<exists>t'. move_transfers t r (om_transfers m) [0..<om_transfer_count m]
        (replicate MAX_TRANSFER_HANDLES None) = (Inr (sent_tokens t m), t') \<and> table_inv t' \<and>
    table_cap t' = (\<lambda>h. if h \<in> sources m then None else table_cap t h) \<and>
    (\<forall>x. held t x = held t' x +
       count_list (map (\<lambda>i. cap_object (tt_capability (moved_token t (om_transfers m) i)))
         [0..<om_transfer_count m]) x)"
proof -
  have n: "om_transfer_count m \<le> MAX_TRANSFER_HANDLES" using m by (simp add: outgoing_ok_def)
  have inj: "inj_on (\<lambda>i. hd_source (transfer_at (om_transfers m) i)) (set [0..<om_transfer_count m])"
    using check_transfers_distinct [OF ck] by simp
  have each: "i < length (replicate MAX_TRANSFER_HANDLES None) \<and> om_transfers m ! i \<noteq> None \<and>
      check_move t r (hd_source (transfer_at (om_transfers m) i))
        (hd_rights (transfer_at (om_transfers m) i)) = Inr ()"
    if "i \<in> set [0..<om_transfer_count m]" for i
    using that ck n by (simp add: check_transfers_iff)
  obtain toks t' where mv: "move_transfers t r (om_transfers m) [0..<om_transfer_count m]
        (replicate MAX_TRANSFER_HANDLES None) = (Inr toks, t')" "table_inv t'"
    "length toks = MAX_TRANSFER_HANDLES"
    "\<forall>i < MAX_TRANSFER_HANDLES. toks ! i = (if i < om_transfer_count m
       then Some (moved_token t (om_transfers m) i) else replicate MAX_TRANSFER_HANDLES None ! i)"
    "table_cap t' = (\<lambda>h. if h \<in> sources m then None else table_cap t h)"
    "\<forall>x. held t x = held t' x +
       count_list (map (\<lambda>i. cap_object (tt_capability (moved_token t (om_transfers m) i)))
         [0..<om_transfer_count m]) x"
    using move_transfers_ok [OF assms(1,2) _ inj each] by (auto simp: sources_def)
  have "toks = sent_tokens t m"
    by (rule nth_equalityI) (use mv(3,4) in \<open>auto simp: sent_tokens_def\<close>)
  then show ?thesis using mv by blast
qed

lemma channel_send_err:
  assumes "reg_inv r" and "table_inv (proc_handles s)" and "channel_inv ch" and "outgoing_ok m"
    and send: "channel_send ch r s e m w = (Inl err, ch', s', w')"
  shows "ch' = ch \<and> s' = s \<and> w' = w"
proof (cases "table_require (proc_handles s) r e KChannelEndpoint RIGHT_WRITE")
  case (Inl err1)
  then show ?thesis using send by (simp add: channel_send_def)
next
  case req: (Inr eo)
  show ?thesis
  proof (cases "queue_for_sender ch eo")
    case (Inl err1)
    then show ?thesis using send req by (simp add: channel_send_def)
  next
    case qi: (Inr qi)
    show ?thesis
    proof (cases "qu_length (cp_queues ch ! qi) = MAX_QUEUE \<or>
        (\<exists>e. check_transfers (proc_handles s) r (om_transfers m) [0..<om_transfer_count m] = Inl e)")
      case True
      then show ?thesis using send req qi
        by (auto simp: channel_send_def split: if_splits)
    next
      case False
      then have room: "qu_length (cp_queues ch ! qi) \<noteq> MAX_QUEUE"
        and ck: "check_transfers (proc_handles s) r (om_transfers m) [0..<om_transfer_count m] = Inr ()"
        by (auto intro: sum.exhaust)
      obtain t' where "move_transfers (proc_handles s) r (om_transfers m) [0..<om_transfer_count m]
          (replicate MAX_TRANSFER_HANDLES None) = (Inr (sent_tokens (proc_handles s) m), t')"
        using preflight_moves [OF assms(1,2,4) ck] by blast
      then have "fst (channel_send ch r s e m w) = Inr ()"
        using req qi room ck by (simp add: channel_send_def queue_push_def Let_def)
      then show ?thesis using send by simp
    qed
  qed
qed

lemma channel_send_ok:
  assumes "reg_inv r" and "table_inv (proc_handles s)" and "channel_inv ch" and "outgoing_ok m"
    and send: "channel_send ch r s e m w = (Inr (), ch', s', w')"
  obtains eo qi q' t' where
    "table_require (proc_handles s) r e KChannelEndpoint RIGHT_WRITE = Inr eo"
    and "queue_for_sender ch eo = Inr qi" and "qi < 2"
    and "check_transfers (proc_handles s) r (om_transfers m) [0..<om_transfer_count m] = Inr ()"
    and "queue_push (cp_queues ch ! qi) (sent_message s m) = (Inr (), q')"
    and "qu_length (cp_queues ch ! qi) < MAX_QUEUE"
    and "ch' = ch\<lparr>cp_queues := (cp_queues ch)[qi := q']\<rparr>"
    and "s' = s\<lparr>proc_handles := t'\<rparr>" and "table_inv t'"
    and "table_cap t' = (\<lambda>h. if h \<in> sources m then None else table_cap (proc_handles s) h)"
    and "\<forall>x. held (proc_handles s) x = held t' x + count_list (message_objects (sent_message s m)) x"
    and "w' = snd (notify w (if eo = cp_endpoint_a ch then cp_endpoint_b ch else cp_endpoint_a ch)
           SIGNALS_READABLE)"
proof -
  obtain eo qi where req: "table_require (proc_handles s) r e KChannelEndpoint RIGHT_WRITE = Inr eo"
    and qi: "queue_for_sender ch eo = Inr qi" and room: "qu_length (cp_queues ch ! qi) \<noteq> MAX_QUEUE"
    and ck: "check_transfers (proc_handles s) r (om_transfers m) [0..<om_transfer_count m] = Inr ()"
    using send by (auto simp: channel_send_def split: sum.splits if_splits)
  have qi2: "qi < 2" using queue_index(1) [OF qi] .
  obtain t' where mv: "move_transfers (proc_handles s) r (om_transfers m) [0..<om_transfer_count m]
      (replicate MAX_TRANSFER_HANDLES None) = (Inr (sent_tokens (proc_handles s) m), t')"
    and t': "table_inv t'"
      "table_cap t' = (\<lambda>h. if h \<in> sources m then None else table_cap (proc_handles s) h)"
      "\<forall>x. held (proc_handles s) x = held t' x + count_list (message_objects (sent_message s m)) x"
    using preflight_moves [OF assms(1,2,4) ck] unfolding message_objects_sent [OF assms(4)] by blast
  obtain q' where push: "queue_push (cp_queues ch ! qi) (sent_message s m) = (Inr (), q')"
    using room by (simp add: queue_push_def)
  have "qu_length (cp_queues ch ! qi) < MAX_QUEUE"
    using channel_inv_queue(1) [OF assms(3) qi2] room by (simp add: queue_inv_def)
  moreover have "channel_send ch r s e m w =
      (Inr (), ch\<lparr>cp_queues := (cp_queues ch)[qi := q']\<rparr>, s\<lparr>proc_handles := t'\<rparr>,
       snd (notify w (if eo = cp_endpoint_a ch then cp_endpoint_b ch else cp_endpoint_a ch)
           SIGNALS_READABLE))"
    using req qi room ck mv push by (simp add: channel_send_def sent_message_def)
  ultimately show ?thesis using that [OF req qi qi2 ck push _ _ _ t'] send by simp
qed

lemma channel_send_inv:
  assumes "reg_inv r" and "table_inv (proc_handles s)" and "channel_inv ch" and "outgoing_ok m"
    and send: "channel_send ch r s e m w = (Inr (), ch', s', w')"
  shows "channel_inv ch'" and "table_inv (proc_handles s')"
    and "held (proc_handles s') x + escrow ch' x = held (proc_handles s) x + escrow ch x"
    and "wait_inv w \<Longrightarrow> wait_inv w'"
    and "cp_object ch' = cp_object ch" and "cp_endpoint_a ch' = cp_endpoint_a ch"
    and "cp_endpoint_b ch' = cp_endpoint_b ch"
    and "proc_id s' = proc_id s" and "proc_address_space s' = proc_address_space s"
proof -
  from send obtain eo qi q' t' where
    "table_require (proc_handles s) r e KChannelEndpoint RIGHT_WRITE = Inr eo"
    "queue_for_sender ch eo = Inr qi" and qi: "qi < 2"
    and "check_transfers (proc_handles s) r (om_transfers m) [0..<om_transfer_count m] = Inr ()"
    and push: "queue_push (cp_queues ch ! qi) (sent_message s m) = (Inr (), q')"
    and room: "qu_length (cp_queues ch ! qi) < MAX_QUEUE"
    and ch': "ch' = ch\<lparr>cp_queues := (cp_queues ch)[qi := q']\<rparr>"
    and s': "s' = s\<lparr>proc_handles := t'\<rparr>" "table_inv t'"
    and "table_cap t' = (\<lambda>h. if h \<in> sources m then None else table_cap (proc_handles s) h)"
    and held: "\<forall>x. held (proc_handles s) x =
      held t' x + count_list (message_objects (sent_message s m)) x"
    and w': "w' = snd (notify w (if eo = cp_endpoint_a ch then cp_endpoint_b ch else cp_endpoint_a ch)
           SIGNALS_READABLE)"
    by (rule channel_send_ok [OF assms(1-4)])
  note q = channel_inv_queue [OF assms(3) qi]
  note po = queue_push_ok(2) [OF q(1) room push] queue_push_objects [OF q(1) room push]
  show "channel_inv ch'" unfolding ch'
  proof (rule channel_inv_put [OF assms(3) po(1)])
    fix m' assume "Some m' \<in> set (qu_entries q')"
    then show "message_ok m'" using po(3) q(2) sent_message_ok [OF assms(4)] by blast
  qed
  have "qi < length (cp_queues ch)" using qi assms(3) by (simp add: channel_inv_def)
  from escrow_put [OF this, of q' x]
  show "held (proc_handles s') x + escrow ch' x = held (proc_handles s) x + escrow ch x"
    using spec [OF held, of x] po(2) [of x] by (simp add: ch' s')
  show "table_inv (proc_handles s')" using s' by simp
  show "wait_inv w \<Longrightarrow> wait_inv w'" by (simp add: w' notify_inv)
  show "cp_object ch' = cp_object ch" "cp_endpoint_a ch' = cp_endpoint_a ch"
    "cp_endpoint_b ch' = cp_endpoint_b ch" "proc_id s' = proc_id s"
    "proc_address_space s' = proc_address_space s" by (simp_all add: ch' s')
qed

section \<open>A receive installs everything or nothing\<close>

text \<open>The queue with another message in its head slot; the install loop only takes tokens out
  of that message.\<close>

definition set_head :: "queue \<Rightarrow> queued_message \<Rightarrow> queue" where
  "set_head q m = q\<lparr>qu_entries := (qu_entries q)[qu_head q := Some m]\<rparr>"

lemma set_head_simps:
  assumes "qu_head q < length (qu_entries q)"
  shows "queue_peek (set_head q m) = Some m"
    and "queue_token (set_head q m) i = array_get (qm_tokens m) i"
    and "queue_put_token (set_head q m) i tok = set_head q (m\<lparr>qm_tokens := (qm_tokens m)[i := tok]\<rparr>)"
    and "queue_pop (set_head q m) = (Some m, snd (queue_pop (set_head q m)))"
    and "qu_entries q ! qu_head q \<noteq> None \<Longrightarrow> snd (queue_pop (set_head q m)) = snd (queue_pop q)"
  using assms by (auto simp: set_head_def queue_peek_def queue_token_def queue_put_token_def queue_pop_def)

lemma set_head_same:
  assumes "qu_entries q ! qu_head q = Some m"
  shows "set_head q m = q"
proof -
  have "(qu_entries q)[qu_head q := Some m] = qu_entries q"
    using list_update_id [of "qu_entries q" "qu_head q"] assms by simp
  then show ?thesis by (simp add: set_head_def)
qed

lemma validate_tokens_iff:
  assumes "reg_inv r"
  shows "validate_tokens r obs = Inr () \<longleftrightarrow> (\<forall>ob \<in> set obs. reg_live r ob)"
  by (induction obs) (auto simp: validate_iff_live [OF assms, symmetric] split: sum.splits)

abbreviation token_cap :: "transfer_token option list \<Rightarrow> nat \<Rightarrow> capability" where
  "token_cap tokens i \<equiv> tt_capability (the (tokens ! i))"

lemma install_tokens_ok:
  assumes "reg_inv r" and "table_inv t" and "qu_head q < length (qu_entries q)" and "distinct is"
    and "has_capacity t (length is)"
    and "\<forall>i \<in> set is. i < length (qm_tokens m) \<and> i < length handles \<and>
      qm_tokens m ! i \<noteq> None \<and> reg_live r (cap_object (token_cap (qm_tokens m) i))"
  shows "\<exists>hs m' t'. install_tokens (set_head q m) r t is handles = (Inr hs, set_head q m', t') \<and>
    table_inv t' \<and> length hs = length handles \<and>
    (\<forall>i < length handles. i \<notin> set is \<longrightarrow> hs ! i = handles ! i) \<and>
    (\<forall>i \<in> set is. \<exists>h. hs ! i = Some h \<and> table_cap t h = None \<and>
       table_cap t' h = Some (token_cap (qm_tokens m) i)) \<and>
    (\<forall>h c. table_cap t h = Some c \<longrightarrow> table_cap t' h = Some c) \<and>
    (\<forall>h c. table_cap t' h = Some c \<longrightarrow> table_cap t h = Some c \<or>
       (\<exists>i \<in> set is. hs ! i = Some h \<and> c = token_cap (qm_tokens m) i)) \<and>
    (\<forall>x. held t' x = held t x +
       count_list (map (\<lambda>i. cap_object (token_cap (qm_tokens m) i)) is) x)"
  using assms(2,4-)
proof (induction "is" arbitrary: t m handles)
  case Nil
  then show ?case by auto
next
  case (Cons k ks)
  let ?c = "token_cap (qm_tokens m) k"
  obtain tok where tok: "qm_tokens m ! k = Some tok" and live: "reg_live r (cap_object ?c)"
    using bspec [OF Cons.prems(4), of k] by auto
  have k: "k < length (qm_tokens m)" "k < length handles" using bspec [OF Cons.prems(4), of k] by auto
  obtain h t1 where inst: "install_capability t (cap_object ?c) (cap_rights ?c) = (Inr h, t1)"
    and room: "has_capacity t1 (length ks)"
    using install_capacity [of t "length ks" "cap_object ?c" "cap_rights ?c"] Cons.prems(3) by auto
  note io = install_ok [OF Cons.prems(1) inst]
  have ceq: "\<lparr>cap_object = cap_object ?c, cap_rights = cap_rights ?c\<rparr> = ?c" by simp
  define m1 where "m1 = m\<lparr>qm_tokens := (qm_tokens m)[k := None]\<rparr>"
  have it: "install_token t r (Some tok) = (Inr h, t1, None)"
    using inst validate_live_Inr [OF assms(1) live] tok by (simp add: install_token_def Let_def)
  have tk1: "qm_tokens m1 ! i = qm_tokens m ! i" if "i \<in> set ks" for i
  proof -
    have "k \<noteq> i" using that Cons.prems(2) by auto
    then show ?thesis by (simp add: m1_def)
  qed
  have pre: "\<forall>i \<in> set ks. i < length (qm_tokens m1) \<and> i < length (handles[k := Some h]) \<and>
      qm_tokens m1 ! i \<noteq> None \<and> reg_live r (cap_object (token_cap (qm_tokens m1) i))"
  proof
    fix i assume i: "i \<in> set ks"
    show "i < length (qm_tokens m1) \<and> i < length (handles[k := Some h]) \<and>
      qm_tokens m1 ! i \<noteq> None \<and> reg_live r (cap_object (token_cap (qm_tokens m1) i))"
      using bspec [OF Cons.prems(4), of i] i unfolding tk1 [OF i] by (simp add: m1_def)
  qed
  have dks: "distinct ks" using Cons.prems(2) by simp
  obtain hs m' t' where IH:
    "install_tokens (set_head q m1) r t1 ks (handles[k := Some h]) = (Inr hs, set_head q m', t')"
    "table_inv t'" "length hs = length (handles[k := Some h])"
    "\<forall>i < length (handles[k := Some h]). i \<notin> set ks \<longrightarrow> hs ! i = handles[k := Some h] ! i"
    "\<forall>i \<in> set ks. \<exists>h. hs ! i = Some h \<and> table_cap t1 h = None \<and>
       table_cap t' h = Some (token_cap (qm_tokens m1) i)"
    "\<forall>h c. table_cap t1 h = Some c \<longrightarrow> table_cap t' h = Some c"
    "\<forall>h c. table_cap t' h = Some c \<longrightarrow> table_cap t1 h = Some c \<or>
       (\<exists>i \<in> set ks. hs ! i = Some h \<and> c = token_cap (qm_tokens m1) i)"
    "\<forall>x. held t' x = held t1 x +
       count_list (map (\<lambda>i. cap_object (token_cap (qm_tokens m1) i)) ks) x"
    using Cons.IH [OF io(1) dks room pre] by (elim exE conjE) (rule that)
  have run: "install_tokens (set_head q m) r t (k # ks) handles = (Inr hs, set_head q m', t')"
    using set_head_simps(1-3) [OF assms(3), of m] k(1) tok it IH(1)
    by (simp add: array_get_def m1_def)
  have hk: "hs ! k = Some h" using spec [OF IH(4), of k] k(2) Cons.prems(2) by simp
  have cap1: "table_cap t1 = (table_cap t)(h \<mapsto> ?c)" using io(3) ceq by simp
  have each: "\<exists>h. hs ! i = Some h \<and> table_cap t h = None \<and>
       table_cap t' h = Some (token_cap (qm_tokens m) i)" if "i \<in> set (k # ks)" for i
  proof (cases "i = k")
    case True
    then show ?thesis using hk io(2) cap1 IH(6) by simp
  next
    case False
    then have i: "i \<in> set ks" using that by simp
    then obtain h' where "hs ! i = Some h'" "table_cap t1 h' = None"
      "table_cap t' h' = Some (token_cap (qm_tokens m) i)"
      using bspec [OF IH(5) i] tk1 [OF i] by auto
    then show ?thesis using cap1 by (auto split: if_splits)
  qed
  have keep: "table_cap t' h' = Some c" if "table_cap t h' = Some c" for h' c
  proof -
    have "h' \<noteq> h" using that io(2) by auto
    then have "table_cap t1 h' = Some c" using that cap1 by simp
    then show ?thesis using IH(6) by simp
  qed
  have new: "table_cap t h' = Some c \<or> (\<exists>i \<in> set (k # ks). hs ! i = Some h' \<and>
      c = token_cap (qm_tokens m) i)" if "table_cap t' h' = Some c" for h' c
  proof -
    from IH(7) that consider "table_cap t1 h' = Some c"
      | i where "i \<in> set ks" "hs ! i = Some h'" "c = token_cap (qm_tokens m1) i" by blast
    then show ?thesis
    proof cases
      case 1
      then show ?thesis using cap1 hk by (cases "h' = h") auto
    next
      case (2 i)
      then show ?thesis using tk1 [OF 2(1)] by auto
    qed
  qed
  have "map (\<lambda>i. cap_object (token_cap (qm_tokens m1) i)) ks =
      map (\<lambda>i. cap_object (token_cap (qm_tokens m) i)) ks" by (simp add: tk1 cong: map_cong)
  then have cnt: "held t' x = held t x +
      count_list (map (\<lambda>i. cap_object (token_cap (qm_tokens m) i)) (k # ks)) x" for x
    using spec [OF IH(8), of x] fun_cong [OF io(4), of x] by (simp del: map_eq_conv)
  have same: "\<forall>i < length handles. i \<notin> set (k # ks) \<longrightarrow> hs ! i = handles ! i"
    using IH(4) by auto
  show ?case
    by (intro exI [of _ hs] exI [of _ m'] exI [of _ t'] conjI)
       (rule run, rule IH(2), simp add: IH(3), rule same, intro ballI, erule each, intro allI impI, erule keep,
        intro allI impI, erule new, intro allI, rule cnt)
qed

lemma message_objects_eq:
  assumes "message_ok m"
  shows "message_objects m =
    map (\<lambda>i. cap_object (token_cap (qm_tokens m) i)) [0..<qm_token_count m]"
proof -
  have "take (qm_token_count m) (qm_tokens m) =
      map (\<lambda>i. Some (the (qm_tokens m ! i))) [0..<qm_token_count m]"
    by (rule nth_equalityI) (use assms in \<open>auto simp: message_ok_def\<close>)
  then show ?thesis
    by (simp add: message_objects_def map_filter_map_Some map_filter_all)
qed

text \<open>What a receive does once the endpoint is resolved and the queue is not empty: it refuses
  and changes nothing, or it delivers the oldest message.\<close>

definition delivered ::
  "queued_message \<Rightarrow> handle_table \<Rightarrow> handle_table \<Rightarrow> received_message \<Rightarrow> bool" where
  "delivered m t t' rm \<longleftrightarrow>
     rm_sender_process_id rm = qm_sender_process_id m \<and> rm_header rm = qm_header m \<and>
     received_payload rm = take (qm_payload_len m) (qm_payload m) \<and>
     rm_handle_count rm = qm_token_count m \<and>
     (\<forall>i < qm_token_count m. \<exists>h. received_handle rm i = Some h \<and> table_cap t h = None \<and>
        table_cap t' h = Some (token_cap (qm_tokens m) i)) \<and>
     (\<forall>h c. table_cap t h = Some c \<longrightarrow> table_cap t' h = Some c) \<and>
     (\<forall>h c. table_cap t' h = Some c \<longrightarrow> table_cap t h = Some c \<or>
        (\<exists>i < qm_token_count m. received_handle rm i = Some h \<and> c = token_cap (qm_tokens m) i))"

lemma receive_installs:
  assumes "reg_inv r" and "table_inv t" and q: "queue_inv q" "queue_contents q = m # ms"
    and m: "message_ok m" and cap: "has_capacity t (qm_token_count m)"
    and val: "validate_tokens r (message_objects m) = Inr ()"
  obtains hs q1 t1 q2 where
    "install_tokens q r t [0..<qm_token_count m] (replicate MAX_TRANSFER_HANDLES None) = (Inr hs, q1, t1)"
    and "queue_pop q1 = (Some (the (queue_peek q1)), q2)" and "queue_pop q = (Some m, q2)"
    and "table_inv t1"
    and "delivered m t t1 \<lparr>rm_sender_process_id = qm_sender_process_id m, rm_header = qm_header m,
       rm_payload = qm_payload m, rm_payload_len = qm_payload_len m, rm_handles = hs,
       rm_handle_count = qm_token_count m\<rparr>"
    and "\<forall>x. held t1 x = held t x + count_list (message_objects m) x"
proof -
  obtain q2 where pop: "queue_pop q = (Some m, q2)"
    and h: "qu_head q < length (qu_entries q)" "qu_entries q ! qu_head q = Some m"
    using queue_pop_ok [OF q] by metis
  have live: "reg_live r (cap_object (token_cap (qm_tokens m) i))" if "i < qm_token_count m" for i
    using val that unfolding validate_tokens_iff [OF assms(1)] message_objects_eq [OF m] by simp
  have tk: "\<forall>i \<in> set [0..<qm_token_count m]. i < length (qm_tokens m) \<and>
      i < length (replicate MAX_TRANSFER_HANDLES None) \<and>
      qm_tokens m ! i \<noteq> None \<and> reg_live r (cap_object (token_cap (qm_tokens m) i))"
    using m live by (auto simp: message_ok_def)
  have cap': "has_capacity t (length [0..<qm_token_count m])" using cap by simp
  obtain hs m' t1 where it: "install_tokens (set_head q m) r t [0..<qm_token_count m]
        (replicate MAX_TRANSFER_HANDLES None) = (Inr hs, set_head q m', t1)" "table_inv t1"
    and hs: "length hs = MAX_TRANSFER_HANDLES"
      "\<forall>i \<in> set [0..<qm_token_count m]. \<exists>h. hs ! i = Some h \<and> table_cap t h = None \<and>
         table_cap t1 h = Some (token_cap (qm_tokens m) i)"
      "\<forall>h c. table_cap t h = Some c \<longrightarrow> table_cap t1 h = Some c"
      "\<forall>h c. table_cap t1 h = Some c \<longrightarrow> table_cap t h = Some c \<or>
         (\<exists>i \<in> set [0..<qm_token_count m]. hs ! i = Some h \<and> c = token_cap (qm_tokens m) i)"
    and cnt: "\<forall>x. held t1 x = held t x +
       count_list (map (\<lambda>i. cap_object (token_cap (qm_tokens m) i)) [0..<qm_token_count m]) x"
    using install_tokens_ok [OF assms(1,2) h(1) distinct_upt cap' tk] unfolding length_replicate
    by (elim exE conjE) (rule that)
  have n: "qm_token_count m \<le> length hs" using hs(1) m by (simp add: message_ok_def)
  show ?thesis
  proof (rule that)
    show "install_tokens q r t [0..<qm_token_count m] (replicate MAX_TRANSFER_HANDLES None)
        = (Inr hs, set_head q m', t1)"
      using it(1) set_head_same [OF h(2)] by simp
    show "queue_pop (set_head q m') = (Some (the (queue_peek (set_head q m'))), q2)"
      using set_head_simps(1,4,5) [OF h(1), of m'] h(2) pop by simp
    show "delivered m t t1 \<lparr>rm_sender_process_id = qm_sender_process_id m, rm_header = qm_header m,
       rm_payload = qm_payload m, rm_payload_len = qm_payload_len m, rm_handles = hs,
       rm_handle_count = qm_token_count m\<rparr>"
    proof -
      have rh: "received_handle \<lparr>rm_sender_process_id = qm_sender_process_id m,
         rm_header = qm_header m, rm_payload = qm_payload m, rm_payload_len = qm_payload_len m,
         rm_handles = hs, rm_handle_count = qm_token_count m\<rparr> i = hs ! i"
        if "i < qm_token_count m" for i
        using that n by (simp add: received_handle_def array_get_def)
      have "table_cap t h = Some c \<or> (\<exists>i < qm_token_count m. hs ! i = Some h \<and>
          c = token_cap (qm_tokens m) i)" if "table_cap t1 h = Some c" for h c
        using hs(4) [rule_format, OF that] by auto
      then show ?thesis using hs(2,3) rh
        by (simp add: delivered_def received_payload_def cong: conj_cong)
    qed
    show "\<forall>x. held t1 x = held t x + count_list (message_objects m) x"
      using cnt by (simp add: message_objects_eq [OF m])
  qed (fact pop, fact it(2))
qed

lemma channel_put_same:
  "ch\<lparr>cp_queues := (cp_queues ch)[i := cp_queues ch ! i]\<rparr> = (ch :: channel_pair)"
  by simp

lemma channel_receive_cases:
  assumes inv: "reg_inv r" "table_inv (proc_handles p)" "channel_inv ch"
    and recv: "channel_receive ch r p e = (res, ch', p')"
  shows "(\<exists>err. res = Inl err) \<and> ch' = ch \<and> p' = p \<or>
    (\<exists>eo qi. table_require (proc_handles p) r e KChannelEndpoint RIGHT_READ = Inr eo \<and>
       queue_for_receiver ch eo = Inr qi \<and> qi < 2 \<and>
       (res = Inr None \<and> queue_contents (cp_queues ch ! qi) = [] \<and> ch' = ch \<and> p' = p \<or>
        (\<exists>m ms q2 t1 rm. res = Inr (Some rm) \<and> queue_contents (cp_queues ch ! qi) = m # ms \<and>
           queue_pop (cp_queues ch ! qi) = (Some m, q2) \<and> message_ok m \<and>
           ch' = ch\<lparr>cp_queues := (cp_queues ch)[qi := q2]\<rparr> \<and> p' = p\<lparr>proc_handles := t1\<rparr> \<and>
           table_inv t1 \<and> delivered m (proc_handles p) t1 rm \<and>
           (\<forall>x. held t1 x = held (proc_handles p) x + count_list (message_objects m) x))))"
proof (cases "table_require (proc_handles p) r e KChannelEndpoint RIGHT_READ")
  case (Inl err)
  then show ?thesis using recv by (auto simp: channel_receive_def)
next
  case req: (Inr eo)
  show ?thesis
  proof (cases "queue_for_receiver ch eo")
    case (Inl err)
    then show ?thesis using recv req by (auto simp: channel_receive_def)
  next
    case qi: (Inr qi)
    have qi2: "qi < 2" using queue_index(2) [OF qi] .
    note q = channel_inv_queue [OF inv(3) qi2]
    let ?q = "cp_queues ch ! qi"
    show ?thesis
    proof (cases "queue_contents ?q")
      case Nil
      then have "queue_peek ?q = None" using queue_peek_eq [OF q(1)] by simp
      then show ?thesis using recv req qi qi2 Nil by (simp add: channel_receive_def)
    next
      case (Cons m ms)
      then have pk: "queue_peek ?q = Some m" using queue_peek_eq [OF q(1)] by simp
      have m: "message_ok m"
        using queue_pop_objects(3) [OF q(1) Cons] queue_pop_ok [OF q(1) Cons] q(2) by metis
      show ?thesis
      proof (cases "has_capacity (proc_handles p) (qm_token_count m) \<and>
          validate_tokens r (message_objects m) = Inr ()")
        case False
        have "\<exists>err. channel_receive ch r p e = (Inl err, ch, p)"
        proof (cases "has_capacity (proc_handles p) (qm_token_count m)")
          case True
          then obtain err where "validate_tokens r (message_objects m) = Inl err"
            using False by (cases "validate_tokens r (message_objects m)") auto
          then show ?thesis using True req qi pk by (simp add: channel_receive_def)
        qed (use req qi pk in \<open>simp add: channel_receive_def\<close>)
        then show ?thesis using recv by simp
      next
        case True
        then obtain hs q1 t1 q2 where
          it: "install_tokens ?q r (proc_handles p) [0..<qm_token_count m]
              (replicate MAX_TRANSFER_HANDLES None) = (Inr hs, q1, t1)"
          and pop1: "queue_pop q1 = (Some (the (queue_peek q1)), q2)"
          and pop: "queue_pop ?q = (Some m, q2)" and t1: "table_inv t1"
          and dl: "delivered m (proc_handles p) t1 \<lparr>rm_sender_process_id = qm_sender_process_id m,
             rm_header = qm_header m, rm_payload = qm_payload m,
             rm_payload_len = qm_payload_len m, rm_handles = hs,
             rm_handle_count = qm_token_count m\<rparr>"
          and cnt: "\<forall>x. held t1 x = held (proc_handles p) x + count_list (message_objects m) x"
          using receive_installs [OF inv(1,2) q(1) Cons m] by blast
        have "channel_receive ch r p e = (Inr (Some \<lparr>rm_sender_process_id = qm_sender_process_id m,
             rm_header = qm_header m, rm_payload = qm_payload m,
             rm_payload_len = qm_payload_len m, rm_handles = hs,
             rm_handle_count = qm_token_count m\<rparr>),
            ch\<lparr>cp_queues := (cp_queues ch)[qi := q2]\<rparr>, p\<lparr>proc_handles := t1\<rparr>)"
          using req qi pk True it pop1 by (simp add: channel_receive_def)
        then show ?thesis using recv req qi qi2 Cons pop m t1 dl cnt
          by simp (rule exI [of _ t1], simp)
      qed
    qed
  qed
qed

lemma channel_receive_err:
  assumes "reg_inv r" and "table_inv (proc_handles p)" and "channel_inv ch"
    and "channel_receive ch r p e = (Inl err, ch', p')"
  shows "ch' = ch \<and> p' = p"
  using channel_receive_cases [OF assms] by auto

lemma channel_receive_none:
  assumes "reg_inv r" and "table_inv (proc_handles p)" and "channel_inv ch"
    and "channel_receive ch r p e = (Inr None, ch', p')"
  shows "ch' = ch \<and> p' = p"
  using channel_receive_cases [OF assms] by auto

lemma channel_receive_some:
  assumes "reg_inv r" and "table_inv (proc_handles p)" and "channel_inv ch"
    and "channel_receive ch r p e = (Inr (Some rm), ch', p')"
  obtains eo qi m ms q2 t1 where
    "table_require (proc_handles p) r e KChannelEndpoint RIGHT_READ = Inr eo"
    and "queue_for_receiver ch eo = Inr qi" and "qi < 2"
    and "queue_contents (cp_queues ch ! qi) = m # ms"
    and "queue_pop (cp_queues ch ! qi) = (Some m, q2)" and "message_ok m"
    and "ch' = ch\<lparr>cp_queues := (cp_queues ch)[qi := q2]\<rparr>" and "p' = p\<lparr>proc_handles := t1\<rparr>"
    and "table_inv t1" and "delivered m (proc_handles p) t1 rm"
    and "\<forall>x. held t1 x = held (proc_handles p) x + count_list (message_objects m) x"
  using channel_receive_cases [OF assms] by auto

lemma channel_receive_inv:
  assumes "reg_inv r" and "table_inv (proc_handles p)" and inv: "channel_inv ch"
    and recv: "channel_receive ch r p e = (Inr (Some rm), ch', p')"
  shows "channel_inv ch'" and "table_inv (proc_handles p')"
    and "held (proc_handles p') x + escrow ch' x = held (proc_handles p) x + escrow ch x"
    and "cp_object ch' = cp_object ch" and "cp_endpoint_a ch' = cp_endpoint_a ch"
    and "cp_endpoint_b ch' = cp_endpoint_b ch"
    and "proc_id p' = proc_id p" and "proc_address_space p' = proc_address_space p"
proof -
  from recv obtain eo qi m ms q2 t1 where
    "table_require (proc_handles p) r e KChannelEndpoint RIGHT_READ = Inr eo"
    "queue_for_receiver ch eo = Inr qi" and qi: "qi < 2"
    and cont: "queue_contents (cp_queues ch ! qi) = m # ms"
    and pop: "queue_pop (cp_queues ch ! qi) = (Some m, q2)" and "message_ok m"
    and ch': "ch' = ch\<lparr>cp_queues := (cp_queues ch)[qi := q2]\<rparr>"
    and p': "p' = p\<lparr>proc_handles := t1\<rparr>" "table_inv t1"
    and "delivered m (proc_handles p) t1 rm"
    and cnt: "\<forall>x. held t1 x = held (proc_handles p) x + count_list (message_objects m) x"
    by (rule channel_receive_some [OF assms(1-3)])
  note q = channel_inv_queue [OF inv qi]
  note po = queue_pop_objects [OF q(1) cont pop]
  have q2: "queue_inv q2" using queue_pop_ok [OF q(1) cont] pop by (metis prod.inject)
  show "channel_inv ch'" unfolding ch' by (rule channel_inv_put [OF inv q2]) (use po(2) q(2) in blast)
  have "qi < length (cp_queues ch)" using qi inv by (simp add: channel_inv_def)
  from escrow_put [OF this, of q2 x]
  show "held (proc_handles p') x + escrow ch' x = held (proc_handles p) x + escrow ch x"
    using spec [OF cnt, of x] po(1) [of x] by (simp add: ch' p')
  show "table_inv (proc_handles p')" using p' by simp
  show "cp_object ch' = cp_object ch" "cp_endpoint_a ch' = cp_endpoint_a ch"
    "cp_endpoint_b ch' = cp_endpoint_b ch" "proc_id p' = proc_id p"
    "proc_address_space p' = proc_address_space p" by (simp_all add: ch' p')
qed

section \<open>Draining a channel\<close>

lemma drain_tokens_ok:
  assumes "reg_inv r" and "\<And>x. count_list obs x \<le> reg_refs r x"
  shows "\<exists>r'. drain_tokens obs err r = (err, r') \<and> reg_inv r' \<and>
    (\<forall>x. reg_refs r' x + count_list obs x = reg_refs r x)"
  using assms
proof (induction obs arbitrary: r)
  case Nil
  then show ?case by simp
next
  case (Cons ob obs)
  have "0 < reg_refs r ob" using Cons.prems(2) [of ob] by simp
  then obtain r1 where r1: "registry_release r ob = (Inr (), r1)"
    using release_ok_iff [OF Cons.prems(1), of ob] reg_refs_pos_iff [OF Cons.prems(1), of ob]
    by (cases "registry_release r ob") auto
  have refs: "reg_refs r1 = (reg_refs r)(ob := reg_refs r ob - 1)" by (rule release_refs [OF r1])
  have "count_list obs x \<le> reg_refs r1 x" for x
    using Cons.prems(2) [of x] by (auto simp: refs)
  then obtain r' where "drain_tokens obs err r1 = (err, r')" "reg_inv r'"
    "\<forall>x. reg_refs r' x + count_list obs x = reg_refs r1 x"
    using Cons.IH [OF release_inv [OF Cons.prems(1) r1]] by blast
  then show ?case using r1 refs \<open>0 < reg_refs r ob\<close> by auto
qed

lemma queue_empty_objects:
  assumes "queue_inv q" and "queue_contents q = []"
  shows "queue_objects q = []"
proof -
  have "qu_length q = 0" using assms(2) length_queue_contents [of q] by simp
  have "qu_entries q ! k = None" if k: "k < MAX_QUEUE" for k
  proof -
    define i where "i = (k + MAX_QUEUE - qu_head q) mod MAX_QUEUE"
    have "qu_head q < MAX_QUEUE" using assms(1) by (simp add: queue_inv_def)
    then have "(qu_head q + i) mod MAX_QUEUE = k"
      using k by (simp add: i_def mod_add_right_eq)
    moreover have "i < MAX_QUEUE" by (simp add: i_def)
    moreover have "j < MAX_QUEUE \<Longrightarrow>
        qu_entries q ! ((qu_head q + j) mod MAX_QUEUE) \<noteq> None \<longleftrightarrow> j < qu_length q" for j
      using assms(1) by (simp add: queue_inv_def)
    ultimately show ?thesis using \<open>qu_length q = 0\<close> by fastforce
  qed
  then have "x = None" if "x \<in> set (qu_entries q)" for x
    using that assms(1) by (metis in_set_conv_nth queue_inv_def)
  then have "entry_objects x = []" if "x \<in> set (qu_entries q)" for x
    using that by (auto simp: entry_objects_def split: option.split)
  then show ?thesis by (simp add: queue_objects_def)
qed

lemma drain_queue_ok:
  assumes "queue_inv q" and "reg_inv r" and "\<And>x. count_list (queue_objects q) x \<le> reg_refs r x"
  shows "\<exists>q' r'. drain_queue q err r = (err, q', r') \<and> queue_inv q' \<and> queue_contents q' = [] \<and>
    queue_objects q' = [] \<and> reg_inv r' \<and>
    (\<forall>m. Some m \<in> set (qu_entries q') \<longrightarrow> Some m \<in> set (qu_entries q)) \<and>
    (\<forall>x. reg_refs r' x + count_list (queue_objects q) x = reg_refs r x)"
  using assms
proof (induction "queue_contents q" arbitrary: q r)
  case Nil
  then have "queue_peek q = None" using queue_peek_eq [of q] by (simp add: eq_commute [of "[]"])
  moreover have "qu_head q < length (qu_entries q)" using Nil.prems(1) by (simp add: queue_inv_def)
  ultimately have "drain_queue q err r = (err, q, r)"
    by (simp add: drain_queue.simps [of q] queue_pop_def queue_peek_def)
  then show ?case
    using Nil queue_empty_objects [OF Nil.prems(1)] by (simp add: eq_commute [of "[]"])
next
  case (Cons m ms)
  note cont = Cons.hyps(2) [symmetric]
  obtain q1 where pop: "queue_pop q = (Some m, q1)" and q1: "queue_inv q1" "queue_contents q1 = ms"
    and h: "qu_head q < length (qu_entries q)"
    using queue_pop_ok [OF Cons.prems(1) cont] by metis
  note po = queue_pop_objects [OF Cons.prems(1) cont pop]
  have "count_list (message_objects m) x \<le> reg_refs r x" for x
    using Cons.prems(3) [of x] po(1) [of x] by simp
  then obtain r1 where r1: "drain_tokens (message_objects m) err r = (err, r1)" "reg_inv r1"
    "\<forall>x. reg_refs r1 x + count_list (message_objects m) x = reg_refs r x"
    using drain_tokens_ok [OF Cons.prems(2)] by blast
  have "count_list (queue_objects q1) x \<le> reg_refs r1 x" for x
    using Cons.prems(3) [of x] po(1) [of x] spec [OF r1(3), of x] by simp
  then obtain q' r' where IH: "drain_queue q1 err r1 = (err, q', r')" "queue_inv q'"
    "queue_contents q' = []" "queue_objects q' = []" "reg_inv r'"
    "\<forall>m. Some m \<in> set (qu_entries q') \<longrightarrow> Some m \<in> set (qu_entries q1)"
    "\<forall>x. reg_refs r' x + count_list (queue_objects q1) x = reg_refs r1 x"
    using Cons.hyps(1) [OF q1(2) [symmetric] q1(1) r1(2)] by blast
  have "drain_queue q err r = (err, q', r')"
    using h pop r1(1) IH(1) by (simp add: drain_queue.simps [of q])
  moreover have "reg_refs r' x + count_list (queue_objects q) x = reg_refs r x" for x
    using po(1) [of x] spec [OF r1(3), of x] spec [OF IH(7), of x] by simp
  ultimately show ?case using IH(2-6) po(2) by blast
qed

lemma drain_queues_ok:
  assumes "\<And>q. q \<in> set qs \<Longrightarrow> queue_inv q" and "reg_inv r"
    and "\<And>x. count_list (concat (map queue_objects qs)) x \<le> reg_refs r x"
  shows "\<exists>qs' r'. drain_queues qs err r = (err, qs', r') \<and> length qs' = length qs \<and>
    (\<forall>q \<in> set qs'. queue_inv q \<and> queue_contents q = [] \<and> queue_objects q = []) \<and>
    (\<forall>q \<in> set qs'. \<forall>m. Some m \<in> set (qu_entries q) \<longrightarrow>
       (\<exists>q0 \<in> set qs. Some m \<in> set (qu_entries q0))) \<and> reg_inv r' \<and>
    (\<forall>x. reg_refs r' x + count_list (concat (map queue_objects qs)) x = reg_refs r x)"
  using assms
proof (induction qs arbitrary: r)
  case Nil
  then show ?case by simp
next
  case (Cons q qs)
  have "count_list (queue_objects q) x \<le> reg_refs r x" for x using Cons.prems(3) [of x] by simp
  then obtain q' r1 where q': "drain_queue q err r = (err, q', r1)" "queue_inv q'"
    "queue_contents q' = []" "queue_objects q' = []" "reg_inv r1"
    "\<forall>m. Some m \<in> set (qu_entries q') \<longrightarrow> Some m \<in> set (qu_entries q)"
    "\<forall>x. reg_refs r1 x + count_list (queue_objects q) x = reg_refs r x"
    using drain_queue_ok [OF _ Cons.prems(2), of q err] Cons.prems(1) by auto
  have "count_list (concat (map queue_objects qs)) x \<le> reg_refs r1 x" for x
    using Cons.prems(3) [of x] spec [OF q'(7), of x] by simp
  then obtain qs' r' where IH: "drain_queues qs err r1 = (err, qs', r')" "length qs' = length qs"
    "\<forall>q \<in> set qs'. queue_inv q \<and> queue_contents q = [] \<and> queue_objects q = []"
    "\<forall>q \<in> set qs'. \<forall>m. Some m \<in> set (qu_entries q) \<longrightarrow>
       (\<exists>q0 \<in> set qs. Some m \<in> set (qu_entries q0))" "reg_inv r'"
    "\<forall>x. reg_refs r' x + count_list (concat (map queue_objects qs)) x = reg_refs r1 x"
    using Cons.IH [OF _ q'(5)] Cons.prems(1) by (metis list.set_intros(2))
  have "drain_queues (q # qs) err r = (err, q' # qs', r')" using q'(1) IH(1) by simp
  moreover have "reg_refs r' x + count_list (concat (map queue_objects (q # qs))) x = reg_refs r x"
    for x using spec [OF q'(7), of x] spec [OF IH(6), of x] by simp
  ultimately show ?case using q'(2-4,6) IH(2-5)
    by (intro exI [of _ "q' # qs'"] exI [of _ r']) auto
qed

lemma empty_queue_entries:
  assumes inv: "queue_inv q" and e: "queue_contents q = []"
  shows "qu_length q = 0" and "set (qu_entries q) \<subseteq> {None}"
proof -
  show l: "qu_length q = 0" using e by (simp add: queue_contents_def)
  have "qu_entries q ! j = None" if "j < MAX_QUEUE" for j
  proof -
    let ?i = "(j + (MAX_QUEUE - qu_head q)) mod MAX_QUEUE"
    have "(qu_head q + ?i) mod MAX_QUEUE = j"
      using inv that by (simp add: queue_inv_def mod_add_right_eq)
    moreover have "?i < MAX_QUEUE" by simp
    ultimately show ?thesis using inv l unfolding queue_inv_def by (metis not_less_zero)
  qed
  then show "set (qu_entries q) \<subseteq> {None}" using inv by (auto simp: queue_inv_def in_set_conv_nth)
qed

lemma drain_ok:
  assumes "channel_inv ch" and "reg_inv r" and "\<And>x. escrow ch x \<le> reg_refs r x"
  obtains qs r' where "drain ch r = (Inr (), ch\<lparr>cp_queues := qs\<rparr>, r')" and "reg_inv r'"
    and "visit_escrow_objects (ch\<lparr>cp_queues := qs\<rparr>) = []"
    and "\<forall>x. reg_refs r' x + escrow ch x = reg_refs r x"
proof -
  have le: "count_list (concat (map queue_objects (cp_queues ch))) x \<le> reg_refs r x" for x
    using assms(3) [of x] by (simp add: escrow_def visit_escrow_objects_def)
  have qi: "queue_inv q" if "q \<in> set (cp_queues ch)" for q
    using assms(1) that by (simp add: channel_inv_def)
  obtain qs r' where qs: "drain_queues (cp_queues ch) None r = (None, qs, r')" "reg_inv r'"
    "\<forall>q \<in> set qs. queue_inv q \<and> queue_contents q = [] \<and> queue_objects q = []"
    "\<forall>x. reg_refs r' x + count_list (concat (map queue_objects (cp_queues ch))) x = reg_refs r x"
    using drain_queues_ok [OF qi assms(2) le, where err = None] by blast
  show ?thesis
    by (rule that [of qs r'])
       (use qs in \<open>simp_all add: drain_def escrow_def visit_escrow_objects_def\<close>)
qed

lemma drain_empties:
  assumes "channel_inv ch" and "reg_inv r" and "\<And>x. escrow ch x \<le> reg_refs r x"
    and "drain ch r = (res, ch', r')"
  shows "\<exists>qs. ch' = ch\<lparr>cp_queues := qs\<rparr> \<and> length qs = 2 \<and>
    (\<forall>q \<in> set qs. queue_inv q \<and> qu_length q = 0 \<and> set (qu_entries q) \<subseteq> {None})"
proof -
  have le: "count_list (concat (map queue_objects (cp_queues ch))) x \<le> reg_refs r x" for x
    using assms(3) [of x] by (simp add: escrow_def visit_escrow_objects_def)
  have qi: "queue_inv q" if "q \<in> set (cp_queues ch)" for q
    using assms(1) that by (simp add: channel_inv_def)
  obtain qs r1 where "drain_queues (cp_queues ch) None r = (None, qs, r1)" "length qs = length (cp_queues ch)"
    "\<forall>q \<in> set qs. queue_inv q \<and> queue_contents q = []"
    using drain_queues_ok [OF qi assms(2) le, where err = None] by blast
  then show ?thesis using assms(1,4) empty_queue_entries
    by (intro exI [of _ qs]) (auto simp: drain_def channel_inv_def)
qed

section \<open>Properties\<close>

text \<open>C26. The ring buffer refines a bounded first-in first-out queue. On a well-formed ring, whose
  contents are the messages from the head slot on, \<open>push\<close> appends at the end or reports a full
  queue and changes nothing, \<open>peek\<close> shows and \<open>pop\<close> removes the oldest message, and both are
  \<open>None\<close> exactly on an empty queue; the wrap-around of head and tail never loses or reorders a
  message, and the ring stays well formed.\<close>

theorem ring_refines_fifo:
  assumes "queue_inv q"
  shows "(case queue_push q m of
        (Inr _, q') \<Rightarrow> length (queue_contents q) < MAX_QUEUE \<and> queue_inv q' \<and>
          queue_contents q' = queue_contents q @ [m]
      | (Inl e, q') \<Rightarrow> e = CE_QueueFull \<and> length (queue_contents q) = MAX_QUEUE \<and> q' = q) \<and>
    (case queue_contents q of
        [] \<Rightarrow> queue_peek q = None \<and> queue_pop q = (None, q) \<and> \<not> queue_is_readable q
      | x # xs \<Rightarrow> queue_peek q = Some x \<and> queue_is_readable q \<and>
          (case queue_pop q of (y, q') \<Rightarrow> y = Some x \<and> queue_inv q' \<and> queue_contents q' = xs))"
proof (intro conjI)
  show "case queue_push q m of
        (Inr _, q') \<Rightarrow> length (queue_contents q) < MAX_QUEUE \<and> queue_inv q' \<and>
          queue_contents q' = queue_contents q @ [m]
      | (Inl e, q') \<Rightarrow> e = CE_QueueFull \<and> length (queue_contents q) = MAX_QUEUE \<and> q' = q"
  proof (cases "qu_length q = MAX_QUEUE")
    case True
    then show ?thesis by (simp add: queue_push_def)
  next
    case False
    then have room: "qu_length q < MAX_QUEUE" using assms by (simp add: queue_inv_def)
    then show ?thesis using queue_push_ok(1-3) [OF assms room, of m] by (cases "queue_push q m") auto
  qed
  show "case queue_contents q of
        [] \<Rightarrow> queue_peek q = None \<and> queue_pop q = (None, q) \<and> \<not> queue_is_readable q
      | x # xs \<Rightarrow> queue_peek q = Some x \<and> queue_is_readable q \<and>
          (case queue_pop q of (y, q') \<Rightarrow> y = Some x \<and> queue_inv q' \<and> queue_contents q' = xs)"
  proof (cases "queue_contents q")
    case Nil
    then show ?thesis
      using ring.pop_empty [OF assms] ring.peek_head [OF assms] length_queue_contents [of q]
      by (simp add: queue_is_readable_def)
  next
    case (Cons x xs)
    then show ?thesis
      using ring.pop_head [OF assms Cons] ring.peek_head [OF assms] length_queue_contents [of q]
      by (auto simp: queue_is_readable_def)
  qed
qed

definition sample_header :: message_header where
  "sample_header = \<lparr>mh_protocol_id = 7, mh_version = 1, mh_request_id = 42, mh_opcode = 9,
     mh_flags = 0\<rparr>"

definition sample_queued :: queued_message where
  "sample_queued = \<lparr>qm_sender_process_id = 1, qm_header = sample_header,
     qm_payload = replicate 128 0, qm_payload_len = 0, qm_tokens = replicate 4 None,
     qm_token_count = 0\<rparr>"

theorem ring_refines_fifo_witness:
  "queue_inv queue_new \<and> queue_contents (snd (queue_push queue_new sample_queued)) = [sample_queued]"
proof (cases "queue_push queue_new sample_queued")
  case (Pair x q')
  then show ?thesis
    using ring_refines_fifo [OF queue_new_inv, of sample_queued] queue_new_inv
    by (cases x) (simp_all add: queue_new_contents MAX_QUEUE_def)
qed

text \<open>C4. A send delivers everything or changes nothing. If \<open>send\<close> reports an error, the channel,
  the sender's handles and the wait registry are exactly as before, although transfers are moved
  one by one: the preflight has excluded every later failure. If it succeeds, the one message
  appended to the queue of the opposite direction carries the kernel's identity of the sender,
  header, payload and one token per transfer, the transferred handles are gone from the sender and
  no other handle is, and table and queues together hold each object as often as before.\<close>

theorem send_all_or_nothing:
  assumes "reg_inv r" and "table_inv (proc_handles s)" and "channel_inv ch" and "outgoing_ok m"
    and "channel_send ch r s e m w = (res, ch', s', w')"
  shows "case res of
      Inl err \<Rightarrow> ch' = ch \<and> s' = s \<and> w' = w
    | Inr _ \<Rightarrow> channel_inv ch' \<and> table_inv (proc_handles s') \<and>
        (\<exists>eo qi. table_require (proc_handles s) r e KChannelEndpoint RIGHT_WRITE = Inr eo \<and>
           queue_for_sender ch eo = Inr qi \<and>
           queue_contents (cp_queues ch' ! qi) = queue_contents (cp_queues ch ! qi) @
             [\<lparr>qm_sender_process_id = proc_id s, qm_header = om_header m,
               qm_payload = om_payload m, qm_payload_len = om_payload_len m,
               qm_tokens = sent_tokens (proc_handles s) m,
               qm_token_count = om_transfer_count m\<rparr>] \<and>
           cp_queues ch' ! (1 - qi) = cp_queues ch ! (1 - qi)) \<and>
        table_cap (proc_handles s') =
          (\<lambda>h. if h \<in> sources m then None else table_cap (proc_handles s) h) \<and>
        (\<forall>x. held (proc_handles s') x + escrow ch' x = held (proc_handles s) x + escrow ch x)"
proof (cases res)
  case (Inl err)
  then show ?thesis using channel_send_err [OF assms(1-4)] assms(5) by simp
next
  case (Inr u)
  then have send: "channel_send ch r s e m w = (Inr (), ch', s', w')" using assms(5) by simp
  from send obtain eo qi q' t' where
    rq: "table_require (proc_handles s) r e KChannelEndpoint RIGHT_WRITE = Inr eo"
    and qs: "queue_for_sender ch eo = Inr qi" and qi: "qi < 2"
    and "check_transfers (proc_handles s) r (om_transfers m) [0..<om_transfer_count m] = Inr ()"
    and push: "queue_push (cp_queues ch ! qi) (sent_message s m) = (Inr (), q')"
    and room: "qu_length (cp_queues ch ! qi) < MAX_QUEUE"
    and ch': "ch' = ch\<lparr>cp_queues := (cp_queues ch)[qi := q']\<rparr>"
    and s': "s' = s\<lparr>proc_handles := t'\<rparr>" "table_inv t'"
    and cap: "table_cap t' = (\<lambda>h. if h \<in> sources m then None else table_cap (proc_handles s) h)"
    and "\<forall>x. held (proc_handles s) x =
      held t' x + count_list (message_objects (sent_message s m)) x"
    and "w' = snd (notify w (if eo = cp_endpoint_a ch then cp_endpoint_b ch else cp_endpoint_a ch)
           SIGNALS_READABLE)"
    by (rule channel_send_ok [OF assms(1-4)])
  have qil: "qi < length (cp_queues ch)" "qi \<noteq> 1 - qi"
    using qi assms(3) by (simp_all add: channel_inv_def) arith
  have "queue_contents q' = queue_contents (cp_queues ch ! qi) @ [sent_message s m]"
    by (rule queue_push_ok(3) [OF channel_inv_queue(1) [OF assms(3) qi] room push])
  then have "queue_contents (cp_queues ch' ! qi) = queue_contents (cp_queues ch ! qi) @
      [sent_message s m]" and "cp_queues ch' ! (1 - qi) = cp_queues ch ! (1 - qi)"
    using qil by (simp_all add: ch')
  then show ?thesis
    using Inr rq qs cap channel_send_inv(1-3) [OF assms(1-4) send]
    by (auto simp: s' sent_message_def)
qed

text \<open>C5. A receive delivers the oldest message or changes nothing. If \<open>receive\<close> reports an error
  or that the queue is empty, the channel and the receiver are exactly as before: the preflight has
  excluded a failure between two installs, and the rollback path is never entered on a well-formed
  channel. If it returns a message, it is the oldest in the receiver's direction, every token has
  become a fresh handle for its capability in the same position, no other handle of the receiver
  has changed, and table and queues together hold each object as often as before.\<close>

theorem receive_all_or_nothing:
  assumes "reg_inv r" and "table_inv (proc_handles p)" and "channel_inv ch"
    and "channel_receive ch r p e = (res, ch', p')"
  shows "case res of
      Inl err \<Rightarrow> ch' = ch \<and> p' = p
    | Inr None \<Rightarrow> ch' = ch \<and> p' = p
    | Inr (Some rm) \<Rightarrow> channel_inv ch' \<and> table_inv (proc_handles p') \<and>
        (\<exists>eo qi m. table_require (proc_handles p) r e KChannelEndpoint RIGHT_READ = Inr eo \<and>
           queue_for_receiver ch eo = Inr qi \<and>
           queue_contents (cp_queues ch ! qi) = m # queue_contents (cp_queues ch' ! qi) \<and>
           rm_sender_process_id rm = qm_sender_process_id m \<and> rm_header rm = qm_header m \<and>
           received_payload rm = take (qm_payload_len m) (qm_payload m) \<and>
           rm_handle_count rm = qm_token_count m \<and>
           (\<forall>i < qm_token_count m. \<exists>h tok. received_handle rm i = Some h \<and>
              table_cap (proc_handles p) h = None \<and> qm_tokens m ! i = Some tok \<and>
              table_cap (proc_handles p') h = Some (tt_capability tok)) \<and>
           (\<forall>h c. table_cap (proc_handles p) h = Some c \<longrightarrow>
              table_cap (proc_handles p') h = Some c)) \<and>
        (\<forall>x. held (proc_handles p') x + escrow ch' x = held (proc_handles p) x + escrow ch x)"
proof (cases res)
  case (Inl err)
  then show ?thesis using channel_receive_err [OF assms(1-3)] assms(4) by simp
next
  case (Inr o')
  show ?thesis
  proof (cases o')
    case None
    then show ?thesis using Inr channel_receive_none [OF assms(1-3)] assms(4) by simp
  next
    case (Some rm)
    then have recv: "channel_receive ch r p e = (Inr (Some rm), ch', p')" using Inr assms(4) by simp
    then obtain eo qi m ms q2 t1 where
      rq: "table_require (proc_handles p) r e KChannelEndpoint RIGHT_READ = Inr eo"
      and qr: "queue_for_receiver ch eo = Inr qi" and qi: "qi < 2"
      and cont: "queue_contents (cp_queues ch ! qi) = m # ms"
      and pop: "queue_pop (cp_queues ch ! qi) = (Some m, q2)" and mok: "message_ok m"
      and ch': "ch' = ch\<lparr>cp_queues := (cp_queues ch)[qi := q2]\<rparr>"
      and p': "p' = p\<lparr>proc_handles := t1\<rparr>" "table_inv t1"
      and dl: "delivered m (proc_handles p) t1 rm"
      and "\<forall>x. held t1 x = held (proc_handles p) x + count_list (message_objects m) x"
      by (rule channel_receive_some [OF assms(1-3)])
    have "queue_contents q2 = ms"
      using ring.pop_head [OF channel_inv_queue(1) [OF assms(3) qi] cont] pop by auto
    then have c2: "queue_contents (cp_queues ch ! qi) = m # queue_contents (cp_queues ch' ! qi)"
      using cont qi assms(3) by (simp add: ch' channel_inv_def)
    have "\<exists>h tok. received_handle rm i = Some h \<and> table_cap (proc_handles p) h = None \<and>
        qm_tokens m ! i = Some tok \<and> table_cap t1 h = Some (tt_capability tok)"
      if "i < qm_token_count m" for i
    proof -
      have "qm_tokens m ! i \<noteq> None" using mok that by (simp add: message_ok_def)
      then obtain tok where "qm_tokens m ! i = Some tok" by blast
      then show ?thesis using dl that by (auto simp: delivered_def)
    qed
    then show ?thesis
      using Inr Some rq qr c2 dl channel_receive_inv(1-3) [OF assms(1-3) recv]
      by (auto simp: p' delivered_def)
  qed
qed

text \<open>C27. What is sent is what is received. When a send on a well-formed channel succeeds and no earlier
  message was queued in that direction, whatever is queued in the other, a process that holds the peer endpoint with the read right and has room for the
  transferred handles receives, on its next receive, a message with the sender's kernel identity,
  the header and exactly the payload that were sent. Each transferred handle arrives as a handle
  for the same object with the requested rights, which were among the sender's, and the sender no
  longer has it.\<close>

theorem send_receive_roundtrip:
  assumes "reg_inv r" and "table_inv (proc_handles s)" and "table_inv (proc_handles p)"
    and "channel_inv ch" and "outgoing_ok m"
    and send: "channel_send ch r s e m w = (Inr (), ch', s', w')"
    and rs: "table_require (proc_handles s) r e KChannelEndpoint RIGHT_WRITE = Inr eo"
    and rp: "table_require (proc_handles p) r e2 KChannelEndpoint RIGHT_READ = Inr
      (if eo = cp_endpoint_a ch then cp_endpoint_b ch else cp_endpoint_a ch)"
    and empty: "queue_contents (cp_queues ch ! (if eo = cp_endpoint_a ch then 0 else 1)) = []"
    and room: "has_capacity (proc_handles p) (om_transfer_count m)"
  shows "\<exists>rm ch'' p'. channel_receive ch' r p e2 = (Inr (Some rm), ch'', p') \<and>
    rm_sender_process_id rm = proc_id s \<and> rm_header rm = om_header m \<and>
    received_payload rm = take (om_payload_len m) (om_payload m) \<and>
    rm_handle_count rm = om_transfer_count m \<and>
    (\<forall>i < om_transfer_count m. \<exists>h c d. om_transfers m ! i = Some d \<and>
       table_cap (proc_handles s) (hd_source d) = Some c \<and>
       rights_contains (cap_rights c) RIGHT_TRANSFER \<and>
       rights_is_subset_of (hd_rights d) (cap_rights c) \<and>
       table_cap (proc_handles s') (hd_source d) = None \<and>
       received_handle rm i = Some h \<and>
       table_cap (proc_handles p') h =
         Some \<lparr>cap_object = cap_object c, cap_rights = hd_rights d\<rparr>)"
proof -
  from send obtain eo' qi q' t' where
    rq: "table_require (proc_handles s) r e KChannelEndpoint RIGHT_WRITE = Inr eo'"
    and qs: "queue_for_sender ch eo' = Inr qi" and qi: "qi < 2"
    and ck: "check_transfers (proc_handles s) r (om_transfers m) [0..<om_transfer_count m] = Inr ()"
    and push: "queue_push (cp_queues ch ! qi) (sent_message s m) = (Inr (), q')"
    and rm: "qu_length (cp_queues ch ! qi) < MAX_QUEUE"
    and ch': "ch' = ch\<lparr>cp_queues := (cp_queues ch)[qi := q']\<rparr>"
    and s': "s' = s\<lparr>proc_handles := t'\<rparr>" "table_inv t'"
    and cap: "table_cap t' = (\<lambda>h. if h \<in> sources m then None else table_cap (proc_handles s) h)"
    and "\<forall>x. held (proc_handles s) x =
      held t' x + count_list (message_objects (sent_message s m)) x"
    and "w' = snd (notify w (if eo' = cp_endpoint_a ch then cp_endpoint_b ch else cp_endpoint_a ch)
           SIGNALS_READABLE)"
    by (rule channel_send_ok [OF assms(1,2,4,5)])
  have "eo' = eo" using rq rs by simp
  have qil: "qi < length (cp_queues ch)" using qi assms(4) by (simp add: channel_inv_def)
  let ?m = "sent_message s m"
  have q': "queue_inv q'" "queue_contents q' = [?m]"
    using queue_push_ok(2,3) [OF channel_inv_queue(1) [OF assms(4) qi] rm push] empty qs \<open>eo' = eo\<close>
    by (auto simp: queue_for_sender_def split: if_splits)
  let ?peer = "if eo = cp_endpoint_a ch then cp_endpoint_b ch else cp_endpoint_a ch"
  have qr: "queue_for_receiver ch' ?peer = Inr qi"
    using qs \<open>eo' = eo\<close> assms(4)
    by (auto simp: ch' queue_for_sender_def queue_for_receiver_def channel_inv_def split: if_splits)
  have live: "\<exists>c. table_cap (proc_handles s) (hd_source (transfer_at (om_transfers m) i)) = Some c \<and>
      reg_live r (cap_object c) \<and> rights_contains (cap_rights c) RIGHT_TRANSFER \<and>
      rights_is_subset_of (hd_rights (transfer_at (om_transfers m) i)) (cap_rights c)"
    if "i < om_transfer_count m" for i
    using ck that by (auto simp: check_transfers_iff check_move_iff [OF assms(1,2)])
  have val: "validate_tokens r (message_objects ?m) = Inr ()"
    unfolding validate_tokens_iff [OF assms(1)] message_objects_sent [OF assms(5)]
    using live by (fastforce simp: moved_token_def)
  have room': "has_capacity (proc_handles p) (qm_token_count ?m)"
    using room by (simp add: sent_message_def)
  obtain hs q1 t1 q2 where
    it: "install_tokens q' r (proc_handles p) [0..<qm_token_count ?m]
      (replicate MAX_TRANSFER_HANDLES None) = (Inr hs, q1, t1)"
    and pop1: "queue_pop q1 = (Some (the (queue_peek q1)), q2)"
    and dl: "delivered ?m (proc_handles p) t1
       \<lparr>rm_sender_process_id = qm_sender_process_id ?m, rm_header = qm_header ?m,
       rm_payload = qm_payload ?m, rm_payload_len = qm_payload_len ?m, rm_handles = hs,
       rm_handle_count = qm_token_count ?m\<rparr>" (is "delivered _ _ _ ?rm")
    using receive_installs [OF assms(1,3) q' sent_message_ok [OF assms(5)] room' val] by metis
  have pk: "queue_peek (cp_queues ch' ! qi) = Some ?m"
    using queue_peek_eq [OF q'(1)] q'(2) qil by (simp add: ch')
  have run: "channel_receive ch' r p e2 =
      (Inr (Some ?rm), ch'\<lparr>cp_queues := (cp_queues ch')[qi := q2]\<rparr>, p\<lparr>proc_handles := t1\<rparr>)"
    using rp qr pk room' val it pop1 qil by (simp add: channel_receive_def ch')
  have "\<exists>h c d. om_transfers m ! i = Some d \<and>
       table_cap (proc_handles s) (hd_source d) = Some c \<and>
       rights_contains (cap_rights c) RIGHT_TRANSFER \<and>
       rights_is_subset_of (hd_rights d) (cap_rights c) \<and>
       table_cap (proc_handles s') (hd_source d) = None \<and>
       received_handle ?rm i = Some h \<and>
       table_cap t1 h = Some \<lparr>cap_object = cap_object c, cap_rights = hd_rights d\<rparr>"
    if i: "i < om_transfer_count m" for i
  proof -
    have "om_transfers m ! i \<noteq> None" using assms(5) i by (simp add: outgoing_ok_def)
    then obtain d where d: "om_transfers m ! i = Some d" by blast
    have i4: "i < MAX_TRANSFER_HANDLES" using assms(5) i by (simp add: outgoing_ok_def)
    have "hd_source d \<in> sources m" using d i by (force simp: sources_def)
    moreover obtain h where "received_handle ?rm i = Some h"
      "table_cap t1 h = Some (token_cap (qm_tokens ?m) i)"
      using dl i by (auto simp: delivered_def sent_message_def)
    moreover have "token_cap (qm_tokens ?m) i = \<lparr>cap_object =
        cap_object (the (table_cap (proc_handles s) (hd_source d))), cap_rights = hd_rights d\<rparr>"
      using i i4 d by (simp add: sent_message_def sent_tokens_def moved_token_def)
    ultimately show ?thesis using live [OF i] d cap by (auto simp: s')
  qed
  then show ?thesis using run dl
    by (intro exI [of _ ?rm] exI [of _ "ch'\<lparr>cp_queues := (cp_queues ch')[qi := q2]\<rparr>"]
        exI [of _ "p\<lparr>proc_handles := t1\<rparr>"])
       (simp add: delivered_def sent_message_def)
qed

text \<open>C28. Draining a channel empties it and returns every object in transit. On a well-formed channel whose
  queued tokens are covered by the registry's counts, \<open>drain\<close> succeeds, leaves both queues with length
  zero and no message in any slot, changes nothing else of the channel, and takes from each object's count
  exactly the tokens that were queued for it.\<close>

theorem drain_releases_escrow:
  assumes "channel_inv ch" and "reg_inv r" and "\<And>x. escrow ch x \<le> reg_refs r x"
  shows "case drain ch r of (res, ch', r') \<Rightarrow> res = Inr () \<and> reg_inv r' \<and>
    length (cp_queues ch') = 2 \<and>
    (\<forall>q \<in> set (cp_queues ch'). queue_inv q \<and> qu_length q = 0 \<and> (\<forall>x \<in> set (qu_entries q). x = None)) \<and>
    ch'\<lparr>cp_queues := cp_queues ch\<rparr> = ch \<and>
    visit_escrow_objects ch' = [] \<and> (\<forall>x. reg_refs r' x + escrow ch x = reg_refs r x)"
proof -
  obtain qs r' where d: "drain ch r = (Inr (), ch\<lparr>cp_queues := qs\<rparr>, r')" "reg_inv r'"
    "visit_escrow_objects (ch\<lparr>cp_queues := qs\<rparr>) = []"
    "\<forall>x. reg_refs r' x + escrow ch x = reg_refs r x"
    using drain_ok [OF assms] by blast
  moreover obtain qs1 where "ch\<lparr>cp_queues := qs\<rparr> = ch\<lparr>cp_queues := qs1\<rparr>" "length qs1 = 2"
    "\<forall>q \<in> set qs1. queue_inv q \<and> qu_length q = 0 \<and> set (qu_entries q) \<subseteq> {None}"
    using drain_empties [OF assms d(1)] by blast
  moreover from this(1) have "qs = qs1" by (metis channel_pair.select_convs(4) channel_pair.surjective channel_pair.update_convs(4))
  ultimately show ?thesis by auto
qed

text \<open>A channel whose endpoint A is held by one process, together with a transferable VMO, and
  endpoint B by another.\<close>

definition sample_endpoint_a :: object_id where
  "sample_endpoint_a = \<lparr>oid_slot = 1, oid_generation = 1, oid_kind = KChannelEndpoint\<rparr>"

definition sample_endpoint_b :: object_id where
  "sample_endpoint_b = \<lparr>oid_slot = 2, oid_generation = 1, oid_kind = KChannelEndpoint\<rparr>"

definition sample_channel :: channel_pair where
  "sample_channel =
     \<lparr>cp_object = \<lparr>oid_slot = 3, oid_generation = 1, oid_kind = KChannel\<rparr>,
      cp_endpoint_a = sample_endpoint_a, cp_endpoint_b = sample_endpoint_b,
      cp_queues = [queue_new, queue_new]\<rparr>"

definition sample_ipc_registry :: object_registry where
  "sample_ipc_registry = \<lparr>reg_slots = map (\<lambda>k. \<lparr>os_generation = 1, os_kind = Some k,
     os_references = 2, os_retired = False\<rparr>) [KVmo, KChannelEndpoint, KChannelEndpoint, KChannel]\<rparr>"

definition sample_sender :: process where
  "sample_sender = \<lparr>proc_id = 1, proc_address_space = sample_vmo, proc_handles = \<lparr>ht_slots =
     [\<lparr>ts_generation = 1, ts_capability = Some \<lparr>cap_object = sample_endpoint_a,
         cap_rights = RIGHT_READ OR RIGHT_WRITE\<rparr>\<rparr>,
      \<lparr>ts_generation = 1, ts_capability = Some \<lparr>cap_object = sample_vmo,
         cap_rights = RIGHT_READ OR RIGHT_WRITE OR RIGHT_TRANSFER\<rparr>\<rparr>]\<rparr>, proc_state = PS_Running\<rparr>"

definition sample_receiver :: process where
  "sample_receiver = \<lparr>proc_id = 2, proc_address_space = sample_vmo, proc_handles = \<lparr>ht_slots =
     [\<lparr>ts_generation = 1, ts_capability = Some \<lparr>cap_object = sample_endpoint_b,
         cap_rights = RIGHT_READ OR RIGHT_WRITE\<rparr>\<rparr>,
      \<lparr>ts_generation = 1, ts_capability = None\<rparr>]\<rparr>, proc_state = PS_Running\<rparr>"

definition sample_outgoing :: outgoing_message where
  "sample_outgoing =
     snd (add_transfer (snd (set_payload (outgoing_new sample_header) [1, 2, 3]))
       (handle_new 1 1) RIGHT_READ)"

definition sample_send ::
  "(channel_error, unit) result \<times> channel_pair \<times> process \<times> wait_registry" where
  "sample_send = channel_send sample_channel sample_ipc_registry sample_sender (handle_new 0 1)
     sample_outgoing wait_registry_new"

lemma sample_channel_ok:
  "reg_inv sample_ipc_registry" "table_inv (proc_handles sample_sender)"
  "table_inv (proc_handles sample_receiver)" "channel_inv sample_channel"
  "outgoing_ok sample_outgoing"
proof -
  show "reg_inv sample_ipc_registry" "table_inv (proc_handles sample_sender)"
    "table_inv (proc_handles sample_receiver)"
    by (simp_all add: sample_ipc_registry_def sample_sender_def sample_receiver_def reg_inv_def
        slot_ok_def table_inv_def table_slot_ok_def)
  show "channel_inv sample_channel"
    by (simp add: channel_inv_def sample_channel_def sample_endpoint_a_def sample_endpoint_b_def
        queue_new_inv)
  show "outgoing_ok sample_outgoing"
    by (simp add: sample_outgoing_def outgoing_ok_def add_transfer_def set_payload_def
        outgoing_new_def array_get_def MAX_TRANSFER_HANDLES_def MAX_INLINE_PAYLOAD_def)
qed

lemma sample_send_runs: "fst sample_send = Inr ()"
  by code_simp

lemma sample_send_obtain:
  obtains ch' s' w' where "channel_send sample_channel sample_ipc_registry sample_sender
    (handle_new 0 1) sample_outgoing wait_registry_new = (Inr (), ch', s', w')"
    and "sample_send = (Inr (), ch', s', w')"
  using sample_send_runs by (cases sample_send) (auto simp: sample_send_def)

theorem send_all_or_nothing_witness:
  "case sample_send of (res, ch', s', w') \<Rightarrow> res = Inr () \<and> channel_inv ch' \<and>
     table_cap (proc_handles s') (handle_new 1 1) = None"
proof -
  obtain ch' s' w' where send: "channel_send sample_channel sample_ipc_registry sample_sender
    (handle_new 0 1) sample_outgoing wait_registry_new = (Inr (), ch', s', w')"
    and eq: "sample_send = (Inr (), ch', s', w')" by (rule sample_send_obtain)
  have "hd_source (transfer_at (om_transfers sample_outgoing) 0) = handle_new 1 1"
    and "om_transfer_count sample_outgoing = 1" by code_simp+
  then have "handle_new 1 1 \<in> sources sample_outgoing" by (simp add: sources_def)
  then show ?thesis
    using send_all_or_nothing [OF sample_channel_ok(1,2,4,5) send] unfolding eq by simp
qed

theorem receive_all_or_nothing_witness:
  "case sample_send of (res, ch', s', w') \<Rightarrow>
     (case channel_receive ch' sample_ipc_registry sample_receiver (handle_new 0 1) of
        (Inr (Some rm), ch'', p') \<Rightarrow> channel_inv ch'' \<and> table_inv (proc_handles p')
      | _ \<Rightarrow> False)"
proof -
  obtain ch' s' w' where send: "channel_send sample_channel sample_ipc_registry sample_sender
    (handle_new 0 1) sample_outgoing wait_registry_new = (Inr (), ch', s', w')"
    and eq: "sample_send = (Inr (), ch', s', w')" by (rule sample_send_obtain)
  have inv: "channel_inv ch'" by (rule channel_send_inv(1) [OF sample_channel_ok(1,2,4,5) send])
  have run: "case fst (channel_receive (fst (snd sample_send)) sample_ipc_registry sample_receiver
      (handle_new 0 1)) of Inr (Some rm) \<Rightarrow> True | _ \<Rightarrow> False"
    by code_simp
  show ?thesis
  proof (cases "channel_receive ch' sample_ipc_registry sample_receiver (handle_new 0 1)")
    case (fields res ch'' p')
    then show ?thesis
      using receive_all_or_nothing [OF sample_channel_ok(1,3) inv fields] run unfolding eq
      by (simp split: sum.splits option.splits)
  qed
qed

theorem send_receive_roundtrip_witness:
  "case sample_send of (res, ch', s', w') \<Rightarrow>
     (\<exists>rm ch'' p'. channel_receive ch' sample_ipc_registry sample_receiver (handle_new 0 1) =
        (Inr (Some rm), ch'', p') \<and> rm_sender_process_id rm = 1 \<and> received_payload rm = [1, 2, 3])"
proof -
  obtain ch' s' w' where send: "channel_send sample_channel sample_ipc_registry sample_sender
    (handle_new 0 1) sample_outgoing wait_registry_new = (Inr (), ch', s', w')"
    and eq: "sample_send = (Inr (), ch', s', w')" by (rule sample_send_obtain)
  have rs: "table_require (proc_handles sample_sender) sample_ipc_registry (handle_new 0 1)
      KChannelEndpoint RIGHT_WRITE = Inr sample_endpoint_a" by code_simp
  have rp: "table_require (proc_handles sample_receiver) sample_ipc_registry (handle_new 0 1)
      KChannelEndpoint RIGHT_READ = Inr (if sample_endpoint_a = cp_endpoint_a sample_channel
        then cp_endpoint_b sample_channel else cp_endpoint_a sample_channel)" by code_simp
  have em: "queue_contents (cp_queues sample_channel !
      (if sample_endpoint_a = cp_endpoint_a sample_channel then 0 else 1)) = []"
    by (simp add: sample_channel_def queue_new_contents)
  have room: "has_capacity (proc_handles sample_receiver) (om_transfer_count sample_outgoing)"
    by code_simp
  have pid: "proc_id sample_sender = 1" by (simp add: sample_sender_def)
  have pay: "take (om_payload_len sample_outgoing) (om_payload sample_outgoing) = [1, 2, 3]"
    by (simp add: sample_outgoing_def add_transfer_def set_payload_def outgoing_new_def
        array_get_def MAX_TRANSFER_HANDLES_def MAX_INLINE_PAYLOAD_def)
  from send_receive_roundtrip [OF sample_channel_ok(1-5) send rs rp em room]
  show ?thesis unfolding eq pid pay by auto
qed

theorem drain_releases_escrow_witness:
  "case sample_send of (res, ch, s', w') \<Rightarrow>
     (case drain ch sample_ipc_registry of (res', ch', r') \<Rightarrow>
        res' = Inr () \<and> reg_refs r' sample_vmo = 1)"
proof -
  obtain ch' s' w' where send: "channel_send sample_channel sample_ipc_registry sample_sender
    (handle_new 0 1) sample_outgoing wait_registry_new = (Inr (), ch', s', w')"
    and eq: "sample_send = (Inr (), ch', s', w')" by (rule sample_send_obtain)
  have inv: "channel_inv ch'" by (rule channel_send_inv(1) [OF sample_channel_ok(1,2,4,5) send])
  have "visit_escrow_objects (fst (snd sample_send)) = [sample_vmo]" by code_simp
  then have esc: "escrow ch' x = (if x = sample_vmo then 1 else 0)" for x
    by (simp add: escrow_def eq)
  have refs: "reg_refs sample_ipc_registry sample_vmo = 2" by code_simp
  have le: "escrow ch' x \<le> reg_refs sample_ipc_registry x" for x by (simp add: esc refs)
  have "\<forall>x. reg_refs (snd (snd (drain ch' sample_ipc_registry))) x + escrow ch' x =
      reg_refs sample_ipc_registry x \<and> fst (drain ch' sample_ipc_registry) = Inr ()"
    using drain_releases_escrow [OF inv sample_channel_ok(1) le] by (auto split: prod.splits)
  then have "reg_refs (snd (snd (drain ch' sample_ipc_registry))) sample_vmo = 1"
    and "fst (drain ch' sample_ipc_registry) = Inr ()"
    using esc [of sample_vmo] refs by (metis add_diff_cancel_right' one_add_one add_right_cancel)+
  then show ?thesis unfolding eq by (simp add: case_prod_beta)
qed

end
