(* ===== verification/Events.thy ===== *)
theory Events
  imports Channel
begin

text \<open>
  Events, timers and waiting (\<open>kernel/src/ipc.rs\<close>): wait sources and items, \<open>wait_many\<close> and
  \<open>wait\<close>, and the operations a process performs on events and timers through its handles. The
  lemmas show that a wait returns the first ready item or blocks with every item registered, that
  the second readiness check of \<open>wait_many\<close> never differs from the first while the sources are
  borrowed, and that a timer fires at its deadline and not before.
\<close>

section \<open>Events and timers\<close>

record event =
  ev_object :: object_id
  ev_signaled :: bool

record timer =
  tm_object :: object_id
  tm_deadline :: "u64 option"
  tm_fired :: bool

definition event_new :: "object_id \<Rightarrow> event" where
  "event_new ob = \<lparr>ev_object = ob, ev_signaled = False\<rparr>"

definition event_signal :: "event \<Rightarrow> wait_registry \<Rightarrow> event \<times> wait_registry" where
  "event_signal ev q = (ev\<lparr>ev_signaled := True\<rparr>, snd (notify q (ev_object ev) SIGNALS_SIGNALED))"

definition event_clear :: "event \<Rightarrow> event" where
  "event_clear ev = ev\<lparr>ev_signaled := False\<rparr>"

definition timer_new :: "object_id \<Rightarrow> timer" where
  "timer_new ob = \<lparr>tm_object = ob, tm_deadline = None, tm_fired = False\<rparr>"

definition timer_arm :: "timer \<Rightarrow> u64 \<Rightarrow> u64 \<Rightarrow> (wait_error, unit) result \<times> timer" where
  "timer_arm tm now duration =
     (case checked_add now duration of
        None \<Rightarrow> (Inl WE_TooMany, tm)
      | Some deadline \<Rightarrow> (Inr (), tm\<lparr>tm_deadline := Some deadline, tm_fired := False\<rparr>))"

definition deadline_passed :: "timer \<Rightarrow> u64 \<Rightarrow> bool" where
  "deadline_passed tm now \<longleftrightarrow> (case tm_deadline tm of None \<Rightarrow> False | Some d \<Rightarrow> d \<le> now)"

definition timer_poll :: "timer \<Rightarrow> u64 \<Rightarrow> wait_registry \<Rightarrow> timer \<times> wait_registry" where
  "timer_poll tm now q =
     (if \<not> tm_fired tm \<and> deadline_passed tm now
      then (tm\<lparr>tm_fired := True\<rparr>, snd (notify q (tm_object tm) SIGNALS_FIRED))
      else (tm, q))"

section \<open>Wait sources and items\<close>

datatype wait_source =
    WS_Channel channel_pair object_id
  | WS_Event event
  | WS_Timer timer u64

type_synonym item = "wait_source wait_item"

definition item_channel :: "channel_pair \<Rightarrow> object_id \<Rightarrow> signals \<Rightarrow> item" where
  "item_channel ch ob interests =
     \<lparr>wi_source = WS_Channel ch ob, wi_object = ob, wi_interests = interests, wi_observed = 0\<rparr>"

definition item_event :: "event \<Rightarrow> signals \<Rightarrow> item" where
  "item_event ev interests =
     \<lparr>wi_source = WS_Event ev, wi_object = ev_object ev, wi_interests = interests, wi_observed = 0\<rparr>"

definition item_timer :: "timer \<Rightarrow> u64 \<Rightarrow> signals \<Rightarrow> item" where
  "item_timer tm now interests =
     \<lparr>wi_source = WS_Timer tm now, wi_object = tm_object tm, wi_interests = interests,
      wi_observed = 0\<rparr>"

definition observe :: "wait_source \<Rightarrow> signals" where
  "observe src =
     (case src of
        WS_Channel ch ob \<Rightarrow> (case readiness ch ob of Inl _ \<Rightarrow> 0 | Inr s \<Rightarrow> s)
      | WS_Event ev \<Rightarrow> (if ev_signaled ev then SIGNALS_SIGNALED else 0)
      | WS_Timer tm now \<Rightarrow> (if tm_fired tm \<or> deadline_passed tm now then SIGNALS_FIRED else 0))"

definition refresh :: "item \<Rightarrow> item" where
  "refresh it = it\<lparr>wi_observed := observe (wi_source it)\<rparr>"

definition item_is_ready :: "item \<Rightarrow> bool \<times> item" where
  "item_is_ready it =
     (signals_intersects (wi_observed (refresh it)) (wi_interests (refresh it)), refresh it)"

definition channel_wait_item ::
  "channel_pair \<Rightarrow> object_id \<Rightarrow> signals \<Rightarrow> (channel_error, item) result" where
  "channel_wait_item ch endpoint interests =
     (case readiness ch endpoint of
        Inl e \<Rightarrow> Inl e
      | Inr _ \<Rightarrow> Inr (item_channel ch endpoint interests))"

definition channel_wait_item_for_process ::
  "channel_pair \<Rightarrow> object_registry \<Rightarrow> process \<Rightarrow> handle \<Rightarrow> signals \<Rightarrow> (channel_error, item) result" where
  "channel_wait_item_for_process ch r p endpoint interests =
     (case table_require (proc_handles p) r endpoint KChannelEndpoint RIGHT_WAIT of
        Inl e \<Rightarrow> Inl (channel_error_from e)
      | Inr eo \<Rightarrow> channel_wait_item ch eo interests)"

definition event_wait_item_for_process ::
  "event \<Rightarrow> object_registry \<Rightarrow> process \<Rightarrow> handle \<Rightarrow> signals \<Rightarrow> (wait_error, item) result" where
  "event_wait_item_for_process ev r p h interests =
     (case table_require (proc_handles p) r h KEvent RIGHT_WAIT of
        Inl e \<Rightarrow> Inl (wait_error_from e)
      | Inr ob \<Rightarrow> if ob \<noteq> ev_object ev then Inl WE_Stale else Inr (item_event ev interests))"

definition timer_wait_item_for_process ::
  "timer \<Rightarrow> object_registry \<Rightarrow> process \<Rightarrow> handle \<Rightarrow> u64 \<Rightarrow> signals \<Rightarrow> (wait_error, item) result" where
  "timer_wait_item_for_process tm r p h now interests =
     (case table_require (proc_handles p) r h KTimer RIGHT_WAIT of
        Inl e \<Rightarrow> Inl (wait_error_from e)
      | Inr ob \<Rightarrow> if ob \<noteq> tm_object tm then Inl WE_Stale else Inr (item_timer tm now interests))"

section \<open>Waiting\<close>

definition ready_position :: "item list \<Rightarrow> nat option" where
  "ready_position items = position (\<lambda>it. signals_intersects (wi_observed it) (wi_interests it)) items"

definition wait_many ::
  "wait_registry \<Rightarrow> waiter \<Rightarrow> item list \<Rightarrow>
     (wait_error, wait_outcome) result \<times> wait_registry \<times> waiter \<times> item list" where
  "wait_many q w items =
     (if items = [] then (Inl WE_Empty, q, w, items)
      else if MAX_WAIT_ITEMS < length items then (Inl WE_TooMany, q, w, items)
      else
        let w1 = snd (waiter_take_outcome w);
            items1 = map refresh items
        in (case ready_position items1 of
              Some index \<Rightarrow>
                (Inr \<lparr>wo_index = index, wo_observed = wi_observed (items1 ! index)\<rparr>,
                 cancel_wait q w1, w1\<lparr>wt_state := Waiter_Runnable\<rparr>, items1)
            | None \<Rightarrow>
                (case register q w1 items1 of
                   (Inl e, q1, w2) \<Rightarrow> (Inl e, q1, w2\<lparr>wt_state := Waiter_Runnable\<rparr>, items1)
                 | (Inr _, q1, w2) \<Rightarrow>
                     let items2 = map refresh items1 in
                     (case ready_position items2 of
                        Some index \<Rightarrow>
                          (Inr \<lparr>wo_index = index, wo_observed = wi_observed (items2 ! index)\<rparr>,
                           cancel_wait q1 w2, w2\<lparr>wt_state := Waiter_Runnable\<rparr>, items2)
                      | None \<Rightarrow> (Inl WE_Blocked, q1, w2, items2)))))"

definition wait_one ::
  "wait_registry \<Rightarrow> waiter \<Rightarrow> item \<Rightarrow> (wait_error, wait_outcome) result \<times> wait_registry \<times> waiter" where
  "wait_one q w it = (let (res, q', w', _) = wait_many q w [it] in (res, q', w'))"

section \<open>Operations through a process's handles\<close>

definition process_signal_event ::
  "process \<Rightarrow> object_registry \<Rightarrow> handle \<Rightarrow> event \<Rightarrow> wait_registry \<Rightarrow>
     (wait_error, unit) result \<times> event \<times> wait_registry" where
  "process_signal_event p r h ev q =
     (case table_require (proc_handles p) r h KEvent RIGHT_SIGNAL of
        Inl e \<Rightarrow> (Inl (wait_error_from e), ev, q)
      | Inr ob \<Rightarrow>
          if ob \<noteq> ev_object ev then (Inl WE_Stale, ev, q)
          else let (ev', q') = event_signal ev q in (Inr (), ev', q'))"

definition process_clear_event ::
  "process \<Rightarrow> object_registry \<Rightarrow> handle \<Rightarrow> event \<Rightarrow> (wait_error, unit) result \<times> event" where
  "process_clear_event p r h ev =
     (case table_require (proc_handles p) r h KEvent RIGHT_SIGNAL of
        Inl e \<Rightarrow> (Inl (wait_error_from e), ev)
      | Inr ob \<Rightarrow>
          if ob \<noteq> ev_object ev then (Inl WE_Stale, ev) else (Inr (), event_clear ev))"

definition process_arm_timer ::
  "process \<Rightarrow> object_registry \<Rightarrow> handle \<Rightarrow> timer \<Rightarrow> u64 \<Rightarrow> u64 \<Rightarrow>
     (wait_error, unit) result \<times> timer" where
  "process_arm_timer p r h tm now duration =
     (case table_require (proc_handles p) r h KTimer RIGHT_CONTROL of
        Inl e \<Rightarrow> (Inl (wait_error_from e), tm)
      | Inr ob \<Rightarrow> if ob \<noteq> tm_object tm then (Inl WE_Stale, tm) else timer_arm tm now duration)"

definition process_poll_timer ::
  "process \<Rightarrow> object_registry \<Rightarrow> handle \<Rightarrow> timer \<Rightarrow> u64 \<Rightarrow> wait_registry \<Rightarrow>
     (wait_error, unit) result \<times> timer \<times> wait_registry" where
  "process_poll_timer p r h tm now q =
     (case table_require (proc_handles p) r h KTimer RIGHT_CONTROL of
        Inl e \<Rightarrow> (Inl (wait_error_from e), tm, q)
      | Inr ob \<Rightarrow>
          if ob \<noteq> tm_object tm then (Inl WE_Stale, tm, q)
          else let (tm', q') = timer_poll tm now q in (Inr (), tm', q'))"

section \<open>What a wait does\<close>

lemma refresh_idem [simp]: "refresh (refresh it) = refresh it"
  by (simp add: refresh_def)

lemma refresh_fields [simp]:
  "wi_source (refresh it) = wi_source it" "wi_object (refresh it) = wi_object it"
  "wi_interests (refresh it) = wi_interests it" "wi_observed (refresh it) = observe (wi_source it)"
  by (simp_all add: refresh_def)

text \<open>The sources are borrowed for the whole call, so the second refresh observes what the first
  did and the second check finds nothing.\<close>

lemma wait_many_eq:
  assumes "items \<noteq> []" and "length items \<le> MAX_WAIT_ITEMS"
  shows "wait_many q w items =
    (case ready_position (map refresh items) of
       Some i \<Rightarrow> (Inr \<lparr>wo_index = i, wo_observed = observe (wi_source (items ! i))\<rparr>,
                 cancel_wait q w, w\<lparr>wt_wake := None, wt_state := Waiter_Runnable\<rparr>, map refresh items)
     | None \<Rightarrow>
         (case register q (w\<lparr>wt_wake := None\<rparr>) (map refresh items) of
            (Inl e, q1, w2) \<Rightarrow> (Inl e, q1, w2\<lparr>wt_state := Waiter_Runnable\<rparr>, map refresh items)
          | (Inr _, q1, w2) \<Rightarrow> (Inl WE_Blocked, q1, w2, map refresh items)))"
proof -
  have "\<not> MAX_WAIT_ITEMS < length items" using assms(2) by simp
  moreover have "map refresh (map refresh items) = map refresh items" by (simp add: comp_def)
  moreover have "wi_observed (map refresh items ! i) = observe (wi_source (items ! i))"
    if "ready_position (map refresh items) = Some i" for i
    using position_SomeD(1) [OF that [unfolded ready_position_def]] by simp
  ultimately show ?thesis using assms(1)
    by (simp add: wait_many_def waiter_take_outcome_def Let_def cancel_wait_def comp_def
        split: option.split prod.split sum.split)
qed


lemma wait_many_blocked:
  assumes "wait_many q w items = (Inl WE_Blocked, q', w', items')" and "wait_inv q"
  obtains "register q (w\<lparr>wt_wake := None\<rparr>) (map refresh items) = (Inr (), q', w')"
    and "ready_position (map refresh items) = None"
proof -
  have ne: "items \<noteq> []" and len: "length items \<le> MAX_WAIT_ITEMS"
    using assms(1) by (auto simp: wait_many_def split: if_splits)
  have "e = WE_TooMany" if "register q (w\<lparr>wt_wake := None\<rparr>) (map refresh items) = (Inl e, q1, w1)"
    for e q1 w1
    using register_cases [OF assms(2), of "w\<lparr>wt_wake := None\<rparr>" "map refresh items"] that
    by (auto split: if_splits)
  then show ?thesis using that assms(1) unfolding wait_many_eq [OF ne len]
    by (auto split: option.splits sum.splits prod.splits)
qed

lemma ready_position_refresh:
  "case ready_position (map refresh items) of
     None \<Rightarrow> \<forall>it \<in> set items. observe (wi_source it) AND wi_interests it = 0
   | Some i \<Rightarrow> i < length items \<and> observe (wi_source (items ! i)) AND wi_interests (items ! i) \<noteq> 0 \<and>
       (\<forall>j < i. observe (wi_source (items ! j)) AND wi_interests (items ! j) = 0)"
proof (cases "ready_position (map refresh items)")
  case None
  then have "\<forall>it \<in> set items. observe (wi_source it) AND wi_interests it = 0"
    by (simp add: ready_position_def array_simps signals_intersects_def)
  then show ?thesis using None by simp
next
  case (Some i)
  note p = Some [unfolded ready_position_def]
  have "i < length items" using position_SomeD(1) [OF p] by simp
  then show ?thesis using Some position_SomeD(2) [OF p] position_SomeD(3) [OF p]
    by (auto simp: signals_intersects_def)
qed

section \<open>Properties\<close>

text \<open>C29. A wait returns the first ready item or blocks with every item registered. \<open>wait_many\<close> refuses an
  empty list and more than \<open>MAX_WAIT_ITEMS\<close> items without any effect. Otherwise it succeeds exactly if
  some item is ready, and then with the least such index, the signals observed there, a runnable waiter
  and no registration of the waiter's current wait. If none is ready it reports \<open>Blocked\<close> with a blocked waiter
  whose registrations are exactly one per item, or, exactly if they do not fit beside what other waiters
  hold, \<open>TooMany\<close> with a runnable waiter and no registration of it left behind. In every case the registrations and the queued wakeups of all other waiters stay as they
  are, and the capacity invariant of the wait registry is kept.\<close>

theorem wait_many_correct:
  assumes inv: "wait_inv q" and wm: "wait_many q w items = (res, q', w', items')"
  defines "ready it \<equiv> observe (wi_source it) AND wi_interests it \<noteq> 0"
  shows "wait_inv q' \<and>
    (if items = [] then res = Inl WE_Empty \<and> q' = q \<and> w' = w
     else if MAX_WAIT_ITEMS < length items then res = Inl WE_TooMany \<and> q' = q \<and> w' = w
     else if \<exists>it \<in> set items. ready it then
       \<exists>i < length items. ready (items ! i) \<and> (\<forall>j < i. \<not> ready (items ! j)) \<and>
         res = Inr \<lparr>wo_index = i, wo_observed = observe (wi_source (items ! i))\<rparr> \<and> waiter_is_runnable w' \<and>
         (\<forall>e. Some e \<in> set (wq_registrations q') \<longrightarrow> \<not> (wr_waiter_id e = wt_id w \<and> wr_epoch e = wt_epoch w'))
     else if MAX_WAIT_WAKEUPS < load_of_others q (wt_id w) + length items then
       res = Inl WE_TooMany \<and> waiter_is_runnable w' \<and>
         (\<forall>e. Some e \<in> set (wq_registrations q') \<longrightarrow> wr_waiter_id e \<noteq> wt_id w)
     else
       res = Inl WE_Blocked \<and> \<not> waiter_is_runnable w' \<and>
         (\<forall>e. wr_waiter_id e = wt_id w \<longrightarrow> (Some e \<in> set (wq_registrations q') \<longleftrightarrow>
            (\<exists>i < length items. e = \<lparr>wr_waiter_id = wt_id w, wr_epoch = wt_epoch w',
               wr_object = wi_object (items ! i), wr_interests = wi_interests (items ! i), wr_index = i\<rparr>)))) \<and>
    (\<forall>e. wr_waiter_id e \<noteq> wt_id w \<longrightarrow>
       (Some e \<in> set (wq_registrations q') \<longleftrightarrow> Some e \<in> set (wq_registrations q))) \<and>
    (\<forall>k. ww_waiter_id k \<noteq> wt_id w \<longrightarrow> (Some k \<in> set (wq_wakeups q') \<longleftrightarrow> Some k \<in> set (wq_wakeups q)))"
proof (cases "items = [] \<or> MAX_WAIT_ITEMS < length items")
  case True
  then show ?thesis using inv wm by (auto simp: wait_many_def)
next
  case False
  then have ne: "items \<noteq> []" and len: "length items \<le> MAX_WAIT_ITEMS" by simp_all
  show ?thesis
  proof (cases "\<exists>it \<in> set items. ready it")
    case True
    then obtain i where i: "i < length items" "ready (items ! i)" "\<forall>j < i. \<not> ready (items ! j)"
      "ready_position (map refresh items) = Some i"
      using ready_position_refresh [of items] by (auto simp: ready_def split: option.splits)
    then have "res = Inr \<lparr>wo_index = i, wo_observed = observe (wi_source (items ! i))\<rparr>" "q' = cancel_wait q w"
      "w' = w\<lparr>wt_wake := None, wt_state := Waiter_Runnable\<rparr>"
      using wm unfolding wait_many_eq [OF ne len] by simp_all
    moreover have "Some e \<in> set (wq_registrations (cancel_wait q w)) \<longleftrightarrow>
        Some e \<in> set (wq_registrations q) \<and> \<not> (wr_waiter_id e = wt_id w \<and> wr_epoch e = wt_epoch w)" for e
      by (simp add: cancel_wait_def set_drop_where)
    moreover have "wq_wakeups (cancel_wait q w) = wq_wakeups q" by (simp add: cancel_wait_def)
    ultimately show ?thesis using False True i(1-3) wait_inv_cancel_wait [OF inv, of w]
      by (auto simp: waiter_is_runnable_def)
  next
    case none: False
    then have p: "ready_position (map refresh items) = None"
      using ready_position_refresh [of items] by (auto simp: ready_def split: option.splits)
    obtain r q1 w1 where reg: "register q (w\<lparr>wt_wake := None\<rparr>) (map refresh items) = (r, q1, w1)"
      by (metis prod_cases3)
    then have out: "q' = q1" "res = (case r of Inl e \<Rightarrow> Inl e | Inr _ \<Rightarrow> Inl WE_Blocked)"
      "w' = (case r of Inl e \<Rightarrow> w1\<lparr>wt_state := Waiter_Runnable\<rparr> | Inr _ \<Rightarrow> w1)"
      using wm p unfolding wait_many_eq [OF ne len] by (auto split: sum.splits)
    have fr: "(\<forall>e. wr_waiter_id e \<noteq> wt_id w \<longrightarrow>
         (Some e \<in> set (wq_registrations q') \<longleftrightarrow> Some e \<in> set (wq_registrations q))) \<and>
      (\<forall>k. ww_waiter_id k \<noteq> wt_id w \<longrightarrow> (Some k \<in> set (wq_wakeups q') \<longleftrightarrow> Some k \<in> set (wq_wakeups q)))"
      using register_frame(2,3) [OF inv reg] by (simp add: out(1))
    have fit: "(\<exists>err. r = Inl err) \<longleftrightarrow> MAX_WAIT_WAKEUPS < load_of_others q (wt_id w) + length items"
      using register_frame(1) [OF inv reg] by simp
    have "wait_inv q' \<and> (if MAX_WAIT_WAKEUPS < load_of_others q (wt_id w) + length items then
       res = Inl WE_TooMany \<and> waiter_is_runnable w' \<and>
         (\<forall>e. Some e \<in> set (wq_registrations q') \<longrightarrow> wr_waiter_id e \<noteq> wt_id w)
     else
       res = Inl WE_Blocked \<and> \<not> waiter_is_runnable w' \<and>
         (\<forall>e. wr_waiter_id e = wt_id w \<longrightarrow> (Some e \<in> set (wq_registrations q') \<longleftrightarrow>
            (\<exists>i < length items. e = \<lparr>wr_waiter_id = wt_id w, wr_epoch = wt_epoch w',
               wr_object = wi_object (items ! i), wr_interests = wi_interests (items ! i), wr_index = i\<rparr>))))"
    proof (cases r)
      case (Inl err)
      then show ?thesis
        using fit register_refused [OF inv reg [unfolded Inl]] wait_inv_cancel_waiter [OF inv, of "wt_id w"]
        by (auto simp: out waiter_is_runnable_def cancel_waiter_gone)
    next
      case (Inr u)
      then show ?thesis
        using fit register_accepted [OF inv reg [unfolded Inr]] by (auto simp: out waiter_is_runnable_def item_registration_def)
    qed
    then show ?thesis using fr False none by simp
  qed
qed

theorem wait_many_correct_witness:
  "let ev = event_new \<lparr>oid_slot = 4, oid_generation = 1, oid_kind = KEvent\<rparr>;
       it = item_event ev SIGNALS_SIGNALED
   in fst (wait_many wait_registry_new (waiter_new 3) [it]) = Inl WE_Blocked \<and>
      wait_inv (fst (snd (wait_many wait_registry_new (waiter_new 3) [it])))"
proof -
  define it where "it = item_event (event_new \<lparr>oid_slot = 4, oid_generation = 1, oid_kind = KEvent\<rparr>)
    SIGNALS_SIGNALED"
  have "fst (wait_many wait_registry_new (waiter_new 3) [item_event
      (event_new \<lparr>oid_slot = 4, oid_generation = 1, oid_kind = KEvent\<rparr>) SIGNALS_SIGNALED]) =
      Inl WE_Blocked" by code_simp
  moreover have "wait_inv (fst (snd (wait_many wait_registry_new (waiter_new 3) [it])))"
    by (cases "wait_many wait_registry_new (waiter_new 3) [it]")
       (use wait_many_correct [OF wait_inv_new, of "waiter_new 3"] in auto)
  ultimately show ?thesis by (simp add: it_def Let_def)
qed

text \<open>C30. A blocked wait cannot miss the event or timer it waits for. After \<open>wait_many\<close> has
  reported \<open>Blocked\<close>, signalling an event among its items, or polling an unfired timer among its
  items at or after the deadline, leaves a wakeup that \<open>sync\<close> delivers to this waiter.\<close>

theorem blocked_wait_is_woken:
  assumes "wait_inv q" and "wait_many q w items = (Inl WE_Blocked, q', w', items')"
    and "i < length items"
  shows "(items ! i = item_event ev SIGNALS_SIGNALED \<longrightarrow>
      fst (waiter_sync w' (snd (event_signal ev q')))) \<and>
    (items ! i = item_timer tm now SIGNALS_FIRED \<and> \<not> tm_fired tm \<and> deadline_passed tm later \<longrightarrow>
      fst (waiter_sync w' (snd (timer_poll tm later q'))))"
proof -
  have reg: "register q (w\<lparr>wt_wake := None\<rparr>) (map refresh items) = (Inr (), q', w')"
    using wait_many_blocked [OF assms(2,1)] by blast
  have wake: "fst (waiter_sync w' (snd (notify q' ob sigs)))"
    if "wi_object (items ! i) = ob" "signals_intersects (wi_interests (items ! i)) sigs" for ob sigs
    using register_then_notify [OF assms(1) reg, of ob sigs "fst (notify q' ob sigs)"
        "snd (notify q' ob sigs)" i] that assms(3) by auto
  show ?thesis
    using wake [of "ev_object ev" SIGNALS_SIGNALED] wake [of "tm_object tm" SIGNALS_FIRED]
    by (auto simp: event_signal_def timer_poll_def item_event_def item_timer_def
        signals_intersects_def signals_defs)
qed

theorem blocked_wait_is_woken_witness:
  "let ev = event_new \<lparr>oid_slot = 4, oid_generation = 1, oid_kind = KEvent\<rparr>
   in (case wait_many wait_registry_new (waiter_new 3) [item_event ev SIGNALS_SIGNALED] of
         (res, q', w', _) \<Rightarrow> res = Inl WE_Blocked \<and> fst (waiter_sync w' (snd (event_signal ev q'))))"
proof -
  let ?ev = "event_new \<lparr>oid_slot = 4, oid_generation = 1, oid_kind = KEvent\<rparr>"
  have "fst (wait_many wait_registry_new (waiter_new 3) [item_event ?ev SIGNALS_SIGNALED]) =
      Inl WE_Blocked" by code_simp
  then obtain q' w' items' where
    w: "wait_many wait_registry_new (waiter_new 3) [item_event ?ev SIGNALS_SIGNALED] =
      (Inl WE_Blocked, q', w', items')" by (metis prod.collapse)
  show ?thesis
    using blocked_wait_is_woken [OF wait_inv_new w, of 0 ?ev] w by (simp add: Let_def)
qed

text \<open>C31. A timer fires at its deadline and not before. Arming with an overflowing deadline is
  refused and changes nothing; otherwise, from then on, a poll fires the timer exactly if the time
  has reached the sum of the arming time and the duration, computed without wrap-around, and a
  fired timer is not fired again by a later poll.\<close>

theorem timer_fires_at_deadline:
  "case timer_arm tm now duration of
     (Inl e, tm') \<Rightarrow> 2 ^ 64 \<le> unat now + unat duration \<and> tm' = tm
   | (Inr _, tm') \<Rightarrow> unat now + unat duration < 2 ^ 64 \<and>
       (tm_fired (fst (timer_poll tm' t q)) \<longleftrightarrow> unat now + unat duration \<le> unat t) \<and>
       (unat t < unat now + unat duration \<longrightarrow> timer_poll tm' t q = (tm', q)) \<and>
       (let fired = fst (timer_poll tm' t q) in
          tm_fired fired \<longrightarrow> timer_poll fired t2 q2 = (fired, q2))"
proof (cases "checked_add now duration")
  case None
  then have "2 ^ 64 \<le> unat now + unat duration" by (simp add: checked_simps)
  then show ?thesis using None by (simp add: timer_arm_def)
next
  case (Some d)
  then have d: "unat d = unat now + unat duration" by (simp add: checked_simps)
  moreover have "unat d < 2 ^ 64" using unsigned_less [of d] by simp
  ultimately show ?thesis using Some
    by (auto simp: timer_arm_def timer_poll_def deadline_passed_def word_le_nat_alt Let_def)
qed

theorem timer_fires_at_deadline_witness:
  "(case timer_arm (timer_new \<lparr>oid_slot = 0, oid_generation = 1, oid_kind = KTimer\<rparr>) 10 5 of
      (res, tm') \<Rightarrow> res = Inr () \<and> \<not> tm_fired (fst (timer_poll tm' 14 wait_registry_new)) \<and>
        tm_fired (fst (timer_poll tm' 15 wait_registry_new)))"
proof -
  let ?tm = "timer_new \<lparr>oid_slot = 0, oid_generation = 1, oid_kind = KTimer\<rparr>"
  obtain tm' where tm': "timer_arm ?tm 10 5 = (Inr (), tm')"
    by (simp add: timer_arm_def checked_add_def)
  have "\<not> tm_fired (fst (timer_poll tm' 14 wait_registry_new))"
    using timer_fires_at_deadline [where tm = ?tm and now = 10 and duration = 5 and t = 14
        and q = wait_registry_new and ?t2.0 = 0 and ?q2.0 = wait_registry_new]
    unfolding tm' by auto
  moreover have "tm_fired (fst (timer_poll tm' 15 wait_registry_new))"
    using timer_fires_at_deadline [where tm = ?tm and now = 10 and duration = 5 and t = 15
        and q = wait_registry_new and ?t2.0 = 0 and ?q2.0 = wait_registry_new]
    unfolding tm' by auto
  ultimately show ?thesis using tm' by simp
qed

end
