(* ===== verification/Process_Exit.thy ===== *)
theory Process_Exit
  imports Prelude
begin

text \<open>
  Exit records and waits for isolated processes (\<open>kernel/src/process_exit.rs\<close>). The table hands
  out process identities, tracks the live processes with the thread that waits for each, and keeps
  the exit record of a process until it is consumed. The lemmas show that a record slot is kept
  free for every live process, so an exit status is never dropped, that it is delivered exactly
  once, and that an identity is never reused.
\<close>

section \<open>The exit table\<close>

definition FIRST_ISOLATED_PROCESS_ID :: u32 where "FIRST_ISOLATED_PROCESS_ID = 2"
definition MAX_EXIT_RECORDS :: nat where "MAX_EXIT_RECORDS = 4"
definition MAX_LIVE_PROCESSES :: nat where "MAX_LIVE_PROCESSES = 2"

datatype exit_kind = EK_Exited | EK_Faulted u8

record exit_record =
  er_process_id :: u32
  er_code :: u64
  er_kind :: exit_kind

datatype exit_wait_outcome = EW_Ready exit_record | EW_Blocked | EW_Invalid

datatype exit_table_error = ET_RecordsFull | ET_IdsExhausted | ET_AlreadyLive

record exit_table =
  et_next_process_id :: u32
  et_live :: "(u32 \<times> u8 option) option list"
  et_records :: "exit_record option list"

definition exit_table_new :: exit_table where
  "exit_table_new =
     \<lparr>et_next_process_id = FIRST_ISOLATED_PROCESS_ID, et_live = replicate MAX_LIVE_PROCESSES None,
      et_records = replicate MAX_EXIT_RECORDS None\<rparr>"

definition live_count :: "exit_table \<Rightarrow> nat" where
  "live_count s = length (filter (\<lambda>slot. slot \<noteq> None) (et_live s))"

definition free_records :: "exit_table \<Rightarrow> nat" where
  "free_records s = length (filter (\<lambda>slot. slot = None) (et_records s))"

definition reserve :: "exit_table \<Rightarrow> (exit_table_error, u32) result" where
  "reserve s =
     (if live_count s = MAX_LIVE_PROCESSES then Inl ET_AlreadyLive
      else if free_records s < live_count s + 1 then Inl ET_RecordsFull
      else if et_next_process_id s = U32_MAX then Inl ET_IdsExhausted
      else Inr (et_next_process_id s))"

definition commit_spawn :: "exit_table \<Rightarrow> u32 \<Rightarrow> bool \<times> exit_table" where
  "commit_spawn s pid =
     (if pid \<noteq> et_next_process_id s \<or> reserve s \<noteq> Inr pid then (False, s)
      else
        (case position (\<lambda>slot. slot = None) (et_live s) of
           None \<Rightarrow> (False, s)
         | Some i \<Rightarrow>
             (True, s\<lparr>et_live := (et_live s)[i := Some (pid, None)],
                     et_next_process_id := et_next_process_id s + 1\<rparr>)))"

definition live_as :: "u32 \<Rightarrow> (u32 \<times> u8 option) option \<Rightarrow> bool" where
  "live_as pid slot = (case slot of None \<Rightarrow> False | Some (live, _) \<Rightarrow> live = pid)"

definition waited_by :: "u8 \<Rightarrow> (u32 \<times> u8 option) option \<Rightarrow> bool" where
  "waited_by thread slot = (case slot of None \<Rightarrow> False | Some (_, w) \<Rightarrow> w = Some thread)"

definition recorded_as :: "u32 \<Rightarrow> exit_record option \<Rightarrow> bool" where
  "recorded_as pid slot = (case slot of None \<Rightarrow> False | Some r \<Rightarrow> er_process_id r = pid)"

definition is_live :: "exit_table \<Rightarrow> u32 \<Rightarrow> bool" where
  "is_live s pid = list_ex (live_as pid) (et_live s)"

definition record_exit :: "exit_table \<Rightarrow> u32 \<Rightarrow> u64 \<Rightarrow> exit_kind \<Rightarrow> u8 option \<times> exit_table" where
  "record_exit s pid code kind =
     (case position (live_as pid) (et_live s) of
        None \<Rightarrow> (None, s)
      | Some i \<Rightarrow>
          let waiter = snd (the (et_live s ! i));
              s1 = s\<lparr>et_live := (et_live s)[i := None]\<rparr>
          in (waiter,
              case position (\<lambda>slot. slot = None) (et_records s1) of
                None \<Rightarrow> s1
              | Some j \<Rightarrow>
                  s1\<lparr>et_records := (et_records s1)
                    [j := Some \<lparr>er_process_id = pid, er_code = code, er_kind = kind\<rparr>]\<rparr>))"

definition exit_wait :: "exit_table \<Rightarrow> u32 \<Rightarrow> u8 \<Rightarrow> exit_wait_outcome \<times> exit_table" where
  "exit_wait s pid thread =
     (case position (recorded_as pid) (et_records s) of
        Some j \<Rightarrow> (EW_Ready (the (et_records s ! j)), s\<lparr>et_records := (et_records s)[j := None]\<rparr>)
      | None \<Rightarrow>
          if list_ex (waited_by thread) (et_live s) then (EW_Invalid, s)
          else
            (case position (live_as pid) (et_live s) of
               None \<Rightarrow> (EW_Invalid, s)
             | Some i \<Rightarrow>
                 (case the (et_live s ! i) of
                    (live, None) \<Rightarrow>
                      (EW_Blocked, s\<lparr>et_live := (et_live s)[i := Some (live, Some thread)]\<rparr>)
                  | (_, Some _) \<Rightarrow> (EW_Invalid, s))))"

definition cancel_exit_wait :: "exit_table \<Rightarrow> u8 \<Rightarrow> bool \<times> exit_table" where
  "cancel_exit_wait s thread =
     (case position (waited_by thread) (et_live s) of
        None \<Rightarrow> (False, s)
      | Some i \<Rightarrow>
          (True, s\<lparr>et_live := (et_live s)[i := Some (fst (the (et_live s ! i)), None)]\<rparr>))"

section \<open>Operations and runs\<close>

datatype exit_op =
    Op_Spawn u32 | Op_Exit u32 u64 exit_kind | Op_Wait u32 u8 | Op_Cancel u8

fun exit_op_step :: "exit_op \<Rightarrow> exit_table \<Rightarrow> exit_table" where
  "exit_op_step (Op_Spawn pid) s = snd (commit_spawn s pid)"
| "exit_op_step (Op_Exit pid code kind) s = snd (record_exit s pid code kind)"
| "exit_op_step (Op_Wait pid thread) s = snd (exit_wait s pid thread)"
| "exit_op_step (Op_Cancel thread) s = snd (cancel_exit_wait s thread)"

definition exit_run :: "exit_op list \<Rightarrow> exit_table \<Rightarrow> exit_table" where
  "exit_run ops s = fold exit_op_step ops s"

section \<open>The invariant\<close>

text \<open>The identities in use: of the live processes and of the unconsumed records.\<close>

definition live_ids :: "exit_table \<Rightarrow> u32 list" where
  "live_ids s = List.map_filter (map_option fst) (et_live s)"

definition record_ids :: "exit_table \<Rightarrow> u32 list" where
  "record_ids s = List.map_filter (map_option er_process_id) (et_records s)"

definition id_count :: "exit_table \<Rightarrow> u32 \<Rightarrow> nat" where
  "id_count s pid = count_list (live_ids s) pid + count_list (record_ids s) pid"

definition exit_inv :: "exit_table \<Rightarrow> bool" where
  "exit_inv s \<longleftrightarrow> length (et_live s) = MAX_LIVE_PROCESSES \<and> length (et_records s) = MAX_EXIT_RECORDS \<and>
     (\<forall>pid. id_count s pid \<le> 1 \<and>
        (0 < id_count s pid \<longrightarrow> FIRST_ISOLATED_PROCESS_ID \<le> pid \<and> pid < et_next_process_id s)) \<and>
     length (live_ids s) + length (record_ids s) \<le> MAX_EXIT_RECORDS \<and>
     FIRST_ISOLATED_PROCESS_ID \<le> et_next_process_id s"

lemma exit_invD:
  assumes "exit_inv s"
  shows "length (et_live s) = MAX_LIVE_PROCESSES" and "length (et_records s) = MAX_EXIT_RECORDS"
    and "id_count s pid \<le> 1"
    and "0 < id_count s pid \<Longrightarrow> FIRST_ISOLATED_PROCESS_ID \<le> pid \<and> pid < et_next_process_id s"
    and "length (live_ids s) + length (record_ids s) \<le> MAX_EXIT_RECORDS"
    and "FIRST_ISOLATED_PROCESS_ID \<le> et_next_process_id s"
  using assms unfolding exit_inv_def by blast+

lemma length_map_filter_update:
  assumes "i < length xs"
  shows "length (List.map_filter f (xs[i := x])) + (if f (xs ! i) = None then 0 else 1) =
    length (List.map_filter f xs) + (if f x = None then 0 else 1)"
  using assms
proof (induction xs arbitrary: i)
  case (Cons z xs)
  show ?case
  proof (cases i)
    case 0
    then show ?thesis by (auto simp: List.map_filter_simps split: option.splits)
  next
    case (Suc k)
    then have "length (List.map_filter f (xs[k := x])) + (if f (xs ! k) = None then 0 else 1) =
        length (List.map_filter f xs) + (if f x = None then 0 else 1)" using Cons by simp
    then show ?thesis using Suc by (cases "f z") (simp_all add: List.map_filter_simps)
  qed
qed simp

lemma count_map_filter: "count_list (List.map_filter f xs) y = length (filter (\<lambda>x. f x = Some y) xs)"
  by (induction xs) (auto simp: List.map_filter_simps split: option.splits)

lemma count_map_filter_unique:
  assumes "count_list (List.map_filter f xs) y \<le> 1" and "i < length xs" and "j < length xs"
    and "f (xs ! i) = Some y" and "f (xs ! j) = Some y"
  shows "i = j"
proof -
  have "card {k. k < length xs \<and> f (xs ! k) = Some y} \<le> Suc 0"
    using assms(1) by (simp add: count_map_filter length_filter_conv_card)
  then show ?thesis using assms(2-5) by (auto simp: card_le_Suc0_iff_eq)
qed

lemma length_map_filter_bound: "length (List.map_filter f xs) \<le> length xs"
  by (induction xs) (auto simp: List.map_filter_simps split: option.splits)

lemma map_filter_full:
  assumes "\<forall>x \<in> set xs. f x \<noteq> None"
  shows "length (List.map_filter f xs) = length xs"
  using assms by (induction xs) (auto simp: List.map_filter_simps)

lemma map_filter_count_none:
  "length (List.map_filter f xs) + length (filter (\<lambda>x. f x = None) xs) = length xs"
  by (induction xs) (auto simp: List.map_filter_simps split: option.splits)

lemma live_count_eq: "live_count s = length (live_ids s)"
  unfolding live_count_def live_ids_def
  by (induction "et_live s") (auto simp: List.map_filter_def)

lemma free_records_eq: "free_records s + length (record_ids s) = length (et_records s)"
  using map_filter_count_none [of "map_option er_process_id" "et_records s"]
  by (simp add: free_records_def record_ids_def)

lemma is_live_iff: "is_live s pid \<longleftrightarrow> pid \<in> set (live_ids s)"
  unfolding is_live_def live_ids_def set_map_filter list_ex_iff live_as_def
  by (auto split: option.splits)

lemma live_as_iff: "live_as pid slot \<longleftrightarrow> map_option fst slot = Some pid"
  by (auto simp: live_as_def split: option.split)

lemma recorded_as_iff: "recorded_as pid slot \<longleftrightarrow> map_option er_process_id slot = Some pid"
  by (auto simp: recorded_as_def split: option.split)

section \<open>What each operation does to the identities\<close>

text \<open>The operations as changes of the two arrays. \<open>live_put\<close> and \<open>record_put\<close> replace one slot.\<close>

definition live_put :: "exit_table \<Rightarrow> nat \<Rightarrow> (u32 \<times> u8 option) option \<Rightarrow> exit_table" where
  "live_put s i x = s\<lparr>et_live := (et_live s)[i := x]\<rparr>"

definition record_put :: "exit_table \<Rightarrow> nat \<Rightarrow> exit_record option \<Rightarrow> exit_table" where
  "record_put s j x = s\<lparr>et_records := (et_records s)[j := x]\<rparr>"

lemma live_put_ids:
  assumes "i < length (et_live s)"
  shows "id_count (live_put s i x) pid + (if map_option fst (et_live s ! i) = Some pid then 1 else 0) =
      id_count s pid + (if map_option fst x = Some pid then 1 else 0)"
    and "length (live_ids (live_put s i x)) + (if et_live s ! i = None then 0 else 1) =
      length (live_ids s) + (if x = None then 0 else 1)"
    and "record_ids (live_put s i x) = record_ids s"
    and "et_records (live_put s i x) = et_records s"
    and "et_next_process_id (live_put s i x) = et_next_process_id s"
    and "et_live (live_put s i x) = (et_live s)[i := x]"
  using count_map_filter_update [OF assms, of "map_option fst" x pid]
    length_map_filter_update [OF assms, of "map_option fst" x]
  by (simp_all add: id_count_def live_ids_def record_ids_def live_put_def)

lemma record_put_ids:
  assumes "j < length (et_records s)"
  shows "id_count (record_put s j x) pid + (if map_option er_process_id (et_records s ! j) = Some pid then 1 else 0) =
      id_count s pid + (if map_option er_process_id x = Some pid then 1 else 0)"
    and "length (record_ids (record_put s j x)) + (if et_records s ! j = None then 0 else 1) =
      length (record_ids s) + (if x = None then 0 else 1)"
    and "live_ids (record_put s j x) = live_ids s"
    and "et_live (record_put s j x) = et_live s"
    and "et_next_process_id (record_put s j x) = et_next_process_id s"
    and "et_records (record_put s j x) = (et_records s)[j := x]"
  using count_map_filter_update [OF assms, of "map_option er_process_id" x pid]
    length_map_filter_update [OF assms, of "map_option er_process_id" x]
  by (simp_all add: id_count_def live_ids_def record_ids_def record_put_def)

lemma commit_spawn_cases:
  "commit_spawn s pid = (False, s) \<or>
   (\<exists>i. i < length (et_live s) \<and> et_live s ! i = None \<and> pid = et_next_process_id s \<and> pid \<noteq> U32_MAX \<and>
      live_count s + 1 \<le> free_records s \<and>
      commit_spawn s pid = (True, (live_put s i (Some (pid, None)))\<lparr>et_next_process_id := pid + 1\<rparr>))"
proof (cases "pid \<noteq> et_next_process_id s \<or> reserve s \<noteq> Inr pid \<or>
    position (\<lambda>slot. slot = None) (et_live s) = None")
  case True
  then have "commit_spawn s pid = (False, s)" by (auto simp: commit_spawn_def)
  then show ?thesis by (rule disjI1)
next
  case False
  then obtain i where i: "position (\<lambda>slot. slot = None) (et_live s) = Some i" by auto
  have n: "pid = et_next_process_id s" and r: "reserve s = Inr pid" using False by blast+
  have "et_next_process_id s \<noteq> U32_MAX" "live_count s + 1 \<le> free_records s"
    using r unfolding reserve_def by (simp_all split: if_splits)
  moreover have "commit_spawn s pid = (True, (live_put s i (Some (pid, None)))\<lparr>et_next_process_id := pid + 1\<rparr>)"
    unfolding commit_spawn_def live_put_def using i n r by simp
  ultimately show ?thesis using position_SomeD(1,2) [OF i] unfolding n
    by (intro disjI2 exI [of _ i] conjI refl) assumption+
qed

lemma record_exit_cases:
  assumes inv: "exit_inv s"
  shows "\<not> is_live s pid \<and> record_exit s pid code kind = (None, s) \<or>
   (\<exists>i w j. i < length (et_live s) \<and> et_live s ! i = Some (pid, w) \<and>
      j < length (et_records s) \<and> et_records s ! j = None \<and>
      record_exit s pid code kind =
        (w, record_put (live_put s i None) j (Some \<lparr>er_process_id = pid, er_code = code, er_kind = kind\<rparr>)))"
proof (cases "position (live_as pid) (et_live s)")
  case None
  then have "\<not> is_live s pid" by (auto simp: is_live_def list_ex_iff array_simps)
  then show ?thesis using None by (simp add: record_exit_def)
next
  case (Some i)
  note i = position_SomeD(1,2) [OF Some]
  obtain w where w: "et_live s ! i = Some (pid, w)" using i(2) by (auto simp: live_as_def split: option.splits)
  have "1 \<le> length (live_ids s)"
    using live_put_ids(2) [OF i(1), of None] w by simp
  then have "length (record_ids s) < length (et_records s)" using exit_invD(2,5) [OF inv] by linarith
  then have "None \<in> set (et_records s)"
    using map_filter_full [of "et_records s" "map_option er_process_id"] unfolding record_ids_def
    by (metis less_irrefl option.map_disc_iff)
  then obtain j where j: "position (\<lambda>slot. slot = None) (et_records s) = Some j"
    using position_None_iff [of "\<lambda>slot. slot = None" "et_records s"] by (cases "position (\<lambda>slot. slot = None) (et_records s)") auto
  then show ?thesis using Some i w position_SomeD(1,2) [OF j]
    by (intro disjI2 exI [of _ i] exI [of _ w] exI [of _ j])
      (simp add: record_exit_def Let_def live_put_def record_put_def)
qed

lemma exit_wait_cases:
  "(\<exists>j r. j < length (et_records s) \<and> et_records s ! j = Some r \<and> er_process_id r = pid \<and>
      exit_wait s pid th = (EW_Ready r, record_put s j None)) \<or>
   pid \<notin> set (record_ids s) \<and>
     (exit_wait s pid th = (EW_Invalid, s) \<or>
      (\<exists>i. i < length (et_live s) \<and> et_live s ! i = Some (pid, None) \<and>
         (\<forall>q. Some (q, Some th) \<notin> set (et_live s)) \<and>
         exit_wait s pid th = (EW_Blocked, live_put s i (Some (pid, Some th)))))"
proof (cases "position (recorded_as pid) (et_records s)")
  case (Some j)
  then show ?thesis using position_SomeD(1,2) [OF Some]
    by (intro disjI1 exI [of _ j])
      (auto simp: exit_wait_def record_put_def recorded_as_def split: option.splits)
next
  case None
  then have nr: "pid \<notin> set (record_ids s)"
    by (auto simp: position_None_iff record_ids_def set_map_filter recorded_as_iff)
  show ?thesis
  proof (cases "list_ex (waited_by th) (et_live s) \<or> position (live_as pid) (et_live s) = None")
    case True
    then show ?thesis using None nr by (auto simp: exit_wait_def)
  next
    case False
    then obtain i where i: "position (live_as pid) (et_live s) = Some i" by auto
    obtain w where w: "et_live s ! i = Some (pid, w)" "i < length (et_live s)"
      using position_SomeD(1,2) [OF i] by (auto simp: live_as_def split: option.splits)
    have nw: "\<forall>q. Some (q, Some th) \<notin> set (et_live s)"
      using False by (auto simp: list_ex_iff waited_by_def)
    show ?thesis
    proof (cases w)
      case None
      then show ?thesis using \<open>position (recorded_as pid) (et_records s) = None\<close> False i w nr nw
        by (intro disjI2 conjI disjI2 exI [of _ i]) (simp_all add: exit_wait_def live_put_def)
    next
      case (Some x)
      then show ?thesis using None False i w nr by (simp add: exit_wait_def)
    qed
  qed
qed

lemma cancel_exit_wait_cases:
  "cancel_exit_wait s th = (False, s) \<or>
   (\<exists>i pid. i < length (et_live s) \<and> et_live s ! i = Some (pid, Some th) \<and>
      cancel_exit_wait s th = (True, live_put s i (Some (pid, None))))"
proof (cases "position (waited_by th) (et_live s)")
  case None
  then show ?thesis by (simp add: cancel_exit_wait_def)
next
  case (Some i)
  then obtain pid where "et_live s ! i = Some (pid, Some th)" "i < length (et_live s)"
    using position_SomeD(1,2) [OF Some] by (auto simp: waited_by_def split: option.splits)
  then show ?thesis using Some
    by (intro disjI2 exI [of _ i] exI [of _ pid]) (simp add: cancel_exit_wait_def live_put_def)
qed

lemma live_put_same_inv:
  assumes inv: "exit_inv s" and i: "i < length (et_live s)" and "et_live s ! i = Some (pid, w)"
  shows "exit_inv (live_put s i (Some (pid, w')))"
proof -
  note p = live_put_ids [OF i, of "Some (pid, w')"]
  have "id_count (live_put s i (Some (pid, w'))) q = id_count s q" for q using p(1) [of q] assms(3) by simp
  then show ?thesis using inv p(2-6) assms(3) by (simp add: exit_inv_def)
qed

lemma record_take_inv:
  assumes inv: "exit_inv s" and j: "j < length (et_records s)"
  shows "exit_inv (record_put s j None)"
proof -
  note p = record_put_ids [OF j, of None]
  have c: "id_count (record_put s j None) q \<le> id_count s q" for q using p(1) [of q] by (auto split: if_splits)
  have l: "length (record_ids (record_put s j None)) \<le> length (record_ids s)" using p(2) by (auto split: if_splits)
  show ?thesis unfolding exit_inv_def
  proof (intro conjI allI impI)
    fix q
    show "id_count (record_put s j None) q \<le> 1" using c [of q] exit_invD(3) [OF inv, of q] by simp
    assume "0 < id_count (record_put s j None) q"
    then have "0 < id_count s q" using c [of q] by simp
    then show "FIRST_ISOLATED_PROCESS_ID \<le> q" "q < et_next_process_id (record_put s j None)"
      using exit_invD(4) [OF inv] p(5) by simp_all
  qed (use exit_invD(1,2,5,6) [OF inv] l p(3-6) in simp_all)
qed

lemma commit_spawn_inv:
  assumes inv: "exit_inv s"
  shows "exit_inv (snd (commit_spawn s pid))"
  using commit_spawn_cases [of s pid]
proof (elim disjE exE conjE)
  fix i assume i: "i < length (et_live s)" "et_live s ! i = None" and n: "pid = et_next_process_id s"
    "pid \<noteq> U32_MAX" and f: "live_count s + 1 \<le> free_records s"
    and c: "commit_spawn s pid = (True, (live_put s i (Some (pid, None)))\<lparr>et_next_process_id := pid + 1\<rparr>)"
  let ?s = "(live_put s i (Some (pid, None)))\<lparr>et_next_process_id := pid + 1\<rparr>"
  note p = live_put_ids [OF i(1), of "Some (pid, None)"]
  have ids: "id_count ?s q = id_count (live_put s i (Some (pid, None))) q" for q
    by (simp add: id_count_def live_ids_def record_ids_def)
  have "1 + pid \<noteq> 0" using n(2) eq_neg_iff_add_eq_0 [of pid 1] by (simp add: add.commute)
  then have up: "unat (pid + 1) = unat pid + 1" using unatSuc [of pid] by (simp add: add.commute)
  have old: "q < pid" if "0 < id_count s q" for q using exit_invD(4) [OF inv that] n(1) by simp
  have new: "id_count ?s q = (if q = pid then 1 else id_count s q)" for q
    unfolding ids using p(1) [of q] i(2) old [of q] by (cases "q = pid") auto
  have "exit_inv ?s" unfolding exit_inv_def
  proof (intro conjI allI impI)
    fix q
    show "id_count ?s q \<le> 1" using new exit_invD(3) [OF inv, of q] by simp
    assume "0 < id_count ?s q"
    then have "q = pid \<or> 0 < id_count s q" by (simp add: new split: if_splits)
    then show "FIRST_ISOLATED_PROCESS_ID \<le> q" "q < et_next_process_id ?s"
      using exit_invD(4) [OF inv, of q] exit_invD(6) [OF inv] n(1) up by (auto simp: word_less_nat_alt)
  next
    have "length (live_ids ?s) = length (live_ids s) + 1" "record_ids ?s = record_ids s"
      using p(2,3) i(2) by (simp_all add: live_ids_def record_ids_def)
    then show "length (live_ids ?s) + length (record_ids ?s) \<le> MAX_EXIT_RECORDS"
      using f free_records_eq [of s] exit_invD(2) [OF inv] by (simp add: live_count_eq)
    show "FIRST_ISOLATED_PROCESS_ID \<le> et_next_process_id ?s"
      using exit_invD(6) [OF inv] n(1) up by (simp add: word_le_nat_alt)
  qed (use exit_invD(1,2) [OF inv] p(4,6) in simp_all)
  then show ?thesis using c by simp
qed (use inv in simp)

lemma record_exit_inv:
  assumes inv: "exit_inv s"
  shows "exit_inv (snd (record_exit s pid code kind))"
  using record_exit_cases [OF inv, of pid code kind]
proof (elim disjE exE conjE)
  fix i w j assume i: "i < length (et_live s)" "et_live s ! i = Some (pid, w)"
    and j: "j < length (et_records s)" "et_records s ! j = None"
    and c: "record_exit s pid code kind = (w, record_put (live_put s i None) j
      (Some \<lparr>er_process_id = pid, er_code = code, er_kind = kind\<rparr>))"
  define s1 where "s1 = live_put s i None"
  define s2 where "s2 = record_put s1 j (Some \<lparr>er_process_id = pid, er_code = code, er_kind = kind\<rparr>)"
  note p = live_put_ids [OF i(1), of None, folded s1_def]
  have j': "j < length (et_records s1)" "et_records s1 ! j = None" using j p(4) by simp_all
  note r = record_put_ids [OF j'(1), of "Some \<lparr>er_process_id = pid, er_code = code, er_kind = kind\<rparr>", folded s2_def]
  have ids: "id_count s2 q = id_count s q" for q using p(1) [of q] r(1) [of q] i(2) j'(2) by (auto split: if_splits)
  have "length (live_ids s2) + length (record_ids s2) = length (live_ids s) + length (record_ids s)"
    using p(2,3) r(2,3) i(2) j'(2) by simp
  then have "exit_inv s2" using inv ids p(4-6) r(4-6) by (simp add: exit_inv_def)
  then show ?thesis using c by (simp add: s1_def s2_def)
qed (use inv in simp)

lemma exit_wait_inv:
  assumes inv: "exit_inv s"
  shows "exit_inv (snd (exit_wait s pid th))"
  using exit_wait_cases [of s pid th]
  by (elim disjE exE conjE) (use inv in \<open>simp_all add: record_take_inv live_put_same_inv\<close>)

lemma cancel_exit_wait_inv:
  assumes inv: "exit_inv s"
  shows "exit_inv (snd (cancel_exit_wait s th))"
  using cancel_exit_wait_cases [of s th]
  by (elim disjE exE conjE) (use inv in \<open>simp_all add: live_put_same_inv\<close>)

lemma exit_table_new_inv: "exit_inv exit_table_new"
  by (simp add: exit_inv_def exit_table_new_def id_count_def live_ids_def record_ids_def
      MAX_LIVE_PROCESSES_def MAX_EXIT_RECORDS_def List.map_filter_simps numeral_eq_Suc)

interpretation exit_tables: invariant_system "\<lambda>s. s = exit_table_new" "\<lambda>s t. \<exists>op. t = exit_op_step op s" exit_inv
proof
  fix s assume "s = exit_table_new"
  then show "exit_inv s" by (simp add: exit_table_new_inv)
next
  fix s t assume "\<exists>op. t = exit_op_step op s" and i: "exit_inv s"
  then obtain op where "t = exit_op_step op s" by blast
  then show "exit_inv t"
    by (cases op) (simp_all add: i commit_spawn_inv record_exit_inv exit_wait_inv cancel_exit_wait_inv)
qed

lemma exit_run_reach: "(\<lambda>s t. \<exists>op. t = exit_op_step op s)\<^sup>*\<^sup>* s (exit_run ops s)"
proof (induction ops arbitrary: s)
  case (Cons op ops)
  have "(\<lambda>s t. \<exists>op. t = exit_op_step op s)\<^sup>*\<^sup>* (exit_op_step op s) (exit_run (op # ops) s)"
    using Cons [of "exit_op_step op s"] by (simp add: exit_run_def)
  then show ?case by (rule converse_rtranclp_into_rtranclp [rotated]) blast
qed (simp add: exit_run_def)

lemma exit_run_inv: "exit_inv s \<Longrightarrow> exit_inv (exit_run ops s)"
  using exit_run_reach by (rule exit_tables.run_inv)

section \<open>Where an identity can be\<close>

text \<open>An identity that was handed out and is neither live nor recorded is gone for good.\<close>

definition gone :: "exit_table \<Rightarrow> u32 \<Rightarrow> bool" where
  "gone s pid \<longleftrightarrow> id_count s pid = 0 \<and> pid < et_next_process_id s"

lemma id_count_pos_iff: "0 < id_count s pid \<longleftrightarrow> pid \<in> set (live_ids s) \<or> pid \<in> set (record_ids s)"
  using count_list_0_iff [of "live_ids s" pid] count_list_0_iff [of "record_ids s" pid]
  by (auto simp: id_count_def)

text \<open>What an operation does to the identities: it keeps them, or hands out the next one, or
  consumes the record that a wait asks for.\<close>

lemma step_ids:
  assumes inv: "exit_inv s"
  shows "id_count (exit_op_step op s) q \<le> id_count s q + (if q = et_next_process_id s then 1 else 0)"
    and "et_next_process_id s \<le> et_next_process_id (exit_op_step op s)"
proof -
  have "id_count (exit_op_step op s) q \<le> id_count s q + (if q = et_next_process_id s then 1 else 0) \<and>
      et_next_process_id s \<le> et_next_process_id (exit_op_step op s)"
  proof (cases op)
    case (Op_Spawn pid)
    from commit_spawn_cases [of s pid] show ?thesis
    proof (elim disjE exE conjE)
      fix i assume i: "i < length (et_live s)" "et_live s ! i = None" "pid = et_next_process_id s" "pid \<noteq> U32_MAX"
        "commit_spawn s pid = (True, (live_put s i (Some (pid, None)))\<lparr>et_next_process_id := pid + 1\<rparr>)"
      have "id_count (t\<lparr>et_next_process_id := n\<rparr>) q = id_count t q" for t :: exit_table and n
        by (simp add: id_count_def live_ids_def record_ids_def)
      moreover have "1 + pid \<noteq> 0" using i(4) eq_neg_iff_add_eq_0 [of pid 1] by (simp add: add.commute)
      then have "pid \<le> pid + 1" using unatSuc [of pid] by (simp add: word_le_nat_alt add.commute)
      ultimately show ?thesis using live_put_ids(1) [OF i(1), of "Some (pid, None)" q] i Op_Spawn by auto
    qed (simp add: Op_Spawn)
  next
    case (Op_Exit pid code kind)
    from record_exit_cases [OF inv, of pid code kind] show ?thesis
    proof (elim disjE exE conjE)
      fix i w j assume i: "i < length (et_live s)" "et_live s ! i = Some (pid, w)"
        "j < length (et_records s)" "et_records s ! j = None"
        "record_exit s pid code kind = (w, record_put (live_put s i None) j
          (Some \<lparr>er_process_id = pid, er_code = code, er_kind = kind\<rparr>))"
      define s1 where "s1 = live_put s i None"
      note p = live_put_ids [OF i(1), of None, folded s1_def]
      have "j < length (et_records s1)" "et_records s1 ! j = None" using i(3,4) p(4) by simp_all
      then show ?thesis
        using record_put_ids(1) [of j s1 "Some \<lparr>er_process_id = pid, er_code = code, er_kind = kind\<rparr>" q]
          record_put_ids(5) [of j s1 "Some \<lparr>er_process_id = pid, er_code = code, er_kind = kind\<rparr>"]
          p(1) [of q] p(5) i(2,5) Op_Exit unfolding s1_def [symmetric] by (auto split: if_splits)
    qed (simp add: Op_Exit)
  next
    case (Op_Wait pid th)
    from exit_wait_cases [of s pid th] show ?thesis
    proof (elim disjE exE conjE)
      fix j r assume "j < length (et_records s)" "exit_wait s pid th = (EW_Ready r, record_put s j None)"
      then show ?thesis using record_put_ids(1) [of j s None q] record_put_ids(5) [of j s None] Op_Wait
        by (simp split: if_splits)
    next
      fix i assume "i < length (et_live s)" "et_live s ! i = Some (pid, None)"
        "exit_wait s pid th = (EW_Blocked, live_put s i (Some (pid, Some th)))"
      then show ?thesis using live_put_ids(1) [of i s "Some (pid, Some th)" q] live_put_ids(5) [of i s "Some (pid, Some th)"]
          Op_Wait by simp
    qed (simp add: Op_Wait)
  next
    case (Op_Cancel th)
    from cancel_exit_wait_cases [of s th] show ?thesis
    proof (elim disjE exE conjE)
      fix i pid assume "i < length (et_live s)" "et_live s ! i = Some (pid, Some th)"
        "cancel_exit_wait s th = (True, live_put s i (Some (pid, None)))"
      then show ?thesis using live_put_ids(1) [of i s "Some (pid, None)" q] live_put_ids(5) [of i s "Some (pid, None)"]
          Op_Cancel by simp
    qed (simp add: Op_Cancel)
  qed
  then show "id_count (exit_op_step op s) q \<le> id_count s q + (if q = et_next_process_id s then 1 else 0)"
    "et_next_process_id s \<le> et_next_process_id (exit_op_step op s)" by blast+
qed

lemma exit_op_step_inv: "exit_inv s \<Longrightarrow> exit_inv (exit_op_step op s)"
  using exit_tables.step_inv by blast

lemma gone_run:
  assumes "exit_inv s" and "gone s pid"
  shows "gone (exit_run ops s) pid"
  using assms
proof (induction ops arbitrary: s)
  case (Cons op ops)
  have "gone (exit_op_step op s) pid"
    using step_ids(1) [OF Cons.prems(1), of op pid] step_ids(2) [OF Cons.prems(1), of op] Cons.prems(2)
    by (auto simp: gone_def split: if_splits)
  then show ?case using Cons.IH exit_op_step_inv [OF Cons.prems(1)] by (simp add: exit_run_def)
qed (simp add: exit_run_def)

lemma gone_wait:
  assumes "gone s pid"
  shows "exit_wait s pid th = (EW_Invalid, s)" and "\<not> is_live s pid"
proof -
  have n: "pid \<notin> set (live_ids s)" "pid \<notin> set (record_ids s)"
    using assms id_count_pos_iff [of s pid] by (auto simp: gone_def)
  then show "\<not> is_live s pid" by (simp add: is_live_iff)
  from exit_wait_cases [of s pid th] show "exit_wait s pid th = (EW_Invalid, s)"
  proof (elim disjE exE conjE)
    fix j r assume "j < length (et_records s)" "et_records s ! j = Some r" "er_process_id r = pid"
    then have "pid \<in> set (record_ids s)" unfolding record_ids_def set_map_filter
      by (auto intro!: bexI [of _ "et_records s ! j"] simp: nth_mem) (metis nth_mem)
    then show ?thesis using n by simp
  next
    fix i assume "i < length (et_live s)" "et_live s ! i = Some (pid, None)"
    then have "pid \<in> set (live_ids s)" unfolding live_ids_def set_map_filter
      by (auto intro!: bexI [of _ "et_live s ! i"] simp: nth_mem) (metis nth_mem)
    then show ?thesis using n by simp
  qed
qed

text \<open>A record stays in the table until a wait asks for its process.\<close>

lemma record_kept:
  assumes inv: "exit_inv s" and r: "Some r \<in> set (et_records s)"
    and op: "\<forall>th. op \<noteq> Op_Wait (er_process_id r) th"
  shows "Some r \<in> set (et_records (exit_op_step op s))"
proof -
  obtain k where k: "k < length (et_records s)" "et_records s ! k = Some r"
    using r by (auto simp: in_set_conv_nth)
  have keep: "Some r \<in> set ((et_records s)[j := x])" if "j \<noteq> k" for j x
    using k that by (metis length_list_update nth_list_update_neq nth_mem)
  show ?thesis
  proof (cases op)
    case (Op_Spawn pid)
    then show ?thesis using commit_spawn_cases [of s pid] r by (auto simp: live_put_def)
  next
    case (Op_Exit pid code kind)
    from record_exit_cases [OF inv, of pid code kind] show ?thesis
    proof (elim disjE exE conjE)
      fix i w j assume "et_records s ! j = None" "record_exit s pid code kind = (w, record_put (live_put s i None) j
          (Some \<lparr>er_process_id = pid, er_code = code, er_kind = kind\<rparr>))"
      moreover have "j \<noteq> k" using calculation(1) k(2) by auto
      ultimately show ?thesis using keep Op_Exit by (simp add: record_put_def live_put_def)
    qed (use r Op_Exit in simp)
  next
    case (Op_Wait pid th)
    from exit_wait_cases [of s pid th] show ?thesis
    proof (elim disjE exE conjE)
      fix j r' assume "et_records s ! j = Some r'" "er_process_id r' = pid"
        "exit_wait s pid th = (EW_Ready r', record_put s j None)"
      moreover have "j \<noteq> k" using calculation(1,2) k(2) op Op_Wait by auto
      ultimately show ?thesis using keep Op_Wait by (simp add: record_put_def)
    qed (use r Op_Wait in \<open>simp_all add: live_put_def\<close>)
  next
    case (Op_Cancel th)
    then show ?thesis using cancel_exit_wait_cases [of s th] r by (auto simp: live_put_def)
  qed
qed

lemma record_kept_run:
  assumes "exit_inv s" and "Some r \<in> set (et_records s)"
    and "\<forall>op \<in> set ops. \<forall>th. op \<noteq> Op_Wait (er_process_id r) th"
  shows "Some r \<in> set (et_records (exit_run ops s))"
  using assms
proof (induction ops arbitrary: s)
  case (Cons op ops)
  have "Some r \<in> set (et_records (exit_op_step op s))"
    using record_kept [OF Cons.prems(1,2), of op] Cons.prems(3) by simp
  then show ?case using Cons.IH [OF exit_op_step_inv [OF Cons.prems(1)]] Cons.prems(3)
    by (simp add: exit_run_def)
qed (simp add: exit_run_def)

lemma record_waits:
  assumes inv: "exit_inv s" and r: "Some r \<in> set (et_records s)"
  shows "fst (exit_wait s (er_process_id r) th) = EW_Ready r"
    and "gone (snd (exit_wait s (er_process_id r) th)) (er_process_id r)"
proof -
  let ?p = "er_process_id r"
  obtain k where k: "k < length (et_records s)" "et_records s ! k = Some r"
    using r by (auto simp: in_set_conv_nth)
  have m: "?p \<in> set (record_ids s)"
    using r by (auto simp: record_ids_def set_map_filter intro!: bexI [of _ "Some r"])
  have one: "id_count s ?p \<le> 1" "0 < id_count s ?p" and lt: "?p < et_next_process_id s"
    using exit_invD(3,4) [OF inv, of ?p] m id_count_pos_iff [of s ?p] by auto
  have c: "count_list (record_ids s) ?p \<le> 1" using one(1) by (simp add: id_count_def)
  have w: "exit_wait s ?p th = (EW_Ready r, record_put s k None)"
    using exit_wait_cases [of s ?p th]
  proof (elim disjE exE conjE)
    fix j r' assume j: "j < length (et_records s)" "et_records s ! j = Some r'" "er_process_id r' = ?p"
      and e: "exit_wait s ?p th = (EW_Ready r', record_put s j None)"
    have "j = k" using count_map_filter_unique [OF c [unfolded record_ids_def] j(1) k(1)] j(2,3) k(2) by simp
    then show ?thesis using e j(2) k(2) by simp
  qed (use m in simp_all)
  then show "fst (exit_wait s ?p th) = EW_Ready r" by simp
  show "gone (snd (exit_wait s ?p th)) ?p"
    using record_put_ids(1) [OF k(1), of None ?p] record_put_ids(5) [OF k(1), of None] one k(2) lt w
    by (simp add: gone_def)
qed

section \<open>Properties\<close>

lemma exit_status_delivery:
  assumes "is_live (exit_run ops0 exit_table_new) pid"
    and "record_exit (exit_run ops0 exit_table_new) pid code kind = (waiter, s1)"
    and "\<forall>op \<in> set ops. \<forall>th. op \<noteq> Op_Wait pid th"
    and "exit_wait (exit_run ops s1) pid thread = (outcome, s2)"
  shows "outcome = EW_Ready \<lparr>er_process_id = pid, er_code = code, er_kind = kind\<rparr>"
    and "fst (exit_wait (exit_run ops' s2) pid thread') = EW_Invalid \<and> \<not> is_live (exit_run ops' s2) pid"
proof -
  let ?s = "exit_run ops0 exit_table_new" let ?r = "\<lparr>er_process_id = pid, er_code = code, er_kind = kind\<rparr>"
  have inv: "exit_inv ?s" by (rule exit_run_inv [OF exit_table_new_inv])
  have inv1: "exit_inv s1" using record_exit_inv [OF inv, of pid code kind] assms(2) by simp
  from record_exit_cases [OF inv, of pid code kind]
  have "Some ?r \<in> set (et_records s1)"
  proof (elim disjE exE conjE)
    fix i w j assume "j < length (et_records ?s)"
      "record_exit ?s pid code kind = (w, record_put (live_put ?s i None) j (Some ?r))"
    then show ?thesis using assms(2) by (auto simp: record_put_def live_put_def set_update_memI)
  qed (use assms(1) in simp)
  then have m: "Some ?r \<in> set (et_records (exit_run ops s1))"
    using record_kept_run [OF inv1, of ?r ops] assms(3) by simp
  have inv2: "exit_inv (exit_run ops s1)" by (rule exit_run_inv [OF inv1])
  note w = record_waits [OF inv2 m, of thread]
  show "outcome = EW_Ready ?r" using w(1) assms(4) by simp
  have inv3: "exit_inv s2" using exit_wait_inv [OF inv2, of pid thread] assms(4) by simp
  have "gone s2 pid" using w(2) assms(4) by simp
  then have "gone (exit_run ops' s2) pid" by (rule gone_run [OF inv3])
  then show "fst (exit_wait (exit_run ops' s2) pid thread') = EW_Invalid \<and> \<not> is_live (exit_run ops' s2) pid"
    using gone_wait by simp
qed

text \<open>C11. An exit status is never dropped and is delivered exactly once. In every reachable table,
  when a live process exits, the first wait for it, after any number of further spawns, exits,
  cancellations and waits for other processes, returns exactly its code and kind; from then on,
  whatever follows, the process is not live and every wait for its identity is refused, because an
  identity is never handed out twice.\<close>

theorem exit_status_delivered_once:
  assumes "is_live (exit_run ops0 exit_table_new) pid"
    and "record_exit (exit_run ops0 exit_table_new) pid code kind = (waiter, s1)"
    and "\<forall>op \<in> set ops. \<forall>th. op \<noteq> Op_Wait pid th"
    and "exit_wait (exit_run ops s1) pid thread = (outcome, s2)"
  shows "(outcome = EW_Ready \<lparr>er_process_id = pid, er_code = code, er_kind = kind\<rparr>) \<and>
    (fst (exit_wait (exit_run ops' s2) pid thread') = EW_Invalid \<and> \<not> is_live (exit_run ops' s2) pid)"
  using exit_status_delivery [OF assms] by blast

theorem exit_status_delivered_once_witness:
  "(let s1 = snd (record_exit (exit_run [Op_Spawn 2, Op_Spawn 3] exit_table_new) 2 9 EK_Exited);
        (outcome, s2) = exit_wait (exit_run [Op_Exit 3 0 (EK_Faulted 14)] s1) 2 5
    in outcome = EW_Ready \<lparr>er_process_id = 2, er_code = 9, er_kind = EK_Exited\<rparr> \<and>
       fst (exit_wait (exit_run [Op_Spawn 4] s2) 2 5) = EW_Invalid)"
proof -
  have l: "is_live (exit_run [Op_Spawn 2, Op_Spawn 3] exit_table_new) 2" by code_simp
  obtain w s1 where r: "record_exit (exit_run [Op_Spawn 2, Op_Spawn 3] exit_table_new) 2 9 EK_Exited = (w, s1)"
    by fastforce
  obtain out s2 where x: "exit_wait (exit_run [Op_Exit 3 0 (EK_Faulted 14)] s1) 2 5 = (out, s2)" by fastforce
  show ?thesis using exit_status_delivered_once [OF l r _ x, of "[Op_Spawn 4]" 5] r x by (simp add: Let_def)
qed

end
