(* ===== verification/User_Ipc.thy ===== *)
theory User_Ipc
  imports Events Process_Exit
begin

text \<open>
  The channel manager of the user processes (\<open>kernel/src/user_ipc.rs\<close>): one object registry, a
  handle table per process, the channel slots and the wait registry, with the operations behind
  the channel and process system calls. The requests and results are the structures of
  \<open>nagi-abi\<close>. An \<open>expect\<close> that fails stops the kernel; it is the result \<open>UE_Panic\<close>, which no
  reachable state produces. The lemmas account for every reference across processes, queues and
  channel slots, and show that exactly the channels no process can reach are reclaimed.
\<close>

section \<open>Requests and results\<close>

datatype user_ipc_error =
    UE_Capacity | UE_InvalidRequest | UE_InvalidEndpoint | UE_InvalidProcess | UE_PeerClosed
  | UE_Handle handle_error | UE_Channel channel_error | UE_Wait wait_error | UE_Panic

datatype channel_wait_outcome = CW_Readable | CW_Blocked

record channel_handle_transfer =
  ct_handle :: u64
  ct_rights :: u32
  ct_reserved :: u32

record channel_send_request =
  sr_protocol_id :: u16
  sr_version :: u16
  sr_opcode :: u16
  sr_flags :: u16
  sr_request_id :: u64
  sr_payload_len :: u32
  sr_transfer_count :: u32
  sr_payload :: "u8 list"
  sr_transfers :: "channel_handle_transfer list"

record channel_receive_result =
  rr_sender_process_id :: u32
  rr_reserved :: u32
  rr_protocol_id :: u16
  rr_version :: u16
  rr_opcode :: u16
  rr_flags :: u16
  rr_request_id :: u64
  rr_payload_len :: u32
  rr_transfer_count :: u32
  rr_payload :: "u8 list"
  rr_handles :: "u64 list"

definition receive_result_default :: channel_receive_result where
  "receive_result_default =
     \<lparr>rr_sender_process_id = 0, rr_reserved = 0, rr_protocol_id = 0, rr_version = 0, rr_opcode = 0,
      rr_flags = 0, rr_request_id = 0, rr_payload_len = 0, rr_transfer_count = 0,
      rr_payload = replicate MAX_INLINE_PAYLOAD 0, rr_handles = replicate MAX_TRANSFER_HANDLES 0\<rparr>"

section \<open>The state\<close>

definition BOOTSTRAP_PROCESS_ID :: u32 where "BOOTSTRAP_PROCESS_ID = 1"
definition MAX_USER_PROCESSES :: nat where "MAX_USER_PROCESSES = 1 + MAX_LIVE_PROCESSES"
definition CHANNEL_CAPACITY :: nat where "CHANNEL_CAPACITY = 16"
definition HANDLE_CAPACITY :: nat where "HANDLE_CAPACITY = 64"
definition OBJECT_CAPACITY :: nat where "OBJECT_CAPACITY = 128"

record channel_slot =
  cs_pair :: "channel_pair option"
  cs_object :: "object_id option"
  cs_endpoint_a :: "object_id option"
  cs_endpoint_b :: "object_id option"

definition channel_slot_new :: channel_slot where
  "channel_slot_new = \<lparr>cs_pair = None, cs_object = None, cs_endpoint_a = None, cs_endpoint_b = None\<rparr>"

definition contains_endpoint :: "channel_slot \<Rightarrow> object_id \<Rightarrow> bool" where
  "contains_endpoint sl e \<longleftrightarrow> cs_endpoint_a sl = Some e \<or> cs_endpoint_b sl = Some e"

definition channel_slot_clear :: "channel_slot \<Rightarrow> channel_slot" where
  "channel_slot_clear sl =
     sl\<lparr>cs_pair := None, cs_object := None, cs_endpoint_a := None, cs_endpoint_b := None\<rparr>"

record user_ipc =
  ui_registry :: object_registry
  ui_processes :: "process option list"
  ui_channels :: "channel_slot list"
  ui_waiters :: wait_registry

definition user_ipc_new :: user_ipc where
  "user_ipc_new =
     \<lparr>ui_registry = registry_new OBJECT_CAPACITY, ui_processes = replicate MAX_USER_PROCESSES None,
      ui_channels = replicate CHANNEL_CAPACITY channel_slot_new, ui_waiters = wait_registry_new\<rparr>"

definition put_process :: "user_ipc \<Rightarrow> nat \<Rightarrow> process option \<Rightarrow> user_ipc" where
  "put_process s i p = s\<lparr>ui_processes := (ui_processes s)[i := p]\<rparr>"

definition put_channel :: "user_ipc \<Rightarrow> nat \<Rightarrow> channel_slot \<Rightarrow> user_ipc" where
  "put_channel s i sl = s\<lparr>ui_channels := (ui_channels s)[i := sl]\<rparr>"

definition put_registry :: "user_ipc \<Rightarrow> object_registry \<Rightarrow> user_ipc" where
  "put_registry s r = s\<lparr>ui_registry := r\<rparr>"

definition ipc_initialize :: "user_ipc \<Rightarrow> (user_ipc_error, unit) result \<times> user_ipc" where
  "ipc_initialize s =
     (if ui_processes s ! 0 \<noteq> None then (Inr (), s)
      else
        (case registry_create (ui_registry s) KAddressSpace of
           (Inl e, r) \<Rightarrow> (Inl (UE_Handle e), put_registry s r)
         | (Inr address_space, r) \<Rightarrow>
             (Inr (), put_process (put_registry s r) 0
                (Some (process_new HANDLE_CAPACITY BOOTSTRAP_PROCESS_ID address_space)))))"

definition process_index :: "user_ipc \<Rightarrow> u32 \<Rightarrow> (user_ipc_error, nat) result" where
  "process_index s pid =
     (if pid = BOOTSTRAP_PROCESS_ID then Inr 0
      else
        (case position (\<lambda>slot. case slot of None \<Rightarrow> False | Some p \<Rightarrow> proc_id p = pid) (ui_processes s) of
           None \<Rightarrow> Inl UE_InvalidProcess
         | Some i \<Rightarrow> if i \<noteq> 0 then Inr i else Inl UE_InvalidProcess))"

definition process_ref :: "user_ipc \<Rightarrow> u32 \<Rightarrow> (user_ipc_error, process) result" where
  "process_ref s pid =
     (case process_index s pid of
        Inl e \<Rightarrow> Inl e
      | Inr i \<Rightarrow> (case ui_processes s ! i of None \<Rightarrow> Inl UE_InvalidProcess | Some p \<Rightarrow> Inr p))"

text \<open>\<open>process_mut\<close>: the callers use it to initialize the manager and to check the process.\<close>

definition process_mut :: "user_ipc \<Rightarrow> u32 \<Rightarrow> (user_ipc_error, process) result \<times> user_ipc" where
  "process_mut s pid =
     (case ipc_initialize s of
        (Inl e, s1) \<Rightarrow> (Inl e, s1)
      | (Inr _, s1) \<Rightarrow> (process_ref s1 pid, s1))"

section \<open>Looking up endpoints\<close>

definition endpoint_slot :: "user_ipc \<Rightarrow> object_id \<Rightarrow> nat option" where
  "endpoint_slot s e = position (\<lambda>sl. cs_pair sl \<noteq> None \<and> contains_endpoint sl e) (ui_channels s)"

definition locate_endpoint :: "user_ipc \<Rightarrow> u32 \<Rightarrow> handle \<Rightarrow> (user_ipc_error, nat \<times> object_id) result" where
  "locate_endpoint s pid h =
     (case process_ref s pid of
        Inl _ \<Rightarrow> Inl UE_InvalidEndpoint
      | Inr p \<Rightarrow>
          (case table_resolve (proc_handles p) (ui_registry s) h of
             Inl e \<Rightarrow> Inl (UE_Handle e)
           | Inr endpoint \<Rightarrow>
               if oid_kind endpoint \<noteq> KChannelEndpoint then Inl UE_InvalidEndpoint
               else
                 (case endpoint_slot s endpoint of
                    None \<Rightarrow> Inl UE_InvalidEndpoint
                  | Some index \<Rightarrow> Inr (index, endpoint))))"

definition process_objects :: "user_ipc \<Rightarrow> object_id list" where
  "process_objects s =
     concat (map (\<lambda>p. case p of None \<Rightarrow> [] | Some p \<Rightarrow> visit_objects (proc_handles p)) (ui_processes s))"

definition slot_objects :: "channel_slot \<Rightarrow> object_id list" where
  "slot_objects sl = (case cs_pair sl of None \<Rightarrow> [] | Some ch \<Rightarrow> visit_escrow_objects ch)"

definition endpoint_reachable :: "user_ipc \<Rightarrow> object_id \<Rightarrow> bool" where
  "endpoint_reachable s endpoint \<longleftrightarrow>
     list_ex (\<lambda>ob. ob = endpoint) (process_objects s) \<or>
     list_ex (\<lambda>ob. ob = endpoint) (concat (map slot_objects (ui_channels s)))"

definition release_created_objects ::
  "object_registry \<Rightarrow> object_id \<Rightarrow> object_id \<Rightarrow> object_id \<Rightarrow> object_registry" where
  "release_created_objects r channel endpoint_a endpoint_b =
     (let r1 = snd (registry_release r endpoint_a);
          r2 = snd (registry_release r1 endpoint_b)
      in snd (registry_release r2 channel))"

section \<open>Reclaiming unreachable channels\<close>

text \<open>The marking of the channels that a process's handles name.\<close>

definition mark_held :: "user_ipc \<Rightarrow> object_id \<Rightarrow> bool list \<Rightarrow> bool list" where
  "mark_held s ob marks =
     (if oid_kind ob = KChannelEndpoint then
        (case endpoint_slot s ob of None \<Rightarrow> marks | Some i \<Rightarrow> marks[i := True])
      else marks)"

text \<open>One visit of an object in transit: the target slot is marked and the change noted. The marks
  have as many entries as there are slots, so the index is in range.\<close>

definition mark_escrowed :: "user_ipc \<Rightarrow> object_id \<Rightarrow> bool list \<times> bool \<Rightarrow> bool list \<times> bool" where
  "mark_escrowed s ob mc =
     (if oid_kind ob = KChannelEndpoint then
        (case endpoint_slot s ob of
           None \<Rightarrow> mc
         | Some t \<Rightarrow>
             if t < length (fst mc) \<and> \<not> fst mc ! t then ((fst mc)[t := True], True) else mc)
      else mc)"

definition mark_from :: "user_ipc \<Rightarrow> nat \<Rightarrow> bool list \<times> bool \<Rightarrow> bool list \<times> bool" where
  "mark_from s source mc =
     (if \<not> fst mc ! source then mc
      else
        (case cs_pair (ui_channels s ! source) of
           None \<Rightarrow> mc
         | Some ch \<Rightarrow> fold (mark_escrowed s) (visit_escrow_objects ch) mc))"

definition mark_pass :: "user_ipc \<Rightarrow> bool list \<Rightarrow> bool list \<times> bool" where
  "mark_pass s marks = fold (mark_from s) [0..<length (ui_channels s)] (marks, False)"

definition unmarked :: "bool list \<Rightarrow> nat" where
  "unmarked marks = length (filter Not marks)"

lemma mark_escrowed_cases:
  "mark_escrowed s ob mc = mc \<or>
   (\<exists>t < length (fst mc). \<not> fst mc ! t \<and> oid_kind ob = KChannelEndpoint \<and> endpoint_slot s ob = Some t \<and>
      mark_escrowed s ob mc = ((fst mc)[t := True], True))"
  by (cases "endpoint_slot s ob") (auto simp: mark_escrowed_def)

lemma unmarked_update: "t < length m \<Longrightarrow> \<not> m ! t \<Longrightarrow> unmarked (m[t := True]) < unmarked m"
  using length_filter_update [of t m Not True] by (simp add: unmarked_def)

text \<open>A step of the marking that reports a change has marked something new.\<close>

definition marks_less :: "bool list \<times> bool \<Rightarrow> bool list \<times> bool \<Rightarrow> bool" where
  "marks_less a b \<longleftrightarrow> unmarked (fst b) \<le> unmarked (fst a) \<and> (snd a \<longrightarrow> snd b) \<and>
     (\<not> snd a \<longrightarrow> snd b \<longrightarrow> unmarked (fst b) < unmarked (fst a))"

lemma marks_less_refl [simp]: "marks_less a a"
  by (simp add: marks_less_def)

lemma marks_less_trans: "marks_less a b \<Longrightarrow> marks_less b c \<Longrightarrow> marks_less a c"
  by (auto simp: marks_less_def)

lemma marks_less_fold:
  assumes "\<And>x a. marks_less a (f x a)"
  shows "marks_less a (fold f xs a)"
proof (induction xs arbitrary: a)
  case (Cons x xs)
  show ?case using marks_less_trans [OF assms Cons] by simp
qed simp

lemma marks_less_escrowed: "marks_less a (mark_escrowed s ob a)"
  using mark_escrowed_cases [of s ob a] by (auto simp: marks_less_def unmarked_update less_imp_le)

lemma marks_less_from: "marks_less a (mark_from s source a)"
  by (auto simp: mark_from_def marks_less_fold [OF marks_less_escrowed] split: option.split)

lemma mark_pass_decreases: "snd (mark_pass s marks) \<Longrightarrow> unmarked (fst (mark_pass s marks)) < unmarked marks"
  using marks_less_fold [where f = "mark_from s" and a = "(marks, False)", OF marks_less_from]
  by (simp add: mark_pass_def marks_less_def)

function mark_loop :: "user_ipc \<Rightarrow> bool list \<Rightarrow> bool list" where
  "mark_loop s marks =
     (let (marks1, changed) = mark_pass s marks
      in if changed then mark_loop s marks1 else marks1)"
  by pat_completeness auto
termination
proof (relation "measure (\<lambda>(s, marks). unmarked marks)", goal_cases)
  case (2 s marks x marks1 changed)
  then have "mark_pass s marks = (marks1, True)" by simp
  then show ?case using mark_pass_decreases [of s marks] by simp
qed simp

declare mark_loop.simps [simp del]

text \<open>The release of the unmarked slots, in order; an error stops the loop.\<close>

definition reclaim_slot :: "user_ipc \<Rightarrow> nat \<Rightarrow> (user_ipc_error, unit) result \<times> user_ipc" where
  "reclaim_slot s index =
     (let sl = ui_channels s ! index in
      case (cs_endpoint_a sl, cs_endpoint_b sl, cs_object sl, cs_pair sl) of
        (Some endpoint_a, Some endpoint_b, Some object, Some ch) \<Rightarrow>
          (case drain ch (ui_registry s) of
             (Inl e, ch1, r1) \<Rightarrow>
               (Inl (UE_Channel e), put_channel (put_registry s r1) index (sl\<lparr>cs_pair := Some ch1\<rparr>))
           | (Inr _, ch1, r1) \<Rightarrow>
               let s1 = put_channel s index (sl\<lparr>cs_pair := Some ch1\<rparr>) in
               (case registry_release r1 endpoint_a of
                  (Inl e, r2) \<Rightarrow> (Inl (UE_Handle e), put_registry s1 r2)
                | (Inr _, r2) \<Rightarrow>
                    (case registry_release r2 endpoint_b of
                       (Inl e, r3) \<Rightarrow> (Inl (UE_Handle e), put_registry s1 r3)
                     | (Inr _, r3) \<Rightarrow>
                         (case registry_release r3 object of
                            (Inl e, r4) \<Rightarrow> (Inl (UE_Handle e), put_registry s1 r4)
                          | (Inr _, r4) \<Rightarrow>
                              (Inr (), put_channel (put_registry s1 r4) index (channel_slot_clear sl))))))
      | _ \<Rightarrow> (Inl UE_Panic, s))"

fun reclaim_slots :: "user_ipc \<Rightarrow> bool list \<Rightarrow> nat list \<Rightarrow> (user_ipc_error, unit) result \<times> user_ipc" where
  "reclaim_slots s marks [] = (Inr (), s)"
| "reclaim_slots s marks (index # is) =
     (if marks ! index \<or> cs_pair (ui_channels s ! index) = None then reclaim_slots s marks is
      else
        (case reclaim_slot s index of
           (Inl e, s1) \<Rightarrow> (Inl e, s1)
         | (Inr _, s1) \<Rightarrow> reclaim_slots s1 marks is))"

definition reachable_marks :: "user_ipc \<Rightarrow> bool list" where
  "reachable_marks s =
     mark_loop s (fold (mark_held s) (process_objects s) (replicate CHANNEL_CAPACITY False))"

definition collect_unreachable_channels :: "user_ipc \<Rightarrow> (user_ipc_error, unit) result \<times> user_ipc" where
  "collect_unreachable_channels s = reclaim_slots s (reachable_marks s) [0..<CHANNEL_CAPACITY]"

section \<open>The operations\<close>

definition ENDPOINT_RIGHTS :: rights where
  "ENDPOINT_RIGHTS = RIGHT_READ OR RIGHT_WRITE OR RIGHT_WAIT OR RIGHT_TRANSFER"

text \<open>The part of \<open>create_pair\<close> after the three objects exist: the handles are inserted one after
  the other, and a failure takes back what was done.\<close>

definition insert_endpoints ::
  "user_ipc \<Rightarrow> nat \<Rightarrow> channel_pair \<Rightarrow> nat \<Rightarrow> (user_ipc_error, handle \<times> handle) result \<times> user_ipc" where
  "insert_endpoints s pi pair slot_index =
     (case ui_processes s ! pi of
        None \<Rightarrow> (Inl UE_Panic, s)
      | Some p \<Rightarrow>
     (case table_insert (proc_handles p) (ui_registry s) (cp_endpoint_a pair) ENDPOINT_RIGHTS of
        (Inl e, t1, r1) \<Rightarrow>
          (Inl (UE_Handle e),
           put_registry (put_process s pi (Some (p\<lparr>proc_handles := t1\<rparr>)))
             (release_created_objects r1 (cp_object pair) (cp_endpoint_a pair) (cp_endpoint_b pair)))
      | (Inr first, t1, r1) \<Rightarrow>
     (case table_insert t1 r1 (cp_endpoint_b pair) ENDPOINT_RIGHTS of
        (Inl e, t2, r2) \<Rightarrow>
          (case table_close t2 r2 first of (_, t3, r3) \<Rightarrow>
             (Inl (UE_Handle e),
              put_registry (put_process s pi (Some (p\<lparr>proc_handles := t3\<rparr>)))
                (release_created_objects r3 (cp_object pair) (cp_endpoint_a pair) (cp_endpoint_b pair))))
      | (Inr second, t2, r2) \<Rightarrow>
          (Inr (first, second),
           put_channel (put_registry (put_process s pi (Some (p\<lparr>proc_handles := t2\<rparr>))) r2) slot_index
             \<lparr>cs_pair = Some pair, cs_object = Some (cp_object pair),
              cs_endpoint_a = Some (cp_endpoint_a pair), cs_endpoint_b = Some (cp_endpoint_b pair)\<rparr>))))"

definition create_pair :: "user_ipc \<Rightarrow> u32 \<Rightarrow> (user_ipc_error, handle \<times> handle) result \<times> user_ipc" where
  "create_pair s0 pid =
     (case process_mut s0 pid of
        (Inl e, s) \<Rightarrow> (Inl e, s)
      | (Inr _, s) \<Rightarrow>
     (case position (\<lambda>sl. cs_pair sl = None) (ui_channels s) of
        None \<Rightarrow> (Inl UE_Capacity, s)
      | Some slot_index \<Rightarrow>
     (case registry_create (ui_registry s) KChannel of
        (Inl e, r) \<Rightarrow> (Inl (UE_Handle e), put_registry s r)
      | (Inr channel, r1) \<Rightarrow>
     (case registry_create r1 KChannelEndpoint of
        (Inl e, r2) \<Rightarrow> (Inl (UE_Handle e), put_registry s (snd (registry_release r2 channel)))
      | (Inr endpoint_a, r2) \<Rightarrow>
     (case registry_create r2 KChannelEndpoint of
        (Inl e, r3) \<Rightarrow>
          (Inl (UE_Handle e),
           put_registry s (snd (registry_release (snd (registry_release r3 endpoint_a)) channel)))
      | (Inr endpoint_b, r3) \<Rightarrow>
     (case channel_new channel endpoint_a endpoint_b of
        Inl e \<Rightarrow>
          (Inl (UE_Channel e),
           put_registry s (release_created_objects r3 channel endpoint_a endpoint_b))
      | Inr pair \<Rightarrow>
     (case process_index s pid of
        Inl e \<Rightarrow> (Inl e, put_registry s r3)
      | Inr pi \<Rightarrow> insert_endpoints (put_registry s r3) pi pair slot_index)))))))"

text \<open>The loop over the transfers of a send request.\<close>

fun build_transfers ::
  "outgoing_message \<Rightarrow> channel_handle_transfer list \<Rightarrow> (user_ipc_error, outgoing_message) result" where
  "build_transfers m [] = Inr m"
| "build_transfers m (t # ts) =
     (if ct_reserved t \<noteq> 0 then Inl UE_InvalidRequest
      else
        (case rights_from_bits (ct_rights t) of
           None \<Rightarrow> Inl UE_InvalidRequest
         | Some rights \<Rightarrow>
             (case add_transfer m (ct_handle t) rights of
                (Inl e, _) \<Rightarrow> Inl (UE_Channel e)
              | (Inr _, m1) \<Rightarrow> build_transfers m1 ts)))"

definition build_message :: "channel_send_request \<Rightarrow> (user_ipc_error, outgoing_message) result" where
  "build_message request =
     (let payload_len = unat (sr_payload_len request);
          transfer_count = unat (sr_transfer_count request)
      in if MAX_INLINE_PAYLOAD < payload_len \<or> MAX_TRANSFER_HANDLES < transfer_count
         then Inl UE_InvalidRequest
         else
           let m = outgoing_new \<lparr>mh_protocol_id = sr_protocol_id request, mh_version = sr_version request,
                 mh_request_id = sr_request_id request, mh_opcode = sr_opcode request,
                 mh_flags = sr_flags request\<rparr>
           in (case set_payload m (take payload_len (sr_payload request)) of
                 (Inl e, _) \<Rightarrow> Inl (UE_Channel e)
               | (Inr _, m1) \<Rightarrow> build_transfers m1 (take transfer_count (sr_transfers request))))"

definition ipc_send ::
  "user_ipc \<Rightarrow> u32 \<Rightarrow> handle \<Rightarrow> channel_send_request \<Rightarrow> (user_ipc_error, u32 list) result \<times> user_ipc" where
  "ipc_send s0 pid endpoint request =
     (case process_mut s0 pid of
        (Inl e, s) \<Rightarrow> (Inl e, s)
      | (Inr _, s) \<Rightarrow>
     (case build_message request of
        Inl e \<Rightarrow> (Inl e, s)
      | Inr message \<Rightarrow>
     (case locate_endpoint s pid endpoint of
        Inl e \<Rightarrow> (Inl e, s)
      | Inr (ci, sender_endpoint) \<Rightarrow>
     let sl = ui_channels s ! ci;
         peer = (if cs_endpoint_a sl = Some sender_endpoint then cs_endpoint_b sl else cs_endpoint_a sl)
     in if (case peer of None \<Rightarrow> True | Some peer \<Rightarrow> \<not> endpoint_reachable s peer)
        then (Inl UE_PeerClosed, s)
        else
     (case process_index s pid of
        Inl e \<Rightarrow> (Inl e, s)
      | Inr pi \<Rightarrow>
     (case (ui_processes s ! pi, cs_pair sl) of
        (Some p, Some ch) \<Rightarrow>
          (case channel_send ch (ui_registry s) p endpoint message (ui_waiters s) of
             (res, ch1, p1, w1) \<Rightarrow>
               let s1 = (put_channel (put_process s pi (Some p1)) ci (sl\<lparr>cs_pair := Some ch1\<rparr>))
                          \<lparr>ui_waiters := w1\<rparr>
               in (case res of
                     Inl e \<Rightarrow> (Inl (UE_Channel e), s1)
                   | Inr _ \<Rightarrow>
                       (case take_woken_waiters w1 of (ids, w2) \<Rightarrow> (Inr ids, s1\<lparr>ui_waiters := w2\<rparr>))))
      | _ \<Rightarrow> (Inl UE_Panic, s))))))"

text \<open>The callback of \<open>wait_readable\<close> blocks the calling thread in the scheduler; \<open>on_blocked\<close> is
  its answer.\<close>

definition wait_readable ::
  "user_ipc \<Rightarrow> u32 \<Rightarrow> handle \<Rightarrow> u32 \<Rightarrow> bool \<Rightarrow>
     (user_ipc_error, channel_wait_outcome) result \<times> user_ipc" where
  "wait_readable s0 pid endpoint waiter_id on_blocked =
     (case process_mut s0 pid of
        (Inl e, s) \<Rightarrow> (Inl e, s)
      | (Inr _, s) \<Rightarrow>
     (case locate_endpoint s pid endpoint of
        Inl e \<Rightarrow> (Inl e, s)
      | Inr (ci, _) \<Rightarrow>
     (case process_ref s pid of
        Inl e \<Rightarrow> (Inl e, s)
      | Inr p \<Rightarrow>
     (case cs_pair (ui_channels s ! ci) of
        None \<Rightarrow> (Inl UE_Panic, s)
      | Some ch \<Rightarrow>
     (case channel_wait_item_for_process ch (ui_registry s) p endpoint SIGNALS_READABLE of
        Inl e \<Rightarrow> (Inl (UE_Channel e), s)
      | Inr it \<Rightarrow>
     (case wait_one (ui_waiters s) (waiter_new waiter_id) it of
        (res, w1, _) \<Rightarrow>
          let s1 = s\<lparr>ui_waiters := w1\<rparr> in
          (case res of
             Inr _ \<Rightarrow> (Inr CW_Readable, s1)
           | Inl e \<Rightarrow>
               if e = WE_Blocked then
                 if on_blocked then (Inr CW_Blocked, s1)
                 else (Inl (UE_Wait WE_Invalid), s1\<lparr>ui_waiters := cancel_waiter w1 waiter_id\<rparr>)
               else (Inl (UE_Wait e), s1))))))))"

text \<open>The copy of a received message into the result structure.\<close>

definition receive_result :: "received_message \<Rightarrow> (user_ipc_error, channel_receive_result) result" where
  "receive_result rm =
     (if list_ex (\<lambda>i. received_handle rm i = None) [0..<rm_handle_count rm] then Inl UE_Panic
      else
        Inr (receive_result_default
          \<lparr>rr_sender_process_id := rm_sender_process_id rm,
           rr_protocol_id := mh_protocol_id (rm_header rm), rr_version := mh_version (rm_header rm),
           rr_opcode := mh_opcode (rm_header rm), rr_flags := mh_flags (rm_header rm),
           rr_request_id := mh_request_id (rm_header rm),
           rr_payload_len := word_of_nat (length (received_payload rm)),
           rr_transfer_count := word_of_nat (rm_handle_count rm),
           rr_payload := received_payload rm @
             drop (length (received_payload rm)) (rr_payload receive_result_default),
           rr_handles := map (\<lambda>i. the (received_handle rm i)) [0..<rm_handle_count rm] @
             drop (rm_handle_count rm) (rr_handles receive_result_default)\<rparr>))"

definition try_receive ::
  "user_ipc \<Rightarrow> u32 \<Rightarrow> handle \<Rightarrow> (user_ipc_error, channel_receive_result option) result \<times> user_ipc" where
  "try_receive s0 pid endpoint =
     (case process_mut s0 pid of
        (Inl e, s) \<Rightarrow> (Inl e, s)
      | (Inr _, s) \<Rightarrow>
     (case locate_endpoint s pid endpoint of
        Inl e \<Rightarrow> (Inl e, s)
      | Inr (ci, _) \<Rightarrow>
     (case process_index s pid of
        Inl e \<Rightarrow> (Inl e, s)
      | Inr pi \<Rightarrow>
     let sl = ui_channels s ! ci in
     (case (ui_processes s ! pi, cs_pair sl) of
        (Some p, Some ch) \<Rightarrow>
          (case channel_receive ch (ui_registry s) p endpoint of
             (res, ch1, p1) \<Rightarrow>
               let s1 = put_channel (put_process s pi (Some p1)) ci (sl\<lparr>cs_pair := Some ch1\<rparr>)
               in (case res of
                     Inl e \<Rightarrow> (Inl (UE_Channel e), s1)
                   | Inr None \<Rightarrow> (Inr None, s1)
                   | Inr (Some rm) \<Rightarrow>
                       (case receive_result rm of
                          Inl e \<Rightarrow> (Inl e, s1)
                        | Inr result \<Rightarrow> (Inr (Some result), s1))))
      | _ \<Rightarrow> (Inl UE_Panic, s)))))"

definition ipc_close :: "user_ipc \<Rightarrow> u32 \<Rightarrow> handle \<Rightarrow> (user_ipc_error, unit) result \<times> user_ipc" where
  "ipc_close s0 pid h =
     (case process_mut s0 pid of
        (Inl e, s) \<Rightarrow> (Inl e, s)
      | (Inr _, s) \<Rightarrow>
     (case locate_endpoint s pid h of
        Inl e \<Rightarrow> (Inl e, s)
      | Inr _ \<Rightarrow>
     (case process_index s pid of
        Inl e \<Rightarrow> (Inl e, s)
      | Inr pi \<Rightarrow>
     (case ui_processes s ! pi of
        None \<Rightarrow> (Inl UE_Panic, s)
      | Some p \<Rightarrow>
          (case table_close (proc_handles p) (ui_registry s) h of
             (Inl e, t1, r1) \<Rightarrow>
               (Inl (UE_Handle e), put_registry (put_process s pi (Some (p\<lparr>proc_handles := t1\<rparr>))) r1)
           | (Inr _, t1, r1) \<Rightarrow>
               collect_unreachable_channels
                 (put_registry (put_process s pi (Some (p\<lparr>proc_handles := t1\<rparr>))) r1))))))"

definition ipc_exit_process :: "user_ipc \<Rightarrow> u32 \<Rightarrow> (user_ipc_error, unit) result \<times> user_ipc" where
  "ipc_exit_process s pid =
     (if pid = BOOTSTRAP_PROCESS_ID then (Inl UE_InvalidProcess, s)
      else
        (case process_index s pid of
           Inl e \<Rightarrow> (Inl e, s)
         | Inr pi \<Rightarrow>
             (case ui_processes s ! pi of
                None \<Rightarrow> (Inl UE_InvalidProcess, s)
              | Some p \<Rightarrow>
                  let r1 = snd (table_close_all (proc_handles p) (ui_registry s));
                      r2 = snd (registry_release r1 (proc_address_space p))
                  in collect_unreachable_channels (put_registry (put_process s pi None) r2))))"

definition register_spawned_process ::
  "user_ipc \<Rightarrow> u32 \<Rightarrow> u32 \<Rightarrow> handle \<Rightarrow> rights \<Rightarrow> (user_ipc_error, handle) result \<times> user_ipc" where
  "register_spawned_process s0 parent child h rights =
     (case ipc_initialize s0 of
        (Inl e, s) \<Rightarrow> (Inl e, s)
      | (Inr _, s) \<Rightarrow>
     if parent \<noteq> BOOTSTRAP_PROCESS_ID \<or> child \<le> BOOTSTRAP_PROCESS_ID then (Inl UE_InvalidProcess, s)
     else if (case process_index s child of Inr _ \<Rightarrow> True | Inl _ \<Rightarrow> False) then (Inl UE_InvalidProcess, s)
     else
     (case position (\<lambda>slot. slot = None) (drop 1 (ui_processes s)) of
        None \<Rightarrow> (Inl UE_Capacity, s)
      | Some i \<Rightarrow>
     let child_index = i + 1 in
     (case locate_endpoint s parent h of
        Inl e \<Rightarrow> (Inl e, s)
      | Inr _ \<Rightarrow>
     (case registry_create (ui_registry s) KAddressSpace of
        (Inl e, r1) \<Rightarrow> (Inl (UE_Handle e), put_registry s r1)
      | (Inr address_space, r1) \<Rightarrow>
     let child_process = process_new HANDLE_CAPACITY child address_space in
     (case process_index s parent of
        Inl e \<Rightarrow> (Inl e, put_registry s r1)
      | Inr pi \<Rightarrow>
     (case ui_processes s ! pi of
        None \<Rightarrow> (Inl UE_InvalidProcess, put_registry s r1)
      | Some pp \<Rightarrow>
     (case begin_move (proc_handles pp) r1 h rights of
        (Inl e, t1) \<Rightarrow>
          (Inl (UE_Handle e),
           put_registry (put_process s pi (Some (pp\<lparr>proc_handles := t1\<rparr>)))
             (snd (registry_release r1 address_space)))
      | (Inr token, t1) \<Rightarrow>
     let s1 = put_process s pi (Some (pp\<lparr>proc_handles := t1\<rparr>)) in
     (case install_token (proc_handles child_process) r1 (Some token) of
        (Inr child_handle, t2, _) \<Rightarrow>
          (Inr child_handle,
           put_process (put_registry s1 r1) child_index (Some (child_process\<lparr>proc_handles := t2\<rparr>)))
      | (Inl e, t2, left) \<Rightarrow>
          let r2 = (case left of
                      None \<Rightarrow> r1
                    | Some tok \<Rightarrow> snd (registry_release r1 (cap_object (tt_capability tok))));
              r3 = snd (registry_release r2 address_space)
          in (Inl (UE_Handle e), snd (collect_unreachable_channels (put_registry s1 r3)))))))))))"

definition ipc_cancel_waiter :: "user_ipc \<Rightarrow> u32 \<Rightarrow> user_ipc" where
  "ipc_cancel_waiter s waiter_id = s\<lparr>ui_waiters := cancel_waiter (ui_waiters s) waiter_id\<rparr>"

section \<open>Accounting for references\<close>

text \<open>The references of an object that the processes and the channel slots hold.\<close>

definition process_refs :: "process option \<Rightarrow> object_id \<Rightarrow> nat" where
  "process_refs p x =
     (case p of None \<Rightarrow> 0
      | Some p \<Rightarrow> held (proc_handles p) x + of_bool (proc_address_space p = x))"

definition slot_refs :: "channel_slot \<Rightarrow> object_id \<Rightarrow> nat" where
  "slot_refs sl x =
     (case cs_pair sl of None \<Rightarrow> 0
      | Some ch \<Rightarrow> escrow ch x + of_bool (cp_object ch = x) + of_bool (cp_endpoint_a ch = x) +
          of_bool (cp_endpoint_b ch = x))"

definition all_refs :: "user_ipc \<Rightarrow> object_id \<Rightarrow> nat" where
  "all_refs s x =
     sum_list (map (\<lambda>p. process_refs p x) (ui_processes s)) +
     sum_list (map (\<lambda>sl. slot_refs sl x) (ui_channels s))"

definition process_ok :: "process option \<Rightarrow> bool" where
  "process_ok p \<longleftrightarrow> (case p of None \<Rightarrow> True | Some p \<Rightarrow> table_inv (proc_handles p))"

definition channel_slot_ok :: "channel_slot \<Rightarrow> bool" where
  "channel_slot_ok sl \<longleftrightarrow>
     (case cs_pair sl of None \<Rightarrow> True
      | Some ch \<Rightarrow> channel_inv ch \<and> cs_object sl = Some (cp_object ch) \<and>
          cs_endpoint_a sl = Some (cp_endpoint_a ch) \<and> cs_endpoint_b sl = Some (cp_endpoint_b ch))"

text \<open>\<open>balanced s obs\<close>: the registry counts what the state holds and one reference for each object of
  \<open>obs\<close>, the objects an operation has in its hands.\<close>

definition balanced :: "user_ipc \<Rightarrow> object_id list \<Rightarrow> bool" where
  "balanced s obs \<longleftrightarrow> reg_inv (ui_registry s) \<and> wait_inv (ui_waiters s) \<and>
     length (ui_processes s) = MAX_USER_PROCESSES \<and> length (ui_channels s) = CHANNEL_CAPACITY \<and>
     (\<forall>p \<in> set (ui_processes s). process_ok p) \<and> (\<forall>sl \<in> set (ui_channels s). channel_slot_ok sl) \<and>
     (\<forall>x. reg_refs (ui_registry s) x = all_refs s x + count_list obs x)"

definition ipc_inv :: "user_ipc \<Rightarrow> bool" where
  "ipc_inv s \<longleftrightarrow> balanced s []"

lemma balancedD:
  assumes "balanced s obs"
  shows "reg_inv (ui_registry s)" and "wait_inv (ui_waiters s)"
    and "length (ui_processes s) = MAX_USER_PROCESSES" and "length (ui_channels s) = CHANNEL_CAPACITY"
    and "i < MAX_USER_PROCESSES \<Longrightarrow> process_ok (ui_processes s ! i)"
    and "j < CHANNEL_CAPACITY \<Longrightarrow> channel_slot_ok (ui_channels s ! j)"
    and "reg_refs (ui_registry s) x = all_refs s x + count_list obs x"
  using assms unfolding balanced_def by (metis nth_mem)+

lemma put_simps [simp]:
  "ui_registry (put_registry s r) = r" "ui_processes (put_registry s r) = ui_processes s"
  "ui_channels (put_registry s r) = ui_channels s" "ui_waiters (put_registry s r) = ui_waiters s"
  "ui_registry (put_process s i p) = ui_registry s"
  "ui_processes (put_process s i p) = (ui_processes s)[i := p]"
  "ui_channels (put_process s i p) = ui_channels s" "ui_waiters (put_process s i p) = ui_waiters s"
  "ui_registry (put_channel s j sl) = ui_registry s" "ui_processes (put_channel s j sl) = ui_processes s"
  "ui_channels (put_channel s j sl) = (ui_channels s)[j := sl]"
  "ui_waiters (put_channel s j sl) = ui_waiters s"
  "put_registry s (ui_registry s) = s"
  by (simp_all add: put_registry_def put_process_def put_channel_def)

text \<open>The general step: a process slot, a channel slot and the registry change together.\<close>

lemma balanced_step:
  assumes b: "balanced s obs" and i: "i < MAX_USER_PROCESSES" and j: "j < CHANNEL_CAPACITY"
    and ok: "process_ok p" "channel_slot_ok sl" "reg_inv r" "wait_inv w"
    and eq: "\<And>x. reg_refs r x + process_refs (ui_processes s ! i) x + slot_refs (ui_channels s ! j) x +
        count_list obs x =
      reg_refs (ui_registry s) x + process_refs p x + slot_refs sl x + count_list obs' x"
  shows "balanced (s\<lparr>ui_registry := r, ui_processes := (ui_processes s)[i := p],
    ui_channels := (ui_channels s)[j := sl], ui_waiters := w\<rparr>) obs'"
proof -
  let ?s = "s\<lparr>ui_registry := r, ui_processes := (ui_processes s)[i := p],
    ui_channels := (ui_channels s)[j := sl], ui_waiters := w\<rparr>"
  have len: "i < length (ui_processes s)" "j < length (ui_channels s)"
    using i j balancedD(3,4) [OF b] by simp_all
  have "reg_refs r x = all_refs ?s x + count_list obs' x" for x
    using sum_list_map_update [OF len(1), of "\<lambda>p. process_refs p x" p]
      sum_list_map_update [OF len(2), of "\<lambda>sl. slot_refs sl x" sl] eq [of x] balancedD(7) [OF b, of x]
    by (simp add: all_refs_def)
  moreover have "\<forall>p \<in> set (ui_processes ?s). process_ok p"
    using b ok(1) set_update_subset_insert [of "ui_processes s" i p] by (auto simp: balanced_def)
  moreover have "\<forall>sl \<in> set (ui_channels ?s). channel_slot_ok sl"
    using b ok(2) set_update_subset_insert [of "ui_channels s" j sl] by (auto simp: balanced_def)
  ultimately show ?thesis using b ok(3,4) by (simp add: balanced_def)
qed

lemma balanced_registry:
  assumes b: "balanced s obs" and "reg_inv r"
    and "\<And>x. reg_refs r x + count_list obs x = reg_refs (ui_registry s) x + count_list obs' x"
  shows "balanced (put_registry s r) obs'"
proof -
  have "balanced (s\<lparr>ui_registry := r, ui_processes := (ui_processes s)[0 := ui_processes s ! 0],
    ui_channels := (ui_channels s)[0 := ui_channels s ! 0], ui_waiters := ui_waiters s\<rparr>) obs'"
    by (rule balanced_step [OF b])
      (use assms(2,3) balancedD(2) [OF b] balancedD(5,6) [OF b, of 0] in
        \<open>simp_all add: MAX_USER_PROCESSES_def CHANNEL_CAPACITY_def algebra_simps\<close>)
  then show ?thesis by (simp add: put_registry_def)
qed

lemma balanced_process:
  assumes b: "balanced s obs" and i: "i < MAX_USER_PROCESSES" and "process_ok p" "reg_inv r"
    and "\<And>x. reg_refs r x + process_refs (ui_processes s ! i) x + count_list obs x =
      reg_refs (ui_registry s) x + process_refs p x + count_list obs' x"
  shows "balanced (put_registry (put_process s i p) r) obs'"
proof -
  have "balanced (s\<lparr>ui_registry := r, ui_processes := (ui_processes s)[i := p],
    ui_channels := (ui_channels s)[0 := ui_channels s ! 0], ui_waiters := ui_waiters s\<rparr>) obs'"
    by (rule balanced_step [OF b i])
      (use assms(3-5) balancedD(2) [OF b] balancedD(6) [OF b, of 0] in
        \<open>simp_all add: CHANNEL_CAPACITY_def algebra_simps\<close>)
  moreover have "put_registry (put_process s i p) r = s\<lparr>ui_registry := r, ui_processes := (ui_processes s)[i := p],
    ui_channels := (ui_channels s)[0 := ui_channels s ! 0], ui_waiters := ui_waiters s\<rparr>"
    by (cases s) (simp add: put_registry_def put_process_def)
  ultimately show ?thesis by (simp only:)
qed

lemma balanced_channel:
  assumes b: "balanced s obs" and j: "j < CHANNEL_CAPACITY" and "channel_slot_ok sl" "reg_inv r"
    and "\<And>x. reg_refs r x + slot_refs (ui_channels s ! j) x + count_list obs x =
      reg_refs (ui_registry s) x + slot_refs sl x + count_list obs' x"
  shows "balanced (put_channel (put_registry s r) j sl) obs'"
proof -
  have "balanced (s\<lparr>ui_registry := r, ui_processes := (ui_processes s)[0 := ui_processes s ! 0],
    ui_channels := (ui_channels s)[j := sl], ui_waiters := ui_waiters s\<rparr>) obs'"
    by (rule balanced_step [OF b _ j])
      (use assms(3-5) balancedD(2) [OF b] balancedD(5) [OF b, of 0] in
        \<open>simp_all add: MAX_USER_PROCESSES_def algebra_simps\<close>)
  then show ?thesis by (simp add: put_registry_def put_channel_def)
qed

lemma balanced_waiters: "balanced s obs \<Longrightarrow> wait_inv w \<Longrightarrow> balanced (s\<lparr>ui_waiters := w\<rparr>) obs"
  by (simp add: balanced_def all_refs_def)

lemma release_one:
  assumes "reg_inv r" and "0 < reg_refs r ob"
  obtains r' where "registry_release r ob = (Inr (), r')" and "reg_inv r'"
    and "\<forall>x. reg_refs r' x + of_bool (ob = x) = reg_refs r x"
proof -
  have "fst (registry_release r ob) = Inr ()"
    using release_ok_iff [OF assms(1)] assms(2) reg_refs_pos_iff [OF assms(1)] by simp
  then obtain r' where r': "registry_release r ob = (Inr (), r')" by (cases "registry_release r ob") auto
  have "reg_refs r' x + of_bool (ob = x) = reg_refs r x" for x
    using release_refs [OF r'] assms(2) by simp
  then show thesis using that r' release_inv [OF assms(1) r'] by blast
qed

lemma balanced_release:
  assumes b: "balanced s (ob # obs)"
  obtains r' where "registry_release (ui_registry s) ob = (Inr (), r')"
    and "balanced (put_registry s r') obs"
proof -
  have "0 < reg_refs (ui_registry s) ob" using balancedD(7) [OF b, of ob] by simp
  then obtain r' where r': "registry_release (ui_registry s) ob = (Inr (), r')" "reg_inv r'"
    "\<forall>x. reg_refs r' x + of_bool (ob = x) = reg_refs (ui_registry s) x"
    by (rule release_one [OF balancedD(1) [OF b]])
  have "balanced (put_registry s r') obs"
  proof (rule balanced_registry [OF b r'(2)])
    fix x show "reg_refs r' x + count_list (ob # obs) x = reg_refs (ui_registry s) x + count_list obs x"
      using r'(3) [rule_format, of x] by (cases "ob = x") simp_all
  qed
  then show thesis using that r'(1) by blast
qed

lemma balanced_create:
  assumes b: "balanced s obs" and c: "registry_create (ui_registry s) k = (Inr ob, r')"
  shows "balanced (put_registry s r') (ob # obs)"
proof (rule balanced_registry [OF b])
  note o = create_ok [OF balancedD(1) [OF b] c]
  show "reg_inv r'" by (rule o(1))
  fix x show "reg_refs r' x + count_list obs x = reg_refs (ui_registry s) x + count_list (ob # obs) x"
    using o(2,3) by (cases "ob = x") simp_all
qed

lemma balanced_cong:
  assumes "balanced s obs" and "\<And>x. count_list obs x = count_list obs' x"
  shows "balanced s obs'"
  using assms by (simp add: balanced_def)

section \<open>The look-ups\<close>

lemma put_norm:
  "put_registry (put_registry s r) r' = put_registry s r'"
  "put_process (put_registry s r) i p = put_registry (put_process s i p) r"
  "put_channel (put_registry s r) j sl = put_registry (put_channel s j sl) r"
  "put_channel (put_process s i p) j sl = put_process (put_channel s j sl) i p"
  by (cases s, simp add: put_registry_def put_process_def put_channel_def)+

lemma balanced_put:
  assumes b: "balanced s obs" and i: "i < MAX_USER_PROCESSES" and j: "j < CHANNEL_CAPACITY"
    and "process_ok p" and "channel_slot_ok sl" and "reg_inv r"
    and "\<And>x. reg_refs r x + process_refs (ui_processes s ! i) x + slot_refs (ui_channels s ! j) x +
        count_list obs x =
      reg_refs (ui_registry s) x + process_refs p x + slot_refs sl x + count_list obs' x"
  shows "balanced (put_channel (put_registry (put_process s i p) r) j sl) obs'"
proof -
  have "put_channel (put_registry (put_process s i p) r) j sl =
      s\<lparr>ui_registry := r, ui_processes := (ui_processes s)[i := p],
        ui_channels := (ui_channels s)[j := sl], ui_waiters := ui_waiters s\<rparr>"
    by (cases s) (simp add: put_registry_def put_process_def put_channel_def)
  then show ?thesis using balanced_step [OF b i j assms(4-6) balancedD(2) [OF b] assms(7)]
    by (simp only:)
qed

lemma MAX_USER_PROCESSES_pos [simp]: "0 < MAX_USER_PROCESSES"
  by (simp add: MAX_USER_PROCESSES_def)

lemma process_index_bound:
  assumes "balanced s obs" and "process_index s pid = Inr i"
  shows "i < MAX_USER_PROCESSES" and "pid \<noteq> BOOTSTRAP_PROCESS_ID \<Longrightarrow> \<exists>p. ui_processes s ! i = Some p \<and> proc_id p = pid"
    and "pid \<noteq> BOOTSTRAP_PROCESS_ID \<Longrightarrow> i \<noteq> 0"
proof -
  have "i = 0 \<and> pid = BOOTSTRAP_PROCESS_ID \<or> pid \<noteq> BOOTSTRAP_PROCESS_ID \<and> i \<noteq> 0 \<and>
      position (\<lambda>slot. case slot of None \<Rightarrow> False | Some p \<Rightarrow> proc_id p = pid) (ui_processes s) = Some i"
    using assms(2) by (auto simp: process_index_def split: if_splits option.splits)
  then show "i < MAX_USER_PROCESSES"
    "pid \<noteq> BOOTSTRAP_PROCESS_ID \<Longrightarrow> \<exists>p. ui_processes s ! i = Some p \<and> proc_id p = pid"
    "pid \<noteq> BOOTSTRAP_PROCESS_ID \<Longrightarrow> i \<noteq> 0"
    using position_SomeD(1,2) [of _ "ui_processes s" i] balancedD(3) [OF assms(1)]
    by (fastforce split: option.splits)+
qed

lemma process_refE:
  assumes "balanced s obs" and "process_ref s pid = Inr p"
  obtains i where "process_index s pid = Inr i" and "i < MAX_USER_PROCESSES"
    and "ui_processes s ! i = Some p" and "table_inv (proc_handles p)"
proof -
  obtain i where i: "process_index s pid = Inr i" "ui_processes s ! i = Some p"
    using assms(2) by (auto simp: process_ref_def split: sum.splits option.splits)
  have "i < MAX_USER_PROCESSES" by (rule process_index_bound(1) [OF assms(1) i(1)])
  moreover from balancedD(5) [OF assms(1) this] i(2) have "table_inv (proc_handles p)"
    by (simp add: process_ok_def)
  ultimately show thesis using that i by blast
qed

lemma locateE:
  assumes b: "balanced s obs" and "locate_endpoint s pid h = Inr (ci, e)"
  obtains p ch where "process_ref s pid = Inr p" and "table_resolve (proc_handles p) (ui_registry s) h = Inr e"
    and "oid_kind e = KChannelEndpoint" and "endpoint_slot s e = Some ci" and "ci < CHANNEL_CAPACITY"
    and "cs_pair (ui_channels s ! ci) = Some ch" and "channel_inv ch"
    and "cs_object (ui_channels s ! ci) = Some (cp_object ch)"
    and "cs_endpoint_a (ui_channels s ! ci) = Some (cp_endpoint_a ch)"
    and "cs_endpoint_b (ui_channels s ! ci) = Some (cp_endpoint_b ch)"
    and "e = cp_endpoint_a ch \<or> e = cp_endpoint_b ch"
proof -
  obtain p where p: "process_ref s pid = Inr p" "table_resolve (proc_handles p) (ui_registry s) h = Inr e"
    "oid_kind e = KChannelEndpoint" "endpoint_slot s e = Some ci"
    using assms(2) by (auto simp: locate_endpoint_def split: sum.splits if_splits option.splits)
  have ci: "ci < CHANNEL_CAPACITY" "cs_pair (ui_channels s ! ci) \<noteq> None" "contains_endpoint (ui_channels s ! ci) e"
    using position_SomeD(1,2) [OF p(4) [unfolded endpoint_slot_def]] balancedD(4) [OF b] by auto
  then obtain ch where ch: "cs_pair (ui_channels s ! ci) = Some ch" by auto
  note ok = balancedD(6) [OF b ci(1), unfolded channel_slot_ok_def ch option.case]
  show thesis
    by (rule that [OF p ci(1) ch]) (use ok ci(3) in \<open>auto simp: contains_endpoint_def\<close>)
qed

section \<open>Initialization\<close>

lemma process_refs_None [simp]: "process_refs None x = 0"
  by (simp add: process_refs_def)

lemma process_new_refs: "process_refs (Some (process_new n pid ob)) x = of_bool (ob = x)"
  by (simp add: process_refs_def process_new_def held_def visit_objects_table_new)

lemma process_new_ok: "n \<le> 2 ^ 32 \<Longrightarrow> process_ok (Some (process_new n pid ob))"
  by (simp add: process_ok_def process_new_def table_inv_new)

lemma ipc_initialize_balanced:
  assumes b: "balanced s []" and i: "ipc_initialize s = (res, s')"
  shows "balanced s' []" and "res \<noteq> Inl UE_Panic" and "res = Inr () \<Longrightarrow> ui_processes s' ! 0 \<noteq> None"
    and "ui_channels s' = ui_channels s" and "ui_waiters s' = ui_waiters s"
    and "\<And>j. j \<noteq> 0 \<Longrightarrow> ui_processes s' ! j = ui_processes s ! j"
proof -
  have "balanced s' [] \<and> res \<noteq> Inl UE_Panic \<and> (res = Inr () \<longrightarrow> ui_processes s' ! 0 \<noteq> None) \<and>
      ui_channels s' = ui_channels s \<and> ui_waiters s' = ui_waiters s \<and>
      (\<forall>j. j \<noteq> 0 \<longrightarrow> ui_processes s' ! j = ui_processes s ! j)"
  proof (cases "ui_processes s ! 0 = None")
    case False
    then show ?thesis using i b by (auto simp: ipc_initialize_def)
  next
    case True
    obtain c r where c: "registry_create (ui_registry s) KAddressSpace = (c, r)" by fastforce
    show ?thesis
    proof (cases c)
      case (Inl e)
      then have "r = ui_registry s" using create_err_unchanged c by blast
      then show ?thesis using i b c Inl True by (auto simp: ipc_initialize_def)
    next
      case (Inr ob)
      let ?p = "Some (process_new HANDLE_CAPACITY BOOTSTRAP_PROCESS_ID ob)"
      have c': "balanced (put_registry s r) [ob]" using balanced_create [OF b c [unfolded Inr]] .
      have "balanced (put_registry (put_process (put_registry s r) 0 ?p) (ui_registry (put_registry s r))) []"
        by (rule balanced_process [OF c'])
          (use balancedD(1) [OF c'] True in
            \<open>simp_all add: process_new_refs process_new_ok HANDLE_CAPACITY_def\<close>)
      then have "balanced (put_process (put_registry s r) 0 ?p) []"
        by (simp add: put_norm)
      moreover have "res = Inr ()" "s' = put_process (put_registry s r) 0 ?p"
        using i c Inr True by (auto simp: ipc_initialize_def)
      ultimately show ?thesis using balancedD(3) [OF b] by simp
    qed
  qed
  then show "balanced s' []" "res \<noteq> Inl UE_Panic" "res = Inr () \<Longrightarrow> ui_processes s' ! 0 \<noteq> None"
    "ui_channels s' = ui_channels s" "ui_waiters s' = ui_waiters s"
    "\<And>j. j \<noteq> 0 \<Longrightarrow> ui_processes s' ! j = ui_processes s ! j" by blast+
qed

lemma process_mut_balanced:
  assumes b: "balanced s []" and m: "process_mut s pid = (res, s')"
  shows "balanced s' []" and "res \<noteq> Inl UE_Panic" and "res = Inr p \<Longrightarrow> process_ref s' pid = Inr p"
    and "ui_channels s' = ui_channels s"
proof -
  obtain i s1 where i: "ipc_initialize s = (i, s1)" by fastforce
  note n = ipc_initialize_balanced [OF b i]
  have r: "process_ref s1 pid \<noteq> Inl UE_Panic"
    by (auto simp: process_ref_def process_index_def split: sum.splits option.splits if_splits)
  show "balanced s' []" "res \<noteq> Inl UE_Panic" "res = Inr p \<Longrightarrow> process_ref s' pid = Inr p"
    "ui_channels s' = ui_channels s"
    using m n(1,2,4) i r by (auto simp: process_mut_def split: sum.splits)
qed

section \<open>Reclaiming\<close>

lemma reclaim_slot_balanced:
  assumes b: "balanced s []" and i: "index < CHANNEL_CAPACITY" and p: "cs_pair (ui_channels s ! index) \<noteq> None"
  obtains r where "reclaim_slot s index = (Inr (), put_channel (put_registry s r) index (channel_slot_clear (ui_channels s ! index)))"
    and "balanced (put_channel (put_registry s r) index (channel_slot_clear (ui_channels s ! index))) []"
proof -
  let ?sl = "ui_channels s ! index" let ?r = "ui_registry s"
  obtain ch where ch: "cs_pair ?sl = Some ch" using p by auto
  note ok = balancedD(6) [OF b i, unfolded channel_slot_ok_def ch option.case]
  have inv: "reg_inv ?r" using balancedD(1) [OF b] .
  have "slot_refs ?sl x \<le> sum_list (map (\<lambda>sl. slot_refs sl x) (ui_channels s))" for x
    using i balancedD(4) [OF b] by (intro member_le_sum_list) auto
  then have ge: "slot_refs ?sl x \<le> reg_refs ?r x" for x
    using balancedD(7) [OF b, of x] by (simp add: all_refs_def trans_le_add2)
  have esc: "escrow ch x \<le> reg_refs ?r x" for x using ge [of x] by (simp add: slot_refs_def ch)
  obtain qs r1 where d: "drain ch ?r = (Inr (), ch\<lparr>cp_queues := qs\<rparr>, r1)" "reg_inv r1"
    "visit_escrow_objects (ch\<lparr>cp_queues := qs\<rparr>) = []" "\<forall>x. reg_refs r1 x + escrow ch x = reg_refs ?r x"
    by (rule drain_ok [OF conjunct1 [OF ok] inv esc])
  have ge1: "of_bool (cp_object ch = x) + of_bool (cp_endpoint_a ch = x) + of_bool (cp_endpoint_b ch = x)
      \<le> reg_refs r1 x" for x
    using ge [of x] d(4) [rule_format, of x] unfolding slot_refs_def ch option.case by linarith
  have "0 < reg_refs r1 (cp_endpoint_a ch)" using ge1 [of "cp_endpoint_a ch"] by simp
  then obtain r2 where r2: "registry_release r1 (cp_endpoint_a ch) = (Inr (), r2)" "reg_inv r2"
    "\<forall>x. reg_refs r2 x + of_bool (cp_endpoint_a ch = x) = reg_refs r1 x"
    by (rule release_one [OF d(2)])
  have ge2: "of_bool (cp_object ch = x) + of_bool (cp_endpoint_b ch = x) \<le> reg_refs r2 x" for x
    using ge1 [of x] r2(3) [rule_format, of x] by simp
  have "0 < reg_refs r2 (cp_endpoint_b ch)" using ge2 [of "cp_endpoint_b ch"] by simp
  then obtain r3 where r3: "registry_release r2 (cp_endpoint_b ch) = (Inr (), r3)" "reg_inv r3"
    "\<forall>x. reg_refs r3 x + of_bool (cp_endpoint_b ch = x) = reg_refs r2 x"
    by (rule release_one [OF r2(2)])
  have "0 < reg_refs r3 (cp_object ch)" using ge2 [of "cp_object ch"] r3(3) [rule_format, of "cp_object ch"] by simp
  then obtain r4 where r4: "registry_release r3 (cp_object ch) = (Inr (), r4)" "reg_inv r4"
    "\<forall>x. reg_refs r4 x + of_bool (cp_object ch = x) = reg_refs r3 x"
    by (rule release_one [OF r3(2)])
  let ?s = "put_channel (put_registry s r4) index (channel_slot_clear ?sl)"
  have "reclaim_slot s index = (Inr (), ?s)"
    using ok ch d(1) r2(1) r3(1) r4(1) by (simp add: reclaim_slot_def put_channel_def put_registry_def)
  moreover have "balanced ?s []"
  proof (rule balanced_channel [OF b i _ r4(2)])
    show "channel_slot_ok (channel_slot_clear ?sl)" by (simp add: channel_slot_ok_def channel_slot_clear_def)
    fix x
    have "slot_refs (channel_slot_clear ?sl) x = 0" by (simp add: slot_refs_def channel_slot_clear_def)
    then show "reg_refs r4 x + slot_refs ?sl x + count_list [] x =
        reg_refs ?r x + slot_refs (channel_slot_clear ?sl) x + count_list [] x"
      using d(4) [rule_format, of x] r2(3) [rule_format, of x] r3(3) [rule_format, of x] r4(3) [rule_format, of x] by (simp add: slot_refs_def ch)
  qed
  ultimately show thesis by (rule that)
qed

lemma reclaim_slots_balanced:
  assumes "balanced s []" and "\<forall>i \<in> set is. i < CHANNEL_CAPACITY" and "distinct is"
  shows "\<exists>s'. reclaim_slots s marks is = (Inr (), s') \<and> balanced s' [] \<and>
    ui_processes s' = ui_processes s \<and> ui_waiters s' = ui_waiters s \<and>
    (\<forall>i < CHANNEL_CAPACITY. ui_channels s' ! i =
       (if i \<in> set is \<and> \<not> marks ! i \<and> cs_pair (ui_channels s ! i) \<noteq> None
        then channel_slot_clear (ui_channels s ! i) else ui_channels s ! i))"
  using assms
proof (induction "is" arbitrary: s)
  case (Cons index "is")
  show ?case
  proof (cases "marks ! index \<or> cs_pair (ui_channels s ! index) = None")
    case True
    then show ?thesis using Cons.IH [OF Cons.prems(1)] Cons.prems(2,3) by auto
  next
    case False
    let ?sl = "ui_channels s ! index"
    have ix: "index < CHANNEL_CAPACITY" using Cons.prems(2) by simp
    obtain r where r: "reclaim_slot s index = (Inr (), put_channel (put_registry s r) index (channel_slot_clear ?sl))"
      "balanced (put_channel (put_registry s r) index (channel_slot_clear ?sl)) []"
      using reclaim_slot_balanced [OF Cons.prems(1) ix] False by blast
    let ?s = "put_channel (put_registry s r) index (channel_slot_clear ?sl)"
    have "\<exists>s'. reclaim_slots ?s marks is = (Inr (), s') \<and> balanced s' [] \<and>
      ui_processes s' = ui_processes ?s \<and> ui_waiters s' = ui_waiters ?s \<and>
      (\<forall>i < CHANNEL_CAPACITY. ui_channels s' ! i =
         (if i \<in> set is \<and> \<not> marks ! i \<and> cs_pair (ui_channels ?s ! i) \<noteq> None
          then channel_slot_clear (ui_channels ?s ! i) else ui_channels ?s ! i))"
      using Cons.IH [OF r(2)] Cons.prems(2,3) by simp
    then obtain s' where s': "reclaim_slots ?s marks is = (Inr (), s')" "balanced s' []"
      "ui_processes s' = ui_processes s" "ui_waiters s' = ui_waiters s"
      "\<forall>i < CHANNEL_CAPACITY. ui_channels s' ! i =
         (if i \<in> set is \<and> \<not> marks ! i \<and> cs_pair (ui_channels ?s ! i) \<noteq> None
          then channel_slot_clear (ui_channels ?s ! i) else ui_channels ?s ! i)" by auto
    have len: "length (ui_channels s) = CHANNEL_CAPACITY" by (rule balancedD(4) [OF Cons.prems(1)])
    have "ui_channels s' ! i = (if i \<in> set (index # is) \<and> \<not> marks ! i \<and> cs_pair (ui_channels s ! i) \<noteq> None
        then channel_slot_clear (ui_channels s ! i) else ui_channels s ! i)" if "i < CHANNEL_CAPACITY" for i
    proof -
      have "i \<noteq> index \<Longrightarrow> ui_channels ?s ! i = ui_channels s ! i"
        "ui_channels ?s ! index = channel_slot_clear ?sl" using len ix by simp_all
      then show ?thesis using s'(5) [rule_format, OF that] False Cons.prems(3) by (cases "i = index") auto
    qed
    moreover have "reclaim_slots s marks (index # is) = (Inr (), s')" using s'(1) r(1) False by auto
    ultimately show ?thesis using s'(2-4) by blast
  qed
qed simp

lemma collect_balanced:
  assumes "balanced s []"
  obtains s' where "collect_unreachable_channels s = (Inr (), s')" and "balanced s' []"
    and "ui_processes s' = ui_processes s" and "ui_waiters s' = ui_waiters s"
    and "\<forall>i < CHANNEL_CAPACITY. ui_channels s' ! i =
       (if \<not> reachable_marks s ! i \<and> cs_pair (ui_channels s ! i) \<noteq> None
        then channel_slot_clear (ui_channels s ! i) else ui_channels s ! i)"
  using reclaim_slots_balanced [OF assms, of "[0..<CHANNEL_CAPACITY]" "reachable_marks s"]
  by (auto simp: collect_unreachable_channels_def)

section \<open>Every operation keeps the accounts\<close>

lemma process_refs_handles:
  "process_refs (Some (p\<lparr>proc_handles := t\<rparr>)) x = held t x + of_bool (proc_address_space p = x)"
  by (simp add: process_refs_def)

lemma release_created_balanced:
  assumes "balanced s [eb, ea, ch]"
  shows "balanced (put_registry s (release_created_objects (ui_registry s) ch ea eb)) []"
proof -
  have b: "balanced s [ea, eb, ch]" using assms by (rule balanced_cong) simp
  obtain r1 where r1: "registry_release (ui_registry s) ea = (Inr (), r1)" "balanced (put_registry s r1) [eb, ch]"
    by (rule balanced_release [OF b])
  obtain r2 where r2: "registry_release r1 eb = (Inr (), r2)" "balanced (put_registry s r2) [ch]"
    using balanced_release [OF r1(2)] by (metis put_simps(1) put_norm(1))
  obtain r3 where r3: "registry_release r2 ch = (Inr (), r3)" "balanced (put_registry s r3) []"
    using balanced_release [OF r2(2)] by (metis put_simps(1) put_norm(1))
  show ?thesis using r1(1) r2(1) r3 by (simp add: release_created_objects_def)
qed

text \<open>Putting the new channel into a free slot gives the three created references to the slot.\<close>

lemma new_slot_refs:
  assumes "channel_new channel ea eb = Inr pair"
  shows "slot_refs \<lparr>cs_pair = Some pair, cs_object = Some (cp_object pair),
      cs_endpoint_a = Some (cp_endpoint_a pair), cs_endpoint_b = Some (cp_endpoint_b pair)\<rparr> x =
    count_list [eb, ea, channel] x"
    and "channel_slot_ok \<lparr>cs_pair = Some pair, cs_object = Some (cp_object pair),
      cs_endpoint_a = Some (cp_endpoint_a pair), cs_endpoint_b = Some (cp_endpoint_b pair)\<rparr>"
  using channel_new_ok [OF assms]
  by (auto simp: slot_refs_def escrow_def channel_slot_ok_def)

lemma insert_endpoints_balanced:
  assumes b: "balanced s [eb, ea, channel]" and new: "channel_new channel ea eb = Inr pair"
    and i: "pi < MAX_USER_PROCESSES" "ui_processes s ! pi \<noteq> None"
    and j: "slot_index < CHANNEL_CAPACITY" "cs_pair (ui_channels s ! slot_index) = None"
    and ins: "insert_endpoints s pi pair slot_index = (res, s')"
  shows "balanced s' []" and "res \<noteq> Inl UE_Panic"
proof -
  note ch = channel_new_ok(3-5) [OF new]
  obtain p where p: "ui_processes s ! pi = Some p" using i(2) by auto
  have inv: "reg_inv (ui_registry s)" "table_inv (proc_handles p)"
    using balancedD(1) [OF b] balancedD(5) [OF b i(1)] p by (simp_all add: process_ok_def)
  have undo: "balanced (put_registry s (release_created_objects (ui_registry s) channel ea eb)) []"
    by (rule release_created_balanced [OF b])
  have same: "put_process s pi (Some p) = s" using i(1) p by (simp add: put_process_def flip: p)
  obtain f t1 r1 where f: "table_insert (proc_handles p) (ui_registry s) ea ENDPOINT_RIGHTS = (f, t1, r1)"
    by (metis prod_cases3)
  have "balanced s' [] \<and> res \<noteq> Inl UE_Panic"
  proof (cases f)
    case (Inl e)
    then have "t1 = proc_handles p" "r1 = ui_registry s"
      using insert_err_unchanged [OF inv(1)] f by blast+
    then have "s' = put_registry s (release_created_objects (ui_registry s) channel ea eb)" "res = Inl (UE_Handle e)"
      using ins p f Inl ch same by (simp_all add: insert_endpoints_def)
    then show ?thesis using undo by simp
  next
    case (Inr h1)
    note o1 = insert_ok [OF inv f [unfolded Inr]]
    obtain g t2 r2 where g: "table_insert t1 r1 eb ENDPOINT_RIGHTS = (g, t2, r2)" by (metis prod_cases3)
    show ?thesis
    proof (cases g)
      case (Inl e)
      then have eq: "t2 = t1" "r2 = r1" using insert_err_unchanged [OF o1(1)] g by blast+
      have cap: "table_cap t1 h1 = Some \<lparr>cap_object = ea, cap_rights = ENDPOINT_RIGHTS\<rparr>" using o1(6) by simp
      have live: "reg_live r1 ea" using reg_refs_pos_iff [OF o1(1), of ea] o1(3) by simp
      obtain r3 where c: "table_close t1 r1 h1 = (Inr (), clear_handle t1 h1, r3)"
        using close_live [OF o1(1,2) cap] live by auto
      note k = clear_handle_ok [OF o1(2) cap]
      have r3: "reg_inv r3" "reg_refs r1 = (reg_refs r3)(ea := reg_refs r3 ea + 1)"
        using close_ok [OF o1(1,2) c] cap by (metis capability.select_convs(1) option.inject)+
      have hd: "held (clear_handle t1 h1) x = held (proc_handles p) x" for x
        using fun_cong [OF k(3), of x] fun_cong [OF o1(4), of x] by (auto split: if_splits)
      have rf: "reg_refs r3 x = reg_refs (ui_registry s) x" for x
        using fun_cong [OF r3(2), of x] fun_cong [OF o1(3), of x] by (auto split: if_splits)
      let ?s = "put_registry (put_process s pi (Some (p\<lparr>proc_handles := clear_handle t1 h1\<rparr>))) r3"
      have "balanced ?s [eb, ea, channel]"
        by (rule balanced_process [OF b i(1) _ r3(1)])
          (simp_all add: process_ok_def k(1) p process_refs_handles hd rf process_refs_def)
      then have "balanced (put_registry ?s (release_created_objects r3 channel ea eb)) []"
        using release_created_balanced [of ?s] by simp
      moreover have "s' = put_registry ?s (release_created_objects r3 channel ea eb)" "res = Inl (UE_Handle e)"
        using ins p f Inr g Inl c eq ch by (simp_all add: insert_endpoints_def put_norm)
      ultimately show ?thesis by simp
    next
      case (Inr h2)
      note o2 = insert_ok [OF o1(1,2) g [unfolded Inr]]
      let ?sl = "\<lparr>cs_pair = Some pair, cs_object = Some (cp_object pair),
        cs_endpoint_a = Some (cp_endpoint_a pair), cs_endpoint_b = Some (cp_endpoint_b pair)\<rparr>"
      let ?p = "Some (p\<lparr>proc_handles := t2\<rparr>)"
      have "balanced (put_channel (put_registry (put_process s pi ?p) r2) slot_index ?sl) []"
      proof (rule balanced_put [OF b i(1) j(1) _ new_slot_refs(2) [OF new] o2(1)])
        show "process_ok ?p" using o2(2) by (simp add: process_ok_def)
        fix x
        have h: "held t2 x + reg_refs (ui_registry s) x = held (proc_handles p) x + reg_refs r2 x"
          using fun_cong [OF o2(3), of x] fun_cong [OF o2(4), of x] fun_cong [OF o1(3), of x]
            fun_cong [OF o1(4), of x] by (auto split: if_splits)
        show "reg_refs r2 x + process_refs (ui_processes s ! pi) x + slot_refs (ui_channels s ! slot_index) x +
            count_list [eb, ea, channel] x =
          reg_refs (ui_registry s) x + process_refs ?p x + slot_refs ?sl x + count_list [] x"
          unfolding new_slot_refs(1) [OF new] process_refs_handles p
          using h j(2) by (simp add: process_refs_def slot_refs_def)
      qed
      moreover have "s' = put_channel (put_registry (put_process s pi ?p) r2) slot_index ?sl" "res = Inr (h1, h2)"
        using ins p f \<open>f = Inr h1\<close> g Inr ch by (simp_all add: insert_endpoints_def)
      ultimately show ?thesis by simp
    qed
  qed
  then show "balanced s' []" "res \<noteq> Inl UE_Panic" by blast+
qed

lemma create_pair_balanced:
  assumes b0: "balanced s0 []" and op: "create_pair s0 pid = (res, s')"
  shows "balanced s' []" and "res \<noteq> Inl UE_Panic"
proof -
  obtain m s where m: "process_mut s0 pid = (m, s)" by fastforce
  note pm = process_mut_balanced [OF b0 m]
  have b: "balanced s []" by (rule pm(1))
  have "balanced s' [] \<and> res \<noteq> Inl UE_Panic"
  proof (cases m)
    case (Inl e)
    then show ?thesis using op m pm(1,2) by (auto simp: create_pair_def)
  next
    case (Inr p)
    have "process_ref s pid = Inr p" using pm(3) Inr by simp
    then obtain pi where pi: "process_index s pid = Inr pi" "pi < MAX_USER_PROCESSES" "ui_processes s ! pi = Some p"
      "table_inv (proc_handles p)" by (rule process_refE [OF b])
    show ?thesis
    proof (cases "position (\<lambda>sl. cs_pair sl = None) (ui_channels s)")
      case None
      then show ?thesis using op m Inr b by (auto simp: create_pair_def)
    next
      case (Some j)
      have j: "j < CHANNEL_CAPACITY" "cs_pair (ui_channels s ! j) = None"
        using position_SomeD(1,2) [OF Some] balancedD(4) [OF b] by auto
      note op1 = op [unfolded create_pair_def m Inr prod.case sum.case Some option.case]
      obtain c1 r1 where c1: "registry_create (ui_registry s) KChannel = (c1, r1)" by fastforce
      show ?thesis
      proof (cases c1)
        case (Inl e)
        then have "r1 = ui_registry s" using create_err_unchanged c1 by blast
        then show ?thesis using op1 c1 Inl b by auto
      next
        case (Inr channel)
        note op2 = op1 [unfolded c1 Inr prod.case sum.case]
        have b1: "balanced (put_registry s r1) [channel]" by (rule balanced_create [OF b c1 [unfolded Inr]])
        obtain c2 r2 where c2: "registry_create r1 KChannelEndpoint = (c2, r2)" by fastforce
        show ?thesis
        proof (cases c2)
          case (Inl e)
          then have "r2 = r1" using create_err_unchanged c2 by blast
          moreover obtain r3 where "registry_release r1 channel = (Inr (), r3)" "balanced (put_registry s r3) []"
            using balanced_release [OF b1] by (metis put_simps(1) put_norm(1))
          ultimately show ?thesis using op2 c2 Inl by auto
        next
          case (Inr ea)
          note op3 = op2 [unfolded c2 Inr prod.case sum.case]
          have b2: "balanced (put_registry s r2) [ea, channel]"
            using balanced_create [OF b1, of KChannelEndpoint ea r2] c2 Inr by (simp add: put_norm)
          obtain c3 r3 where c3: "registry_create r2 KChannelEndpoint = (c3, r3)" by fastforce
          show ?thesis
          proof (cases c3)
            case (Inl e)
            then have "r3 = r2" using create_err_unchanged c3 by blast
            moreover obtain r4 where r4: "registry_release r2 ea = (Inr (), r4)" "balanced (put_registry s r4) [channel]"
              using balanced_release [OF b2] by (metis put_simps(1) put_norm(1))
            moreover obtain r5 where "registry_release r4 channel = (Inr (), r5)" "balanced (put_registry s r5) []"
              using balanced_release [OF r4(2)] by (metis put_simps(1) put_norm(1))
            ultimately show ?thesis using op3 c3 Inl by auto
          next
            case (Inr eb)
            note op4 = op3 [unfolded c3 Inr prod.case sum.case]
            have b3: "balanced (put_registry s r3) [eb, ea, channel]"
              using balanced_create [OF b2, of KChannelEndpoint eb r3] c3 Inr by (simp add: put_norm)
            show ?thesis
            proof (cases "channel_new channel ea eb")
              case (Inl e)
              then show ?thesis using op4 release_created_balanced [OF b3] by (auto simp: put_norm)
            next
              case (Inr pair)
              have "insert_endpoints (put_registry s r3) pi pair j = (res, s')"
                using op4 Inr pi(1) by simp
              then show ?thesis
                using insert_endpoints_balanced [OF b3 Inr pi(2) _ j(1)] pi(3) j(2) by simp
            qed
          qed
        qed
      qed
    qed
  qed
  then show "balanced s' []" "res \<noteq> Inl UE_Panic" by blast+
qed

lemma build_transfers_ok:
  assumes "outgoing_ok m"
  shows "case build_transfers m ts of Inl e \<Rightarrow> e \<noteq> UE_Panic | Inr m' \<Rightarrow> outgoing_ok m'"
  using assms
proof (induction ts arbitrary: m)
  case (Cons t ts)
  show ?case
  proof (cases "ct_reserved t \<noteq> 0 \<or> rights_from_bits (ct_rights t) = None")
    case True
    then show ?thesis by (auto split: option.split)
  next
    case False
    then obtain rights where r: "rights_from_bits (ct_rights t) = Some rights" by auto
    obtain a m1 where a: "add_transfer m (ct_handle t) rights = (a, m1)" by fastforce
    show ?thesis
    proof (cases a)
      case (Inr u)
      then have "outgoing_ok m1" using add_transfer_ok(1) [OF Cons.prems] a by simp
      from Cons.IH [OF this] show ?thesis using False r a Inr by simp
    qed (use False r a in simp)
  qed
qed simp

lemma build_message_ok:
  "case build_message request of Inl e \<Rightarrow> e \<noteq> UE_Panic | Inr m \<Rightarrow> outgoing_ok m"
proof -
  define m where "m = outgoing_new \<lparr>mh_protocol_id = sr_protocol_id request, mh_version = sr_version request,
    mh_request_id = sr_request_id request, mh_opcode = sr_opcode request, mh_flags = sr_flags request\<rparr>"
  obtain a m1 where a: "set_payload m (take (unat (sr_payload_len request)) (sr_payload request)) = (a, m1)"
    by fastforce
  have "outgoing_ok m1" if "a = Inr u" for u
    using set_payload_ok(1) [of m _ m1] a that outgoing_new_ok by (auto simp: m_def)
  then show ?thesis using build_transfers_ok [of m1 "take (unat (sr_transfer_count request)) (sr_transfers request)"] a
    unfolding build_message_def Let_def m_def [symmetric] by (auto split: sum.split sum.splits)
qed

lemma slot_with_pair_ok:
  assumes "channel_slot_ok sl" and "cs_pair sl = Some ch" and "channel_inv ch'"
    and "cp_object ch' = cp_object ch" "cp_endpoint_a ch' = cp_endpoint_a ch" "cp_endpoint_b ch' = cp_endpoint_b ch"
  shows "channel_slot_ok (sl\<lparr>cs_pair := Some ch'\<rparr>)"
    and "slot_refs (sl\<lparr>cs_pair := Some ch'\<rparr>) x + escrow ch x = slot_refs sl x + escrow ch' x"
  using assms by (simp_all add: channel_slot_ok_def slot_refs_def)

text \<open>Moving capabilities between a process and a channel keeps the balance.\<close>

lemma balanced_transfer:
  assumes b: "balanced s []" and pi: "pi < MAX_USER_PROCESSES" "ui_processes s ! pi = Some p"
    and ci: "ci < CHANNEL_CAPACITY" "cs_pair (ui_channels s ! ci) = Some ch"
    and new: "channel_inv ch'" "cp_object ch' = cp_object ch" "cp_endpoint_a ch' = cp_endpoint_a ch"
      "cp_endpoint_b ch' = cp_endpoint_b ch" "table_inv (proc_handles p')"
      "proc_address_space p' = proc_address_space p"
    and eq: "\<And>x. held (proc_handles p') x + escrow ch' x = held (proc_handles p) x + escrow ch x"
  shows "balanced (put_channel (put_process s pi (Some p')) ci ((ui_channels s ! ci)\<lparr>cs_pair := Some ch'\<rparr>)) []"
proof -
  note sl = slot_with_pair_ok [OF balancedD(6) [OF b ci(1)] ci(2) new(1-4)]
  have "balanced (put_channel (put_registry (put_process s pi (Some p')) (ui_registry s)) ci
      ((ui_channels s ! ci)\<lparr>cs_pair := Some ch'\<rparr>)) []"
  proof (rule balanced_put [OF b pi(1) ci(1) _ sl(1) balancedD(1) [OF b]])
    show "process_ok (Some p')" using new(5) by (simp add: process_ok_def)
    fix x
    show "reg_refs (ui_registry s) x + process_refs (ui_processes s ! pi) x + slot_refs (ui_channels s ! ci) x +
        count_list [] x =
      reg_refs (ui_registry s) x + process_refs (Some p') x + slot_refs ((ui_channels s ! ci)\<lparr>cs_pair := Some ch'\<rparr>) x +
        count_list [] x"
      using sl(2) [of x] eq [of x] new(6) by (simp add: pi(2) process_refs_def)
  qed
  moreover have "put_registry (put_process s pi (Some p')) (ui_registry s) = put_process s pi (Some p')"
    by (simp add: put_registry_def put_process_def)
  ultimately show ?thesis by simp
qed

lemma locate_no_panic: "locate_endpoint s pid h \<noteq> Inl UE_Panic"
  by (auto simp: locate_endpoint_def split: sum.split option.split)

lemma ipc_send_balanced:
  assumes b0: "balanced s0 []" and op: "ipc_send s0 pid endpoint request = (res, s')"
  shows "balanced s' []" and "res \<noteq> Inl UE_Panic"
proof -
  obtain m s where m: "process_mut s0 pid = (m, s)" by fastforce
  note pm = process_mut_balanced [OF b0 m]
  have b: "balanced s []" by (rule pm(1))
  have "balanced s' [] \<and> res \<noteq> Inl UE_Panic"
  proof (cases "(\<exists>e. m = Inl e) \<or> (\<exists>e. build_message request = Inl e) \<or> (\<exists>e. locate_endpoint s pid endpoint = Inl e)")
    case True
    then show ?thesis using op m pm(1,2) build_message_ok [of request] locate_no_panic [of s pid endpoint]
      by (auto simp: ipc_send_def split: sum.splits)
  next
    case False
    then obtain p0 msg ci e where f: "m = Inr p0" "build_message request = Inr msg"
      "locate_endpoint s pid endpoint = Inr (ci, e)" by (metis old.sum.exhaust surj_pair)
    have ok: "outgoing_ok msg" using build_message_ok [of request] f(2) by simp
    obtain p ch where l: "process_ref s pid = Inr p" "table_resolve (proc_handles p) (ui_registry s) endpoint = Inr e"
      "oid_kind e = KChannelEndpoint" "endpoint_slot s e = Some ci" "ci < CHANNEL_CAPACITY"
      "cs_pair (ui_channels s ! ci) = Some ch" "channel_inv ch"
      "cs_object (ui_channels s ! ci) = Some (cp_object ch)"
      "cs_endpoint_a (ui_channels s ! ci) = Some (cp_endpoint_a ch)"
      "cs_endpoint_b (ui_channels s ! ci) = Some (cp_endpoint_b ch)"
      "e = cp_endpoint_a ch \<or> e = cp_endpoint_b ch" by (rule locateE [OF b f(3)])
    from l(1) obtain pi where pi: "process_index s pid = Inr pi" "pi < MAX_USER_PROCESSES"
      "ui_processes s ! pi = Some p" "table_inv (proc_handles p)" by (rule process_refE [OF b])
    obtain sr ch1 p1 w1 where snd: "channel_send ch (ui_registry s) p endpoint msg (ui_waiters s) = (sr, ch1, p1, w1)"
      by (metis prod_cases4)
    let ?s1 = "put_channel (put_process s pi (Some p1)) ci ((ui_channels s ! ci)\<lparr>cs_pair := Some ch1\<rparr>)"
    have t: "balanced ?s1 [] \<and> wait_inv w1"
    proof (cases sr)
      case (Inl err)
      have "ch1 = ch \<and> p1 = p \<and> w1 = ui_waiters s"
        by (rule channel_send_err [OF balancedD(1) [OF b] pi(4) l(7) ok snd [unfolded Inl]])
      then show ?thesis using balanced_transfer [OF b pi(2,3) l(5,6) l(7), of p] pi(4) balancedD(2) [OF b] by simp
    next
      case (Inr u)
      then have "channel_send ch (ui_registry s) p endpoint msg (ui_waiters s) = (Inr (), ch1, p1, w1)" using snd by simp
      note i = channel_send_inv [OF balancedD(1) [OF b] pi(4) l(7) ok this]
      show ?thesis using balanced_transfer [OF b pi(2,3) l(5,6) i(1,5-7,2,9) i(3)] i(4) balancedD(2) [OF b] by simp
    qed
    then have "balanced (?s1\<lparr>ui_waiters := w1\<rparr>) []" "balanced (?s1\<lparr>ui_waiters := snd (take_woken_waiters w1)\<rparr>) []"
      by (simp_all add: balanced_waiters wait_inv_take_woken)
    then show ?thesis using op m f l(6) pi(1,3) snd b
      by (auto simp: ipc_send_def Let_def split: sum.splits if_splits prod.splits)
  qed
  then show "balanced s' []" "res \<noteq> Inl UE_Panic" by blast+
qed

lemma received_no_panic:
  assumes "delivered m t t' rm"
  shows "receive_result rm \<noteq> Inl UE_Panic"
  using assms by (auto simp: delivered_def receive_result_def list_ex_iff)

lemma try_receive_balanced:
  assumes b0: "balanced s0 []" and op: "try_receive s0 pid endpoint = (res, s')"
  shows "balanced s' []" and "res \<noteq> Inl UE_Panic"
proof -
  obtain m s where m: "process_mut s0 pid = (m, s)" by fastforce
  note pm = process_mut_balanced [OF b0 m]
  have b: "balanced s []" by (rule pm(1))
  have "balanced s' [] \<and> res \<noteq> Inl UE_Panic"
  proof (cases "(\<exists>e. m = Inl e) \<or> (\<exists>e. locate_endpoint s pid endpoint = Inl e)")
    case True
    then show ?thesis using op m pm(1,2) locate_no_panic [of s pid endpoint]
      by (auto simp: try_receive_def split: sum.splits)
  next
    case False
    then obtain p0 ci e where f: "m = Inr p0" "locate_endpoint s pid endpoint = Inr (ci, e)"
      by (metis old.sum.exhaust surj_pair)
    obtain p ch where l: "process_ref s pid = Inr p" "table_resolve (proc_handles p) (ui_registry s) endpoint = Inr e"
      "oid_kind e = KChannelEndpoint" "endpoint_slot s e = Some ci" "ci < CHANNEL_CAPACITY"
      "cs_pair (ui_channels s ! ci) = Some ch" "channel_inv ch"
      "cs_object (ui_channels s ! ci) = Some (cp_object ch)"
      "cs_endpoint_a (ui_channels s ! ci) = Some (cp_endpoint_a ch)"
      "cs_endpoint_b (ui_channels s ! ci) = Some (cp_endpoint_b ch)"
      "e = cp_endpoint_a ch \<or> e = cp_endpoint_b ch" by (rule locateE [OF b f(2)])
    from l(1) obtain pi where pi: "process_index s pid = Inr pi" "pi < MAX_USER_PROCESSES"
      "ui_processes s ! pi = Some p" "table_inv (proc_handles p)" by (rule process_refE [OF b])
    obtain rr ch1 p1 where rcv: "channel_receive ch (ui_registry s) p endpoint = (rr, ch1, p1)"
      by (metis prod_cases3)
    note inv = balancedD(1) [OF b] pi(4) l(7)
    let ?s1 = "put_channel (put_process s pi (Some p1)) ci ((ui_channels s ! ci)\<lparr>cs_pair := Some ch1\<rparr>)"
    have same: "balanced ?s1 []" if "ch1 = ch \<and> p1 = p"
      using balanced_transfer [OF b pi(2,3) l(5,6) l(7), of p] pi(4) that by simp
    have t: "balanced ?s1 [] \<and> (\<forall>rm. rr = Inr (Some rm) \<longrightarrow> receive_result rm \<noteq> Inl UE_Panic)"
    proof (cases "\<exists>rm. rr = Inr (Some rm)")
      case True
      then obtain rm where rm: "rr = Inr (Some rm)" by blast
      note i = channel_receive_inv [OF inv rcv [unfolded rm]]
      have "receive_result rm \<noteq> Inl UE_Panic"
        using channel_receive_some [OF inv rcv [unfolded rm]] received_no_panic by metis
      then show ?thesis using balanced_transfer [OF b pi(2,3) l(5,6) i(1,4-6,2,8) i(3)] rm by simp
    next
      case False
      then have "(\<exists>e. rr = Inl e) \<or> rr = Inr None" by (cases rr) auto
      then have "ch1 = ch \<and> p1 = p"
        using channel_receive_err [OF inv] channel_receive_none [OF inv] rcv by metis
      then show ?thesis using same False by blast
    qed
    then show ?thesis using op m f l(6) pi(1,3) rcv
      by (auto simp: try_receive_def Let_def split: sum.splits option.splits)
  qed
  then show "balanced s' []" "res \<noteq> Inl UE_Panic" by blast+
qed

lemma ipc_close_balanced:
  assumes b0: "balanced s0 []" and op: "ipc_close s0 pid h = (res, s')"
  shows "balanced s' []" and "res \<noteq> Inl UE_Panic"
    and "res = Inr () \<Longrightarrow> \<exists>s1. balanced s1 [] \<and> ui_channels s1 = ui_channels s0 \<and> collect_unreachable_channels s1 = (Inr (), s')"
proof -
  obtain m s where m: "process_mut s0 pid = (m, s)" by fastforce
  note pm = process_mut_balanced [OF b0 m]
  have b: "balanced s []" by (rule pm(1))
  have "balanced s' [] \<and> res \<noteq> Inl UE_Panic \<and>
    (res = Inr () \<longrightarrow> (\<exists>s1. balanced s1 [] \<and> ui_channels s1 = ui_channels s0 \<and> collect_unreachable_channels s1 = (Inr (), s')))"
  proof (cases "(\<exists>e. m = Inl e) \<or> (\<exists>e. locate_endpoint s pid h = Inl e)")
    case True
    then show ?thesis using op m pm(1,2) locate_no_panic [of s pid h]
      by (auto simp: ipc_close_def split: sum.splits)
  next
    case False
    then obtain p0 ce where f: "m = Inr p0" "locate_endpoint s pid h = Inr ce" by (metis old.sum.exhaust)
    then obtain p where p: "process_ref s pid = Inr p" by (auto simp: locate_endpoint_def split: sum.splits)
    from p obtain pi where pi: "process_index s pid = Inr pi" "pi < MAX_USER_PROCESSES"
      "ui_processes s ! pi = Some p" "table_inv (proc_handles p)" by (rule process_refE [OF b])
    obtain c t1 r1 where c: "table_close (proc_handles p) (ui_registry s) h = (c, t1, r1)" by (metis prod_cases3)
    let ?s = "put_registry (put_process s pi (Some (p\<lparr>proc_handles := t1\<rparr>))) r1"
    have bs: "balanced ?s []"
    proof (cases c)
      case (Inl e)
      then have "t1 = proc_handles p" "r1 = ui_registry s" using close_err_unchanged c by blast+
      then show ?thesis using balanced_process [OF b pi(2), of "Some p" "ui_registry s"] pi(3,4) balancedD(1) [OF b]
        by (simp add: process_ok_def)
    next
      case (Inr u)
      then have c': "table_close (proc_handles p) (ui_registry s) h = (Inr (), t1, r1)" using c by simp
      obtain cp where k: "table_cap (proc_handles p) h = Some cp" "reg_live (ui_registry s) (cap_object cp)"
        "t1 = clear_handle (proc_handles p) h" "reg_inv r1"
        "reg_refs (ui_registry s) = (reg_refs r1)(cap_object cp := reg_refs r1 (cap_object cp) + 1)"
        by (rule close_ok [OF balancedD(1) [OF b] pi(4) c'])
      note ch = clear_handle_ok [OF pi(4) k(1)]
      show ?thesis
      proof (rule balanced_process [OF b pi(2) _ k(4)])
        show "process_ok (Some (p\<lparr>proc_handles := t1\<rparr>))" using ch(1) k(3) by (simp add: process_ok_def)
        fix x
        have "held (proc_handles p) x + reg_refs r1 x = held t1 x + reg_refs (ui_registry s) x"
          using fun_cong [OF ch(3), of x] fun_cong [OF k(5), of x] k(3) by (auto split: if_splits)
        then show "reg_refs r1 x + process_refs (ui_processes s ! pi) x + count_list [] x =
            reg_refs (ui_registry s) x + process_refs (Some (p\<lparr>proc_handles := t1\<rparr>)) x + count_list [] x"
          unfolding process_refs_handles pi(3) by (simp add: process_refs_def)
      qed
    qed
    obtain s2 where "collect_unreachable_channels ?s = (Inr (), s2)" "balanced s2 []"
      using collect_balanced [OF bs] by metis
    then show ?thesis using op m f pi(1,3) c bs pm(4) by (auto simp: ipc_close_def split: sum.splits intro!: exI [of _ ?s])
  qed
  then show "balanced s' []" "res \<noteq> Inl UE_Panic"
    "res = Inr () \<Longrightarrow> \<exists>s1. balanced s1 [] \<and> ui_channels s1 = ui_channels s0 \<and> collect_unreachable_channels s1 = (Inr (), s')"
    by blast+
qed

lemma wait_many_wait_inv:
  assumes inv: "wait_inv q"
  shows "wait_inv (fst (snd (wait_many q w items)))"
proof -
  have reg: "wait_inv (fst (snd (register q w1 its)))" for w1 and its :: "item list"
    using register_cases [OF inv, of w1 its] wait_inv_cancel_waiter [OF inv]
    by (auto split: if_splits)
  show ?thesis
    by (auto simp: wait_many_def Let_def inv wait_inv_cancel_wait split: option.split prod.split sum.split)
      (metis reg fst_conv snd_conv wait_inv_cancel_wait)+
qed

lemma wait_one_wait_inv:
  assumes "wait_inv q" and "wait_one q w it = (res, q', w')"
  shows "wait_inv q'"
  using wait_many_wait_inv [OF assms(1), of w "[it]"] assms(2)
  by (auto simp: wait_one_def split: prod.splits)

lemma wait_readable_balanced:
  assumes b0: "balanced s0 []" and op: "wait_readable s0 pid endpoint wid ob = (res, s')"
  shows "balanced s' []" and "res \<noteq> Inl UE_Panic"
proof -
  obtain m s where m: "process_mut s0 pid = (m, s)" by fastforce
  note pm = process_mut_balanced [OF b0 m]
  have b: "balanced s []" by (rule pm(1))
  have "balanced s' [] \<and> res \<noteq> Inl UE_Panic"
  proof (cases "(\<exists>e. m = Inl e) \<or> (\<exists>e. locate_endpoint s pid endpoint = Inl e)")
    case True
    then show ?thesis using op m pm(1,2) locate_no_panic [of s pid endpoint]
      by (auto simp: wait_readable_def split: sum.splits)
  next
    case False
    then obtain p0 ci e where f: "m = Inr p0" "locate_endpoint s pid endpoint = Inr (ci, e)"
      by (metis old.sum.exhaust surj_pair)
    obtain p ch where l: "process_ref s pid = Inr p" "table_resolve (proc_handles p) (ui_registry s) endpoint = Inr e"
      "oid_kind e = KChannelEndpoint" "endpoint_slot s e = Some ci" "ci < CHANNEL_CAPACITY"
      "cs_pair (ui_channels s ! ci) = Some ch" "channel_inv ch"
      "cs_object (ui_channels s ! ci) = Some (cp_object ch)"
      "cs_endpoint_a (ui_channels s ! ci) = Some (cp_endpoint_a ch)"
      "cs_endpoint_b (ui_channels s ! ci) = Some (cp_endpoint_b ch)"
      "e = cp_endpoint_a ch \<or> e = cp_endpoint_b ch" by (rule locateE [OF b f(2)])
    show ?thesis
    proof (cases "channel_wait_item_for_process ch (ui_registry s) p endpoint SIGNALS_READABLE")
      case (Inl e)
      then show ?thesis using op m f l(1,6) b by (auto simp: wait_readable_def)
    next
      case (Inr it)
      obtain wr w1 w2 where w: "wait_one (ui_waiters s) (waiter_new wid) it = (wr, w1, w2)" by (metis prod_cases3)
      have "wait_inv w1" by (rule wait_one_wait_inv [OF balancedD(2) [OF b] w])
      then have "balanced (s\<lparr>ui_waiters := w1\<rparr>) []" "balanced (s\<lparr>ui_waiters := cancel_waiter w1 wid\<rparr>) []"
        using b by (simp_all add: balanced_waiters wait_inv_cancel_waiter)
      then show ?thesis using op m f l(1,6) Inr w
        by (auto simp: wait_readable_def Let_def split: sum.splits if_splits)
    qed
  qed
  then show "balanced s' []" "res \<noteq> Inl UE_Panic" by blast+
qed

lemma close_all_balanced:
  assumes b: "balanced s []" and pi: "pi < MAX_USER_PROCESSES" "ui_processes s ! pi = Some p"
  shows "balanced (put_registry (put_process s pi None)
    (snd (registry_release (snd (table_close_all (proc_handles p) (ui_registry s))) (proc_address_space p)))) []"
proof -
  let ?r = "ui_registry s" let ?t = "proc_handles p"
  let ?r1 = "snd (table_close_all ?t ?r)"
  have "process_refs (ui_processes s ! pi) x \<le> sum_list (map (\<lambda>p. process_refs p x) (ui_processes s))" for x
    using pi(1) balancedD(3) [OF b] by (intro member_le_sum_list) auto
  then have ge: "held ?t x + of_bool (proc_address_space p = x) \<le> reg_refs ?r x" for x
    using balancedD(7) [OF b, of x] pi(2) by (simp add: all_refs_def process_refs_def trans_le_add1)
  have "count_list (visit_objects ?t) x \<le> reg_refs ?r x" for x using ge [of x] by (simp add: held_def)
  from registry.release_list [OF balancedD(1) [OF b] this]
  have r1: "reg_inv ?r1" "reg_refs ?r1 x = reg_refs ?r x - held ?t x" for x
    by (simp_all add: close_all_eq held_def)
  have "0 < reg_refs ?r1 (proc_address_space p)" using r1(2) ge [of "proc_address_space p"] by simp
  then obtain r2 where r2: "registry_release ?r1 (proc_address_space p) = (Inr (), r2)" "reg_inv r2"
    "\<forall>x. reg_refs r2 x + of_bool (proc_address_space p = x) = reg_refs ?r1 x" by (rule release_one [OF r1(1)])
  have "balanced (put_registry (put_process s pi None) r2) []"
  proof (rule balanced_process [OF b pi(1) _ r2(2)])
    fix x
    show "reg_refs r2 x + process_refs (ui_processes s ! pi) x + count_list [] x =
        reg_refs ?r x + process_refs None x + count_list [] x"
      using r2(3) [rule_format, of x] r1(2) [of x] ge [of x] by (simp add: pi(2) process_refs_def)
  qed (simp add: process_ok_def)
  then show ?thesis using r2(1) by simp
qed

lemma ipc_exit_process_balanced:
  assumes b: "balanced s []" and op: "ipc_exit_process s pid = (res, s')"
  shows "balanced s' []" and "res \<noteq> Inl UE_Panic"
    and "res = Inr () \<Longrightarrow> \<exists>s1. balanced s1 [] \<and> ui_channels s1 = ui_channels s \<and> collect_unreachable_channels s1 = (Inr (), s')"
proof -
  have "balanced s' [] \<and> res \<noteq> Inl UE_Panic \<and>
    (res = Inr () \<longrightarrow> (\<exists>s1. balanced s1 [] \<and> ui_channels s1 = ui_channels s \<and> collect_unreachable_channels s1 = (Inr (), s')))"
  proof (cases "pid = BOOTSTRAP_PROCESS_ID \<or> (\<exists>e. process_index s pid = Inl e)")
    case True
    then show ?thesis using op b
      by (auto simp: ipc_exit_process_def process_index_def split: if_splits option.splits)
  next
    case False
    then obtain pi where pi: "process_index s pid = Inr pi" by (metis old.sum.exhaust)
    note i = process_index_bound [OF b pi]
    obtain p where p: "ui_processes s ! pi = Some p" using i(2) False by blast
    note bs = close_all_balanced [OF b i(1) p]
    let ?s1 = "put_registry (put_process s pi None)
      (snd (registry_release (snd (table_close_all (proc_handles p) (ui_registry s))) (proc_address_space p)))"
    from collect_balanced [OF bs] obtain s2 where "collect_unreachable_channels ?s1 = (Inr (), s2)" "balanced s2 []"
      by metis
    then show ?thesis using op False pi p bs by (auto simp: ipc_exit_process_def Let_def intro!: exI [of _ ?s1])
  qed
  then show "balanced s' []" "res \<noteq> Inl UE_Panic"
    "res = Inr () \<Longrightarrow> \<exists>s1. balanced s1 [] \<and> ui_channels s1 = ui_channels s \<and> collect_unreachable_channels s1 = (Inr (), s')"
    by blast+
qed

text \<open>The spawn cannot fail once the token is taken: the new table is empty and the object is live.\<close>

lemma install_in_new_table:
  assumes "reg_inv r" and "reg_live r (cap_object (tt_capability tok))"
  obtains h t2 where "install_token (table_new HANDLE_CAPACITY) r (Some tok) = (Inr h, t2, None)"
    and "table_inv t2" and "held t2 = (\<lambda>x. of_bool (cap_object (tt_capability tok) = x))"
    and "table_cap t2 = [h \<mapsto> tt_capability tok]"
proof -
  let ?c = "tt_capability tok"
  have "has_capacity (table_new HANDLE_CAPACITY) (Suc 0)"
    by (simp add: has_capacity_def table_new_def HANDLE_CAPACITY_def HANDLE_SLOT_EMPTY_def)
  then obtain h t2 where i: "install_capability (table_new HANDLE_CAPACITY) (cap_object ?c) (cap_rights ?c) = (Inr h, t2)"
    using install_capacity by blast
  have inv: "table_inv (table_new HANDLE_CAPACITY)" by (rule table_inv_new) (simp add: HANDLE_CAPACITY_def)
  note o = install_ok [OF inv i]
  have n: "held (table_new HANDLE_CAPACITY) x = 0" "table_cap (table_new HANDLE_CAPACITY) h' = None" for x h'
    by (simp_all add: held_def visit_objects_table_new)
      (auto simp: table_cap_def table_slot_def array_get_def table_new_def HANDLE_SLOT_EMPTY_def)
  have "install_token (table_new HANDLE_CAPACITY) r (Some tok) = (Inr h, t2, None)"
    using i validate_live_Inr [OF assms] by (simp add: install_token_def Let_def)
  moreover have "held t2 = (\<lambda>x. of_bool (cap_object ?c = x))" using o(4) n(1) by (auto simp: fun_eq_iff)
  moreover have "table_cap t2 = [h \<mapsto> ?c]" using o(3) n(2) by (auto simp: fun_eq_iff)
  ultimately show thesis using that o(1) by blast
qed

text \<open>The capability a handle names in a process slot, and what a successful spawn does to them: the
  parent's capability moves to an empty process slot, with the rights asked for.\<close>

definition process_caps :: "user_ipc \<Rightarrow> nat \<Rightarrow> handle \<Rightarrow> capability option" where
  "process_caps s i h = (case ui_processes s ! i of None \<Rightarrow> None | Some p \<Rightarrow> table_cap (proc_handles p) h)"

definition spawned :: "user_ipc \<Rightarrow> user_ipc \<Rightarrow> handle \<Rightarrow> rights \<Rightarrow> handle \<Rightarrow> bool" where
  "spawned s s' h rights h' \<longleftrightarrow>
     (\<exists>ci cp. 0 < ci \<and> ci < MAX_USER_PROCESSES \<and> ui_processes s ! ci = None \<and>
        process_caps s 0 h = Some cp \<and> rights_contains (cap_rights cp) RIGHT_TRANSFER \<and>
        rights_is_subset_of rights (cap_rights cp) \<and>
        process_caps s' = (process_caps s)(0 := (process_caps s 0)(h := None),
          ci := [h' \<mapsto> \<lparr>cap_object = cap_object cp, cap_rights = rights\<rparr>]) \<and>
        ui_channels s' = ui_channels s)"

lemma ipc_initialize_caps:
  assumes b: "balanced s []" and i: "ipc_initialize s = (res, s')"
  shows "process_caps s' = process_caps s"
proof -
  have n: "table_cap (table_new k) h = None" for k h
    by (auto simp: table_cap_def table_slot_def array_get_def table_new_def HANDLE_SLOT_EMPTY_def)
  have "ui_processes s' ! j = ui_processes s ! j \<or> ui_processes s ! j = None \<and>
      (\<exists>as. ui_processes s' ! j = Some (process_new HANDLE_CAPACITY BOOTSTRAP_PROCESS_ID as))" for j
    using i balancedD(3) [OF b] ipc_initialize_balanced(6) [OF b i, of j]
    by (cases "j = 0") (auto simp: ipc_initialize_def split: if_splits prod.splits sum.splits)
  then have "process_caps s' j h = process_caps s j h" for j h
    using n by (metis (no_types, lifting) option.case process.select_convs(3) process_caps_def process_new_def)
  then show ?thesis by (simp add: fun_eq_iff)
qed

lemma register_spawned_balanced:
  assumes b0: "balanced s0 []" and op: "register_spawned_process s0 parent child h rights = (res, s')"
  shows "balanced s' []" and "res \<noteq> Inl UE_Panic"
    and "case res of
        Inl e \<Rightarrow> process_caps s' = process_caps s0 \<and> ui_channels s' = ui_channels s0
      | Inr h' \<Rightarrow> spawned s0 s' h rights h'"
proof -
  obtain m s where m: "ipc_initialize s0 = (m, s)" by fastforce
  let ?caps = "case res of
        Inl e \<Rightarrow> process_caps s' = process_caps s0 \<and> ui_channels s' = ui_channels s0
      | Inr h' \<Rightarrow> spawned s0 s' h rights h'"
  note pm = ipc_initialize_balanced [OF b0 m]
  have b: "balanced s []" by (rule pm(1))
  note pc = ipc_initialize_caps [OF b0 m]
  have "balanced s' [] \<and> res \<noteq> Inl UE_Panic \<and> ?caps"
  proof (cases "(\<exists>e. m = Inl e) \<or> parent \<noteq> BOOTSTRAP_PROCESS_ID \<or> child \<le> BOOTSTRAP_PROCESS_ID \<or>
      (\<exists>i. process_index s child = Inr i) \<or> position (\<lambda>slot. slot = None) (drop 1 (ui_processes s)) = None \<or>
      (\<exists>e. locate_endpoint s parent h = Inl e)")
    case True
    then show ?thesis using op m pm(1,2,4) pc locate_no_panic [of s parent h]
      by (auto simp: register_spawned_process_def Let_def split: sum.splits if_splits option.splits)
  next
    case False
    then obtain u i ce e where f: "m = Inr u" "parent = BOOTSTRAP_PROCESS_ID" "\<not> child \<le> BOOTSTRAP_PROCESS_ID"
      "process_index s child = Inl e" "position (\<lambda>slot. slot = None) (drop 1 (ui_processes s)) = Some i"
      "locate_endpoint s parent h = Inr ce" by (metis old.sum.exhaust option.exhaust)
    have ci: "i + 1 < MAX_USER_PROCESSES" "ui_processes s ! (i + 1) = None"
      using position_SomeD(1,2) [OF f(5)] balancedD(3) [OF b] by auto
    obtain c r1 where c: "registry_create (ui_registry s) KAddressSpace = (c, r1)" by fastforce
    show ?thesis
    proof (cases c)
      case (Inl e')
      then have "r1 = ui_registry s" using create_err_unchanged c by blast
      then show ?thesis using op m f c Inl b pc pm(4) by (auto simp: register_spawned_process_def Let_def)
    next
      case (Inr as)
      have b1: "balanced (put_registry s r1) [as]" by (rule balanced_create [OF b c [unfolded Inr]])
      have inv1: "reg_inv r1" using balancedD(1) [OF b1] by simp
      obtain pp where pp: "ui_processes s ! 0 = Some pp" using pm(3) f(1) by auto
      have ti: "table_inv (proc_handles pp)" using balancedD(5) [OF b, of 0] pp by (simp add: process_ok_def)
      have pi: "process_index s parent = Inr 0" using f(2) by (simp add: process_index_def)
      obtain g t1 where g: "begin_move (proc_handles pp) r1 h rights = (g, t1)" by fastforce
      show ?thesis
      proof (cases g)
        case (Inl e')
        then have t1: "t1 = proc_handles pp" using begin_move_err_unchanged g by blast
        obtain r2 where "registry_release r1 as = (Inr (), r2)" "balanced (put_registry s r2) []"
          using balanced_release [OF b1] by (metis put_simps(1) put_norm(1))
        moreover have "put_process s 0 (Some pp) = s" by (simp add: put_process_def flip: pp)
        ultimately show ?thesis using op m f c Inr pi pp g Inl t1 pc pm(4)
          by (auto simp: register_spawned_process_def Let_def process_caps_def fun_eq_iff)
      next
        case (Inr tok)
        obtain cp where k: "table_cap (proc_handles pp) h = Some cp" "reg_live r1 (cap_object cp)"
          "rights_contains (cap_rights cp) RIGHT_TRANSFER" "rights_is_subset_of rights (cap_rights cp)"
          "tok = \<lparr>tt_capability = \<lparr>cap_object = cap_object cp, cap_rights = rights\<rparr>\<rparr>"
          "t1 = clear_handle (proc_handles pp) h" by (rule begin_move_ok [OF inv1 ti g [unfolded Inr]])
        note ch = clear_handle_ok [OF ti k(1)]
        obtain h' t2 where in': "install_token (table_new HANDLE_CAPACITY) r1 (Some tok) = (Inr h', t2, None)"
          "table_inv t2" "held t2 = (\<lambda>x. of_bool (cap_object (tt_capability tok) = x))"
          "table_cap t2 = [h' \<mapsto> tt_capability tok]" by (rule install_in_new_table [OF inv1, of tok]) (use k(2,5) in simp)
        let ?s1 = "put_registry (put_process s 0 (Some (pp\<lparr>proc_handles := t1\<rparr>))) r1"
        let ?child = "Some ((process_new HANDLE_CAPACITY child as)\<lparr>proc_handles := t2\<rparr>)"
        have "balanced (put_registry (put_process (put_registry s r1) 0 (Some (pp\<lparr>proc_handles := t1\<rparr>)))
            (ui_registry (put_registry s r1))) [cap_object cp, as]"
        proof (rule balanced_process [OF b1])
          show "process_ok (Some (pp\<lparr>proc_handles := t1\<rparr>))" using ch(1) k(6) by (simp add: process_ok_def)
          show "reg_inv (ui_registry (put_registry s r1))" using inv1 by simp
          fix x
          show "reg_refs (ui_registry (put_registry s r1)) x + process_refs (ui_processes (put_registry s r1) ! 0) x +
              count_list [as] x =
            reg_refs (ui_registry (put_registry s r1)) x + process_refs (Some (pp\<lparr>proc_handles := t1\<rparr>)) x +
              count_list [cap_object cp, as] x"
            using fun_cong [OF ch(3), of x] k(6) pp unfolding process_refs_handles
            by (cases "cap_object cp = x") (simp_all add: process_refs_def)
        qed simp
        then have b2: "balanced ?s1 [cap_object cp, as]" by (simp add: put_norm)
        have "balanced (put_registry (put_process ?s1 (i + 1) ?child) (ui_registry ?s1)) []"
        proof (rule balanced_process [OF b2 ci(1)])
          show "process_ok ?child" using in'(2) by (simp add: process_ok_def)
          show "reg_inv (ui_registry ?s1)" using inv1 by simp
          fix x
          show "reg_refs (ui_registry ?s1) x + process_refs (ui_processes ?s1 ! (i + 1)) x +
              count_list [cap_object cp, as] x =
            reg_refs (ui_registry ?s1) x + process_refs ?child x + count_list [] x"
            using ci(2) in'(3) k(5) unfolding process_refs_handles
            by (cases "cap_object cp = x"; cases "as = x") (simp_all add: process_new_def)
        qed
        then have "balanced (put_process ?s1 (i + 1) ?child) []" by (simp add: put_norm)
        moreover have "res = Inr h'" "s' = put_process ?s1 (i + 1) ?child"
          using op m f c \<open>c = Inr as\<close> pi pp g Inr in'(1)
          by (simp_all add: register_spawned_process_def Let_def process_new_def put_norm)
        moreover have "spawned s0 s' h rights h'"
          unfolding spawned_def
        proof (intro exI [of _ "i + 1"] exI [of _ cp] conjI)
          have len: "length (ui_processes s) = MAX_USER_PROCESSES" by (rule balancedD(3) [OF b])
          show "0 < i + 1" "i + 1 < MAX_USER_PROCESSES" using ci(1) by simp_all
          show "ui_processes s0 ! (i + 1) = None" using ci(2) pm(6) [of "i + 1"] by simp
          show "process_caps s0 0 h = Some cp" using k(1) pp unfolding pc [symmetric] by (simp add: process_caps_def)
          show "rights_contains (cap_rights cp) RIGHT_TRANSFER" "rights_is_subset_of rights (cap_rights cp)"
            by (fact k(3), fact k(4))
          have ns: "ui_processes s' ! j = (if j = i + 1 then ?child else if j = 0 then Some (pp\<lparr>proc_handles := t1\<rparr>)
              else ui_processes s ! j)" for j
            using \<open>s' = put_process ?s1 (i + 1) ?child\<close> ci(1) len by (simp add: nth_list_update)
          show "process_caps s' = (process_caps s0)(0 := (process_caps s0 0)(h := None),
              i + 1 := [h' \<mapsto> \<lparr>cap_object = cap_object cp, cap_rights = rights\<rparr>])"
            using ch(2) k(5,6) in'(4) pp ns unfolding pc [symmetric] process_caps_def fun_eq_iff by auto
          show "ui_channels s' = ui_channels s0" using \<open>s' = put_process ?s1 (i + 1) ?child\<close> pm(4) by simp
        qed
        ultimately show ?thesis by simp
      qed
    qed
  qed
  then show "balanced s' []" "res \<noteq> Inl UE_Panic" ?caps by blast+
qed

section \<open>Reachable channels\<close>




















lemma channel_slot_clear_empty [simp]:
  "cs_pair (channel_slot_clear sl) = None" "\<not> contains_endpoint (channel_slot_clear sl) ob"
  by (simp_all add: channel_slot_clear_def contains_endpoint_def)



section \<open>Runs of the manager\<close>

text \<open>The calls that change the manager, with the error each returns.\<close>

datatype ipc_call =
    CallCreatePair u32 | CallSend u32 handle channel_send_request | CallWait u32 handle u32 bool
  | CallReceive u32 handle | CallClose u32 handle | CallExit u32 | CallSpawn u32 u32 handle rights
  | CallCancel u32

fun ipc_apply :: "ipc_call \<Rightarrow> user_ipc \<Rightarrow> user_ipc_error option \<times> user_ipc" where
  "ipc_apply (CallCreatePair pid) s = map_prod error_of id (create_pair s pid)"
| "ipc_apply (CallSend pid h request) s = map_prod error_of id (ipc_send s pid h request)"
| "ipc_apply (CallWait pid h waiter b) s = map_prod error_of id (wait_readable s pid h waiter b)"
| "ipc_apply (CallReceive pid h) s = map_prod error_of id (try_receive s pid h)"
| "ipc_apply (CallClose pid h) s = map_prod error_of id (ipc_close s pid h)"
| "ipc_apply (CallExit pid) s = map_prod error_of id (ipc_exit_process s pid)"
| "ipc_apply (CallSpawn parent child h rights) s =
     map_prod error_of id (register_spawned_process s parent child h rights)"
| "ipc_apply (CallCancel waiter) s = (None, ipc_cancel_waiter s waiter)"

definition ipc_run :: "ipc_call list \<Rightarrow> user_ipc \<Rightarrow> user_ipc" where
  "ipc_run calls s = fold (\<lambda>c s. snd (ipc_apply c s)) calls s"

lemma error_of_panic: "error_of r = Some UE_Panic \<longleftrightarrow> r = Inl UE_Panic"
  by (auto simp: error_of_def split: sum.split)

lemma ipc_apply_inv:
  assumes "ipc_inv s"
  shows "ipc_inv (snd (ipc_apply c s))" and "fst (ipc_apply c s) \<noteq> Some UE_Panic"
proof -
  have b: "balanced s []" using assms by (simp add: ipc_inv_def)
  note bal = create_pair_balanced [OF b surjective_pairing] ipc_send_balanced [OF b surjective_pairing]
    wait_readable_balanced [OF b surjective_pairing] try_receive_balanced [OF b surjective_pairing]
    ipc_close_balanced [OF b surjective_pairing] ipc_exit_process_balanced [OF b surjective_pairing]
    register_spawned_balanced(1,2) [OF b surjective_pairing]
  have "balanced (ipc_cancel_waiter s w) []" for w
    unfolding ipc_cancel_waiter_def
    by (rule balanced_waiters [OF b wait_inv_cancel_waiter [OF balancedD(2) [OF b]]])
  then show "ipc_inv (snd (ipc_apply c s))" and "fst (ipc_apply c s) \<noteq> Some UE_Panic"
    using bal by (cases c; simp add: ipc_inv_def error_of_panic)+
qed

lemma user_ipc_new_inv: "ipc_inv user_ipc_new"
proof -
  have "reg_refs (registry_new OBJECT_CAPACITY) x = 0" for x
    by (auto simp: reg_refs_def object_slot_def array_get_def registry_new_def OBJECT_SLOT_EMPTY_def Let_def
        split: option.split)
  then show ?thesis
    by (auto simp: ipc_inv_def balanced_def user_ipc_new_def reg_inv_new wait_inv_new process_ok_def
        channel_slot_ok_def channel_slot_new_def all_refs_def sum_list_replicate slot_refs_def
        OBJECT_CAPACITY_def)
qed

interpretation ipc_runs: invariant_system "\<lambda>s. s = user_ipc_new" "\<lambda>s t. \<exists>c. t = snd (ipc_apply c s)" ipc_inv
  by unfold_locales (auto simp: user_ipc_new_inv ipc_apply_inv)

lemma ipc_run_reach: "(\<lambda>s t. \<exists>c. t = snd (ipc_apply c s))\<^sup>*\<^sup>* s (ipc_run calls s)"
proof (induction calls arbitrary: s)
  case (Cons c calls)
  have "(\<lambda>s t. \<exists>c. t = snd (ipc_apply c s))\<^sup>*\<^sup>* (snd (ipc_apply c s)) (ipc_run (c # calls) s)"
    using Cons [of "snd (ipc_apply c s)"] by (simp add: ipc_run_def)
  then show ?case by (rule converse_rtranclp_into_rtranclp [rotated]) blast
qed (simp add: ipc_run_def)

lemma ipc_run_inv: "ipc_inv (ipc_run calls user_ipc_new)"
  using refl ipc_run_reach by (rule ipc_runs.reachable_inv)

section \<open>Properties\<close>

text \<open>C1. In every state the channel manager can reach, the registry's reference count of every object
  is the number of references the processes' handles, the processes, the channel slots and the queued
  messages hold, and no call on such a state hits one of the \<open>expect\<close>s of the code.\<close>

theorem ipc_references_exact:
  "(\<forall>x. reg_refs (ui_registry (ipc_run calls user_ipc_new)) x = all_refs (ipc_run calls user_ipc_new) x) \<and>
   fst (ipc_apply c (ipc_run calls user_ipc_new)) \<noteq> Some UE_Panic"
  using ipc_run_inv [of calls] ipc_apply_inv(2) [OF ipc_run_inv, of c calls]
    balancedD(7) [of "ipc_run calls user_ipc_new" "[]"]
  by (simp add: ipc_inv_def)




text \<open>C16. A spawn either fails and leaves every process's capabilities and all channels as they were,
  or moves exactly one capability: the parent's handle is consumed, a process slot that was empty
  holds the same object under the new handle with the rights asked for, a subset of the parent's, and
  no other capability changes.\<close>

theorem spawn_moves_one_capability:
  "case register_spawned_process (ipc_run calls user_ipc_new) parent child h rights of
     (Inl e, s') \<Rightarrow> process_caps s' = process_caps (ipc_run calls user_ipc_new) \<and>
       ui_channels s' = ui_channels (ipc_run calls user_ipc_new)
   | (Inr h', s') \<Rightarrow> spawned (ipc_run calls user_ipc_new) s' h rights h'"
proof -
  have "balanced (ipc_run calls user_ipc_new) []" using ipc_run_inv by (simp add: ipc_inv_def)
  from register_spawned_balanced(3) [OF this surjective_pairing]
  show ?thesis by (simp add: case_prod_unfold)
qed

end
