(* ===== verification/Vmo.thy ===== *)
theory Vmo
  imports Handles
begin

text \<open>
  Virtual memory objects and address spaces (\<open>kernel/src/vmo.rs\<close>). A VMO is a bounded byte
  array, an address space a table of mappings from page-aligned user ranges to ranges of VMOs. The
  lemmas show that the mappings of an address space never overlap and stay in user space, that a
  mapping never has a right its handle lacked and only ever loses rights, that every mapping holds
  one reference of its VMO, and that the byte accesses are bounds checked and consistent.
\<close>

section \<open>Virtual memory objects\<close>

definition PAGE_SIZE :: u64 where "PAGE_SIZE = 4096"
definition MAX_VMO_BYTES :: nat where "MAX_VMO_BYTES = 16 * 1024"
definition MAX_MAPPINGS :: nat where "MAX_MAPPINGS = 32"
definition USER_ADDRESS_LIMIT :: u64 where "USER_ADDRESS_LIMIT = 0x0000800000000000"

datatype vmo_kind = Vmo_Anonymous | Vmo_Shared

datatype vmo_error =
    VE_InvalidObject | VE_InvalidSize | VE_InvalidAddress | VE_Unaligned | VE_OutOfBounds
  | VE_RightsMissing | VE_Overlap | VE_NotMapped | VE_MappingTableFull

record vmo =
  vmo_object :: object_id
  vmo_kind :: vmo_kind
  vmo_size :: u64
  vmo_backing :: "u8 list"

definition vmo_new :: "object_id \<Rightarrow> u64 \<Rightarrow> vmo_kind \<Rightarrow> (vmo_error, vmo) result" where
  "vmo_new ob sz kind =
     (if oid_kind ob \<noteq> KVmo then Inl VE_InvalidObject
      else if sz = 0 \<or> \<not> is_multiple_of sz PAGE_SIZE \<or> word_of_nat MAX_VMO_BYTES < sz
      then Inl VE_InvalidSize
      else Inr \<lparr>vmo_object = ob, vmo_kind = kind, vmo_size = sz,
               vmo_backing = replicate MAX_VMO_BYTES 0\<rparr>)"

definition vmo_anonymous :: "object_id \<Rightarrow> u64 \<Rightarrow> (vmo_error, vmo) result" where
  "vmo_anonymous ob sz = vmo_new ob sz Vmo_Anonymous"

definition vmo_shared :: "object_id \<Rightarrow> u64 \<Rightarrow> (vmo_error, vmo) result" where
  "vmo_shared ob sz = vmo_new ob sz Vmo_Shared"

text \<open>\<open>read\<close> fills a destination of \<open>n\<close> bytes; on an error the destination is untouched. The
  range check is shared with \<open>write\<close>.\<close>

definition vmo_range :: "vmo \<Rightarrow> u64 \<Rightarrow> nat \<Rightarrow> (vmo_error, nat) result" where
  "vmo_range v offset n =
     (if 2 ^ 64 \<le> n then Inl VE_OutOfBounds
      else case checked_add offset (word_of_nat n) of
        None \<Rightarrow> Inl VE_OutOfBounds
      | Some end \<Rightarrow> if vmo_size v < end then Inl VE_OutOfBounds else Inr (unat offset))"

definition vmo_read :: "vmo \<Rightarrow> u64 \<Rightarrow> nat \<Rightarrow> (vmo_error, u8 list) result" where
  "vmo_read v offset n =
     (case vmo_range v offset n of
        Inl e \<Rightarrow> Inl e
      | Inr start \<Rightarrow> Inr (take n (drop start (vmo_backing v))))"

definition vmo_write :: "vmo \<Rightarrow> u64 \<Rightarrow> u8 list \<Rightarrow> (vmo_error, unit) result \<times> vmo" where
  "vmo_write v offset source =
     (case vmo_range v offset (length source) of
        Inl e \<Rightarrow> (Inl e, v)
      | Inr start \<Rightarrow>
          (Inr (), v\<lparr>vmo_backing := take start (vmo_backing v) @ source @
             drop (start + length source) (vmo_backing v)\<rparr>))"

section \<open>Address spaces\<close>

record mapping =
  mp_vmo_object :: object_id
  mp_virtual_start :: u64
  mp_offset :: u64
  mp_length :: u64
  mp_rights :: rights
  mp_max_rights :: rights

record mapping_request =
  mr_virtual_start :: u64
  mr_offset :: u64
  mr_length :: u64
  mr_rights :: rights

record address_space =
  as_object :: object_id
  as_mappings :: "mapping option list"

definition address_space_new :: "object_id \<Rightarrow> address_space" where
  "address_space_new ob = \<lparr>as_object = ob, as_mappings = replicate MAX_MAPPINGS None\<rparr>"

definition validate_range :: "u64 \<Rightarrow> u64 \<Rightarrow> (vmo_error, unit) result" where
  "validate_range virtual_start len =
     (if virtual_start = 0 \<or> \<not> is_multiple_of virtual_start PAGE_SIZE \<or> len = 0 \<or> \<not> is_multiple_of len PAGE_SIZE
      then Inl VE_Unaligned
      else case checked_add virtual_start len of
        None \<Rightarrow> Inl VE_InvalidAddress
      | Some end \<Rightarrow> if USER_ADDRESS_LIMIT < end then Inl VE_InvalidAddress else Inr ())"

definition ranges_overlap :: "u64 \<Rightarrow> u64 \<Rightarrow> u64 \<Rightarrow> u64 \<Rightarrow> bool" where
  "ranges_overlap first_start first_length second_start second_length \<longleftrightarrow>
     first_start < saturating_add second_start second_length \<and>
     second_start < saturating_add first_start first_length"

definition as_map ::
  "address_space \<Rightarrow> object_registry \<Rightarrow> object_id \<Rightarrow> vmo \<Rightarrow> rights \<Rightarrow> mapping_request \<Rightarrow>
     (vmo_error, unit) result \<times> address_space \<times> object_registry" where
  "as_map a r vmo_capability v capability_rights req =
     (if vmo_capability \<noteq> vmo_object v \<or> oid_kind vmo_capability \<noteq> KVmo \<or>
         registry_validate r vmo_capability KVmo \<noteq> Inr ()
      then (Inl VE_InvalidObject, a, r)
      else if \<not> rights_contains capability_rights RIGHT_MAP \<or>
              \<not> rights_is_subset_of (mr_rights req) capability_rights
      then (Inl VE_RightsMissing, a, r)
      else case validate_range (mr_virtual_start req) (mr_length req) of
        Inl e \<Rightarrow> (Inl e, a, r)
      | Inr _ \<Rightarrow>
      if \<not> is_multiple_of (mr_offset req) PAGE_SIZE \<or> \<not> is_multiple_of (mr_length req) PAGE_SIZE \<or>
         (case checked_add (mr_offset req) (mr_length req) of
            None \<Rightarrow> True | Some end \<Rightarrow> vmo_size v < end)
      then (Inl VE_OutOfBounds, a, r)
      else if list_ex (\<lambda>m. case m of None \<Rightarrow> False | Some mp \<Rightarrow>
                ranges_overlap (mr_virtual_start req) (mr_length req)
                  (mp_virtual_start mp) (mp_length mp)) (as_mappings a)
      then (Inl VE_Overlap, a, r)
      else case position (\<lambda>m. m = None) (as_mappings a) of
        None \<Rightarrow> (Inl VE_MappingTableFull, a, r)
      | Some i \<Rightarrow>
          (case registry_retain r (vmo_object v) of
             (Inl e, r1) \<Rightarrow> (Inl VE_InvalidObject, a, r1)
           | (Inr _, r1) \<Rightarrow>
               (Inr (), a\<lparr>as_mappings := (as_mappings a)[i := Some
                  \<lparr>mp_vmo_object = vmo_object v, mp_virtual_start = mr_virtual_start req,
                   mp_offset = mr_offset req, mp_length = mr_length req,
                   mp_rights = mr_rights req, mp_max_rights = mr_rights req\<rparr>]\<rparr>, r1)))"

definition starts_at :: "u64 \<Rightarrow> mapping option \<Rightarrow> bool" where
  "starts_at virtual_start m \<longleftrightarrow>
     (case m of None \<Rightarrow> False | Some mp \<Rightarrow> mp_virtual_start mp = virtual_start)"

definition as_unmap ::
  "address_space \<Rightarrow> object_registry \<Rightarrow> u64 \<Rightarrow>
     (vmo_error, mapping) result \<times> address_space \<times> object_registry" where
  "as_unmap a r virtual_start =
     (case position (starts_at virtual_start) (as_mappings a) of
        None \<Rightarrow> (Inl VE_NotMapped, a, r)
      | Some i \<Rightarrow>
          (case as_mappings a ! i of
             None \<Rightarrow> (Inl VE_NotMapped, a, r)
           | Some mp \<Rightarrow>
               (case registry_release r (mp_vmo_object mp) of
                  (Inl e, r1) \<Rightarrow> (Inl VE_InvalidObject, a, r1)
                | (Inr _, r1) \<Rightarrow>
                    (Inr mp, a\<lparr>as_mappings := (as_mappings a)[i := None]\<rparr>, r1))))"

definition as_protect ::
  "address_space \<Rightarrow> u64 \<Rightarrow> rights \<Rightarrow> (vmo_error, unit) result \<times> address_space" where
  "as_protect a virtual_start rights =
     (case position (starts_at virtual_start) (as_mappings a) of
        None \<Rightarrow> (Inl VE_NotMapped, a)
      | Some i \<Rightarrow>
          (case as_mappings a ! i of
             None \<Rightarrow> (Inl VE_NotMapped, a)
           | Some mp \<Rightarrow>
               if \<not> rights_is_subset_of rights (mp_max_rights mp) then (Inl VE_RightsMissing, a)
               else (Inr (), a\<lparr>as_mappings := (as_mappings a)
                 [i := Some (mp\<lparr>mp_rights := rights, mp_max_rights := rights\<rparr>)]\<rparr>)))"

definition as_mapping :: "address_space \<Rightarrow> u64 \<Rightarrow> mapping option" where
  "as_mapping a virtual_start =
     (case position (starts_at virtual_start) (as_mappings a) of
        None \<Rightarrow> None | Some i \<Rightarrow> as_mappings a ! i)"

section \<open>The operations of a process\<close>

definition handle_to_vmo_error :: "handle_error \<Rightarrow> vmo_error" where
  "handle_to_vmo_error e = (case e of HE_RightsMissing \<Rightarrow> VE_RightsMissing | _ \<Rightarrow> VE_InvalidObject)"

definition owns_address_space :: "process \<Rightarrow> object_registry \<Rightarrow> address_space \<Rightarrow> bool" where
  "owns_address_space p r a \<longleftrightarrow> as_object a = proc_address_space p \<and>
     registry_validate r (proc_address_space p) KAddressSpace = Inr ()"

definition map_vmo ::
  "process \<Rightarrow> object_registry \<Rightarrow> address_space \<Rightarrow> handle \<Rightarrow> vmo \<Rightarrow> mapping_request \<Rightarrow>
     (vmo_error, unit) result \<times> address_space \<times> object_registry" where
  "map_vmo p r a h v req =
     (if \<not> owns_address_space p r a then (Inl VE_InvalidObject, a, r)
      else case table_require (proc_handles p) r h KVmo RIGHT_MAP of
        Inl e \<Rightarrow> (Inl (handle_to_vmo_error e), a, r)
      | Inr ob \<Rightarrow>
          (case table_rights (proc_handles p) r h of
             Inl e \<Rightarrow> (Inl (handle_to_vmo_error e), a, r)
           | Inr rights \<Rightarrow> as_map a r ob v rights req))"

definition unmap_vmo ::
  "process \<Rightarrow> object_registry \<Rightarrow> address_space \<Rightarrow> handle \<Rightarrow> u64 \<Rightarrow>
     (vmo_error, mapping) result \<times> address_space \<times> object_registry" where
  "unmap_vmo p r a h virtual_start =
     (if \<not> owns_address_space p r a then (Inl VE_InvalidObject, a, r)
      else case table_require (proc_handles p) r h KVmo RIGHT_MAP of
        Inl e \<Rightarrow> (Inl (handle_to_vmo_error e), a, r)
      | Inr ob \<Rightarrow>
          if (case as_mapping a virtual_start of None \<Rightarrow> True | Some mp \<Rightarrow> mp_vmo_object mp \<noteq> ob)
          then (Inl VE_InvalidObject, a, r)
          else as_unmap a r virtual_start)"

definition protect_vmo ::
  "process \<Rightarrow> object_registry \<Rightarrow> address_space \<Rightarrow> handle \<Rightarrow> u64 \<Rightarrow> rights \<Rightarrow>
     (vmo_error, unit) result \<times> address_space" where
  "protect_vmo p r a h virtual_start rights =
     (if \<not> owns_address_space p r a then (Inl VE_InvalidObject, a)
      else case table_require (proc_handles p) r h KVmo RIGHT_MAP of
        Inl e \<Rightarrow> (Inl (handle_to_vmo_error e), a)
      | Inr ob \<Rightarrow>
          if (case as_mapping a virtual_start of None \<Rightarrow> True | Some mp \<Rightarrow> mp_vmo_object mp \<noteq> ob)
          then (Inl VE_InvalidObject, a)
          else as_protect a virtual_start rights)"

definition read_vmo ::
  "process \<Rightarrow> object_registry \<Rightarrow> handle \<Rightarrow> vmo \<Rightarrow> u64 \<Rightarrow> nat \<Rightarrow> (vmo_error, u8 list) result" where
  "read_vmo p r h v offset n =
     (case table_require (proc_handles p) r h KVmo RIGHT_READ of
        Inl e \<Rightarrow> Inl (handle_to_vmo_error e)
      | Inr ob \<Rightarrow> if ob \<noteq> vmo_object v then Inl VE_InvalidObject else vmo_read v offset n)"

definition write_vmo ::
  "process \<Rightarrow> object_registry \<Rightarrow> handle \<Rightarrow> vmo \<Rightarrow> u64 \<Rightarrow> u8 list \<Rightarrow> (vmo_error, unit) result \<times> vmo" where
  "write_vmo p r h v offset source =
     (case table_require (proc_handles p) r h KVmo RIGHT_WRITE of
        Inl e \<Rightarrow> (Inl (handle_to_vmo_error e), v)
      | Inr ob \<Rightarrow> if ob \<noteq> vmo_object v then (Inl VE_InvalidObject, v) else vmo_write v offset source)"

section \<open>Address spaces keep their mappings apart\<close>

definition mappings_apart :: "mapping \<Rightarrow> mapping \<Rightarrow> bool" where
  "mappings_apart m n \<longleftrightarrow>
     unat (mp_virtual_start m) + unat (mp_length m) \<le> unat (mp_virtual_start n) \<or>
     unat (mp_virtual_start n) + unat (mp_length n) \<le> unat (mp_virtual_start m)"

definition mapping_ok :: "mapping \<Rightarrow> bool" where
  "mapping_ok m \<longleftrightarrow> validate_range (mp_virtual_start m) (mp_length m) = Inr () \<and>
     mp_rights m = mp_max_rights m"

definition as_inv :: "address_space \<Rightarrow> bool" where
  "as_inv a \<longleftrightarrow> length (as_mappings a) = MAX_MAPPINGS \<and>
     (\<forall>i < MAX_MAPPINGS. \<forall>m. as_mappings a ! i = Some m \<longrightarrow> mapping_ok m) \<and>
     (\<forall>i < MAX_MAPPINGS. \<forall>j < MAX_MAPPINGS. \<forall>m n. i \<noteq> j \<longrightarrow> as_mappings a ! i = Some m \<longrightarrow>
        as_mappings a ! j = Some n \<longrightarrow> mappings_apart m n)"

definition mapped :: "address_space \<Rightarrow> object_id \<Rightarrow> nat" where
  "mapped a ob = count_list (List.map_filter (map_option mp_vmo_object) (as_mappings a)) ob"

lemma validate_range_iff:
  "validate_range s n = Inr () \<longleftrightarrow> s \<noteq> 0 \<and> is_multiple_of s PAGE_SIZE \<and> n \<noteq> 0 \<and> is_multiple_of n PAGE_SIZE \<and>
     unat s + unat n \<le> 2 ^ 47"
proof (cases "checked_add s n")
  case None
  then have "2 ^ 64 \<le> unat s + unat n" by (simp add: checked_simps)
  then show ?thesis using None by (simp add: validate_range_def)
next
  case (Some e)
  then have e: "unat e = unat s + unat n" by (simp add: checked_simps)
  have "USER_ADDRESS_LIMIT < e \<longleftrightarrow> 2 ^ 47 < unat s + unat n"
    by (simp add: USER_ADDRESS_LIMIT_def word_less_nat_alt e)
  then show ?thesis using Some by (auto simp: validate_range_def)
qed

lemma ranges_overlap_iff:
  assumes "unat s + unat n < 2 ^ 64" and "unat s' + unat n' < 2 ^ 64"
  shows "ranges_overlap s n s' n' \<longleftrightarrow> unat s < unat s' + unat n' \<and> unat s' < unat s + unat n"
  using assms by (simp add: ranges_overlap_def word_less_nat_alt unat_saturating_add)

lemma mapping_okD:
  assumes "mapping_ok m"
  shows "unat (mp_virtual_start m) + unat (mp_length m) \<le> 2 ^ 47" and "0 < unat (mp_length m)"
    and "is_multiple_of (mp_virtual_start m) PAGE_SIZE" and "is_multiple_of (mp_length m) PAGE_SIZE"
  using assms by (auto simp: mapping_ok_def validate_range_iff unat_gt_0)

lemma as_inv_nth:
  assumes "as_inv a" and "i < length (as_mappings a)" and "as_mappings a ! i = Some m"
  shows "mapping_ok m"
  using assms by (auto simp: as_inv_def)

lemma as_inv_apart:
  assumes "as_inv a" and "i < length (as_mappings a)" and "j < length (as_mappings a)"
    and "i \<noteq> j" and "as_mappings a ! i = Some m" and "as_mappings a ! j = Some n"
  shows "mappings_apart m n"
proof -
  have "\<forall>i < MAX_MAPPINGS. \<forall>j < MAX_MAPPINGS. \<forall>m n. i \<noteq> j \<longrightarrow> as_mappings a ! i = Some m \<longrightarrow>
      as_mappings a ! j = Some n \<longrightarrow> mappings_apart m n"
    and "length (as_mappings a) = MAX_MAPPINGS" using assms(1) by (simp_all add: as_inv_def)
  then show ?thesis using assms(2-) by simp
qed

lemma as_inv_new: "as_inv (address_space_new ob)"
  by (simp add: as_inv_def address_space_new_def)

lemma apart_sym: "mappings_apart m n \<longleftrightarrow> mappings_apart n m"
  by (auto simp: mappings_apart_def)

text \<open>Writing one slot keeps the invariant when the new mapping is apart from all the others.\<close>

lemma as_inv_put:
  assumes inv: "as_inv a" and i: "i < length (as_mappings a)"
    and ok: "\<And>m. x = Some m \<Longrightarrow> mapping_ok m"
    and apart: "\<And>j m n. j < length (as_mappings a) \<Longrightarrow> j \<noteq> i \<Longrightarrow> x = Some m \<Longrightarrow>
      as_mappings a ! j = Some n \<Longrightarrow> mappings_apart m n"
  shows "as_inv (a\<lparr>as_mappings := (as_mappings a)[i := x]\<rparr>)"
proof -
  have len: "length (as_mappings a) = MAX_MAPPINGS" using inv by (simp add: as_inv_def)
  have "mappings_apart m n" if "j < MAX_MAPPINGS" "k < MAX_MAPPINGS" "j \<noteq> k"
    "(as_mappings a)[i := x] ! j = Some m" "(as_mappings a)[i := x] ! k = Some n" for j k m n
  proof -
    consider "j = i" | "k = i" | "j \<noteq> i" "k \<noteq> i" by blast
    then show ?thesis
    proof cases
      case 1
      then show ?thesis using that apart [of k m n] i len by (simp add: nth_list_update)
    next
      case 2
      then show ?thesis using that apart [of j n m] i len apart_sym by (simp add: nth_list_update)
    next
      case 3
      then show ?thesis using that as_inv_apart [OF inv, of j k m n] len by (simp add: nth_list_update)
    qed
  qed
  moreover have "mapping_ok m" if "j < MAX_MAPPINGS" "(as_mappings a)[i := x] ! j = Some m" for j m
    using that ok as_inv_nth [OF inv, of j m] i len by (cases "j = i") (auto simp: nth_list_update)
  ultimately show ?thesis using len unfolding as_inv_def by auto
qed

lemma mapped_put:
  assumes "i < length (as_mappings a)"
  shows "mapped (a\<lparr>as_mappings := (as_mappings a)[i := x]\<rparr>) ob +
      (if map_option mp_vmo_object (as_mappings a ! i) = Some ob then 1 else 0) =
    mapped a ob + (if map_option mp_vmo_object x = Some ob then 1 else 0)"
  using count_map_filter_update [OF assms, of "map_option mp_vmo_object" x ob]
  by (simp add: mapped_def)

definition request_mapping :: "vmo \<Rightarrow> mapping_request \<Rightarrow> mapping" where
  "request_mapping v req =
     \<lparr>mp_vmo_object = vmo_object v, mp_virtual_start = mr_virtual_start req,
      mp_offset = mr_offset req, mp_length = mr_length req,
      mp_rights = mr_rights req, mp_max_rights = mr_rights req\<rparr>"

lemma as_map_ok:
  assumes "as_map a r ob v rights req = (Inr (), a', r')"
  obtains i where "position (\<lambda>m. m = None) (as_mappings a) = Some i"
    and "a' = a\<lparr>as_mappings := (as_mappings a)[i := Some (request_mapping v req)]\<rparr>"
    and "registry_retain r (vmo_object v) = (Inr (), r')"
    and "rights_contains rights RIGHT_MAP" and "rights_is_subset_of (mr_rights req) rights"
    and "validate_range (mr_virtual_start req) (mr_length req) = Inr ()"
    and "unat (mr_offset req) + unat (mr_length req) \<le> unat (vmo_size v)"
    and "\<forall>m. Some m \<in> set (as_mappings a) \<longrightarrow> \<not> ranges_overlap (mr_virtual_start req) (mr_length req)
           (mp_virtual_start m) (mp_length m)"
    and "ob = vmo_object v"
proof -
  have off: "unat (mr_offset req) + unat (mr_length req) \<le> unat (vmo_size v)"
    using assms by (auto simp: as_map_def checked_simps word_less_nat_alt not_less
        split: if_splits sum.splits option.splits)
  have "\<forall>m. Some m \<in> set (as_mappings a) \<longrightarrow> \<not> ranges_overlap (mr_virtual_start req) (mr_length req)
           (mp_virtual_start m) (mp_length m)"
    using assms by (auto simp: as_map_def list_ex_iff split: if_splits sum.splits)
  with off assms that show ?thesis
    by (auto simp: as_map_def request_mapping_def split: if_splits sum.splits option.splits prod.splits)
qed

lemma as_map_err: "as_map a r ob v rights req = (Inl e, a', r') \<Longrightarrow> a' = a \<and> r' = r"
  by (auto simp: as_map_def split: if_splits sum.splits option.splits prod.splits
      dest: retain_err_unchanged)

lemma as_map_inv:
  assumes inv: "as_inv a" and "reg_inv r" and map: "as_map a r ob v rights req = (Inr (), a', r')"
  shows "as_inv a'" and "reg_inv r'" and "reg_refs r' x + mapped a x = reg_refs r x + mapped a' x"
proof -
  obtain i where i: "position (\<lambda>m. m = None) (as_mappings a) = Some i"
    and a': "a' = a\<lparr>as_mappings := (as_mappings a)[i := Some (request_mapping v req)]\<rparr>"
    and ret: "registry_retain r (vmo_object v) = (Inr (), r')"
    and val: "validate_range (mr_virtual_start req) (mr_length req) = Inr ()"
    and no: "\<forall>m. Some m \<in> set (as_mappings a) \<longrightarrow> \<not> ranges_overlap (mr_virtual_start req)
      (mr_length req) (mp_virtual_start m) (mp_length m)"
    using as_map_ok [OF map] by blast
  note il = position_SomeD(1,2) [OF i]
  have ok: "mapping_ok (request_mapping v req)" using val by (simp add: mapping_ok_def request_mapping_def)
  show "as_inv a'" unfolding a'
  proof (rule as_inv_put [OF inv il(1)])
    fix j m n assume j: "j < length (as_mappings a)" and m: "Some (request_mapping v req) = Some m"
      and n: "as_mappings a ! j = Some n"
    have "Some n \<in> set (as_mappings a)" using j n by (metis nth_mem)
    then have "\<not> ranges_overlap (mp_virtual_start m) (mp_length m) (mp_virtual_start n) (mp_length n)"
      using no m by (auto simp: request_mapping_def)
    then show "mappings_apart m n"
      using mapping_okD(1) [OF ok] mapping_okD(1) [OF as_inv_nth [OF inv j n]] m
      by (auto simp: ranges_overlap_iff mappings_apart_def not_less)
  qed (use ok in auto)
  show "reg_inv r'" by (rule retain_inv [OF assms(2) ret])
  show "reg_refs r' x + mapped a x = reg_refs r x + mapped a' x"
    using mapped_put [OF il(1), of "Some (request_mapping v req)" x] il(2)
      fun_cong [OF retain_refs [OF ret], of x]
    by (auto simp: a' request_mapping_def split: if_splits)
qed

lemma starts_at_unique:
  assumes inv: "as_inv a" and i: "i < length (as_mappings a)" "starts_at s (as_mappings a ! i)"
    and j: "j < length (as_mappings a)" "starts_at s (as_mappings a ! j)"
  shows "i = j"
proof (rule ccontr)
  assume "i \<noteq> j"
  obtain m n where m: "as_mappings a ! i = Some m" "mp_virtual_start m = s"
    and n: "as_mappings a ! j = Some n" "mp_virtual_start n = s"
    using i(2) j(2) by (auto simp: starts_at_def split: option.splits)
  have "mappings_apart m n" using as_inv_apart [OF inv i(1) j(1) \<open>i \<noteq> j\<close> m(1) n(1)] .
  then show False
    using mapping_okD(2) [OF as_inv_nth [OF inv i(1) m(1)]]
      mapping_okD(2) [OF as_inv_nth [OF inv j(1) n(1)]] m(2) n(2)
    by (auto simp: mappings_apart_def)
qed

lemma as_unmap_ok:
  assumes "as_unmap a r s = (Inr mp, a', r')"
  obtains i where "i < length (as_mappings a)" and "as_mappings a ! i = Some mp"
    and "mp_virtual_start mp = s" and "a' = a\<lparr>as_mappings := (as_mappings a)[i := None]\<rparr>"
    and "registry_release r (mp_vmo_object mp) = (Inr (), r')"
proof -
  obtain i where i: "position (starts_at s) (as_mappings a) = Some i"
    using assms by (auto simp: as_unmap_def split: option.splits)
  have "as_mappings a ! i = Some mp" "a' = a\<lparr>as_mappings := (as_mappings a)[i := None]\<rparr>"
    "registry_release r (mp_vmo_object mp) = (Inr (), r')"
    using assms i by (auto simp: as_unmap_def split: option.splits prod.splits sum.splits)
  then show ?thesis using that position_SomeD(1,2) [OF i] by (auto simp: starts_at_def)
qed

lemma as_unmap_err: "as_unmap a r s = (Inl e, a', r') \<Longrightarrow> a' = a \<and> r' = r"
  by (auto simp: as_unmap_def split: option.splits prod.splits sum.splits
      dest: release_err_unchanged)

lemma as_unmap_inv:
  assumes inv: "as_inv a" and "reg_inv r" and unmap: "as_unmap a r s = (Inr mp, a', r')"
  shows "as_inv a'" and "reg_inv r'" and "reg_refs r' x + mapped a x = reg_refs r x + mapped a' x"
proof -
  obtain i where i: "i < length (as_mappings a)" "as_mappings a ! i = Some mp"
    and a': "a' = a\<lparr>as_mappings := (as_mappings a)[i := None]\<rparr>"
    and rel: "registry_release r (mp_vmo_object mp) = (Inr (), r')"
    using as_unmap_ok [OF unmap] by blast
  show "as_inv a'" unfolding a' by (rule as_inv_put [OF inv i(1)]) auto
  show "reg_inv r'" by (rule release_inv [OF assms(2) rel])
  have "0 < reg_refs r (mp_vmo_object mp)"
    using release_ok_iff [OF assms(2), of "mp_vmo_object mp"] rel reg_refs_pos_iff [OF assms(2)] by simp
  then show "reg_refs r' x + mapped a x = reg_refs r x + mapped a' x"
    using mapped_put [OF i(1), of None x] i(2) fun_cong [OF release_refs [OF rel], of x]
    by (auto simp: a' split: if_splits)
qed

lemma as_protect_ok:
  assumes "as_protect a s rights = (Inr (), a')"
  obtains i mp where "i < length (as_mappings a)" and "as_mappings a ! i = Some mp"
    and "mp_virtual_start mp = s" and "rights_is_subset_of rights (mp_max_rights mp)"
    and "a' = a\<lparr>as_mappings := (as_mappings a)
           [i := Some (mp\<lparr>mp_rights := rights, mp_max_rights := rights\<rparr>)]\<rparr>"
proof -
  obtain i mp where i: "position (starts_at s) (as_mappings a) = Some i"
    and mp: "as_mappings a ! i = Some mp"
    using assms by (auto simp: as_protect_def split: option.splits)
  have "rights_is_subset_of rights (mp_max_rights mp)" "a' = a\<lparr>as_mappings := (as_mappings a)
      [i := Some (mp\<lparr>mp_rights := rights, mp_max_rights := rights\<rparr>)]\<rparr>"
    using assms i mp by (auto simp: as_protect_def split: if_splits)
  then show ?thesis using that [of i mp] mp position_SomeD(1,2) [OF i] by (simp add: starts_at_def)
qed

lemma as_protect_err: "as_protect a s rights = (Inl e, a') \<Longrightarrow> a' = a"
  by (auto simp: as_protect_def split: option.splits if_splits)

lemma as_protect_inv:
  assumes inv: "as_inv a" and "as_protect a s rights = (Inr (), a')"
  shows "as_inv a'" and "mapped a' x = mapped a x"
proof -
  obtain i mp where i: "i < length (as_mappings a)" "as_mappings a ! i = Some mp"
    and a': "a' = a\<lparr>as_mappings := (as_mappings a)
           [i := Some (mp\<lparr>mp_rights := rights, mp_max_rights := rights\<rparr>)]\<rparr>"
    using as_protect_ok [OF assms(2)] by blast
  have ok: "mapping_ok mp" by (rule as_inv_nth [OF inv i])
  show "as_inv a'" unfolding a'
  proof (rule as_inv_put [OF inv i(1)])
    fix j m n assume "j < length (as_mappings a)" "j \<noteq> i"
      "Some (mp\<lparr>mp_rights := rights, mp_max_rights := rights\<rparr>) = Some m" "as_mappings a ! j = Some n"
    then show "mappings_apart m n"
      using as_inv_apart [OF inv i(1), of j mp n] i(2) by (auto simp: mappings_apart_def)
  qed (use ok in \<open>auto simp: mapping_ok_def\<close>)
  show "mapped a' x = mapped a x"
    using mapped_put [OF i(1), of "Some (mp\<lparr>mp_rights := rights, mp_max_rights := rights\<rparr>)" x] i(2)
    by (auto simp: a' split: if_splits)
qed

section \<open>Runs of the mapping operations\<close>

inductive as_step ::
  "address_space \<times> object_registry \<Rightarrow> address_space \<times> object_registry \<Rightarrow> bool" where
  map: "map_vmo p r a h v req = (res, a', r') \<Longrightarrow> as_step (a, r) (a', r')"
| unmap: "unmap_vmo p r a h s = (res', a', r') \<Longrightarrow> as_step (a, r) (a', r')"
| protect: "protect_vmo p r a h s rights = (res'', a') \<Longrightarrow> as_step (a, r) (a', r)"

inductive_cases as_step_cases: "as_step (a, r) (a', r')"

definition as_state_inv :: "address_space \<times> object_registry \<Rightarrow> bool" where
  "as_state_inv ar \<longleftrightarrow> as_inv (fst ar) \<and> reg_inv (snd ar) \<and>
     (\<forall>x. mapped (fst ar) x \<le> reg_refs (snd ar) x)"

definition as_initial :: "address_space \<times> object_registry \<Rightarrow> bool" where
  "as_initial ar \<longleftrightarrow> (\<exists>ob. fst ar = address_space_new ob) \<and> reg_inv (snd ar)"

text \<open>What the process operations leave to the address space.\<close>

lemma map_vmo_cases:
  assumes "map_vmo p r a h v req = (res, a', r')"
  shows "(\<exists>e. res = Inl e) \<and> a' = a \<and> r' = r \<or>
    (\<exists>rights. table_rights (proc_handles p) r h = Inr rights \<and> res = Inr () \<and>
       as_map a r (vmo_object v) v rights req = (Inr (), a', r'))"
proof (cases "\<exists>ob rights. owns_address_space p r a \<and>
    table_require (proc_handles p) r h KVmo RIGHT_MAP = Inr ob \<and>
    table_rights (proc_handles p) r h = Inr rights")
  case True
  then obtain ob rights where o': "owns_address_space p r a"
    "table_require (proc_handles p) r h KVmo RIGHT_MAP = Inr ob"
    "table_rights (proc_handles p) r h = Inr rights" by blast
  then have m: "as_map a r ob v rights req = (res, a', r')" using assms by (simp add: map_vmo_def)
  show ?thesis
  proof (cases res)
    case (Inl e)
    then show ?thesis using as_map_err m by blast
  next
    case (Inr u)
    then have "as_map a r ob v rights req = (Inr (), a', r')" using m by simp
    moreover from this have "ob = vmo_object v" by (rule as_map_ok)
    ultimately show ?thesis using o'(3) Inr by simp
  qed
next
  case False
  then show ?thesis using assms by (auto simp: map_vmo_def split: if_splits sum.splits)
qed

lemma unmap_vmo_cases:
  assumes "unmap_vmo p r a h s = (res, a', r')"
  shows "(\<exists>e. res = Inl e) \<and> a' = a \<and> r' = r \<or>
    (\<exists>mp. res = Inr mp \<and> as_unmap a r s = (Inr mp, a', r'))"
  using assms as_unmap_err [of a r s _ a' r']
  by (auto simp: unmap_vmo_def split: if_splits sum.splits) (cases res; auto)+

lemma protect_vmo_cases:
  assumes "protect_vmo p r a h s rights = (res, a')"
  shows "(\<exists>e. res = Inl e) \<and> a' = a \<or> res = Inr () \<and> as_protect a s rights = (Inr (), a')"
  using assms as_protect_err [of a s rights _ a']
  by (auto simp: protect_vmo_def split: if_splits sum.splits) (cases res; auto)+

lemma as_step_inv:
  assumes "as_step ar ar'" and "as_state_inv ar"
  shows "as_state_inv ar'"
  using assms
proof (induction rule: as_step.induct)
  case (map p r a h v req res a' r')
  have "mapped a' x \<le> reg_refs r' x" if "reg_refs r' x + mapped a x = reg_refs r x + mapped a' x" for x
    using that map(2) unfolding as_state_inv_def by (metis add_le_cancel_left add.commute
        add_le_cancel_right fst_conv snd_conv)
  then show ?case
    using map_vmo_cases [OF map(1)] map(2) as_map_inv [of a r]
    by (auto simp: as_state_inv_def)
next
  case (unmap p r a h s res' a' r')
  have "mapped a' x \<le> reg_refs r' x" if "reg_refs r' x + mapped a x = reg_refs r x + mapped a' x" for x
    using that unmap(2) unfolding as_state_inv_def by (metis add_le_cancel_left add.commute
        add_le_cancel_right fst_conv snd_conv)
  then show ?case
    using unmap_vmo_cases [OF unmap(1)] unmap(2) as_unmap_inv [of a r]
    by (auto simp: as_state_inv_def)
next
  case (protect p r a h s rights res'' a')
  then show ?case using protect_vmo_cases [OF protect(1)] as_protect_inv [of a]
    by (auto simp: as_state_inv_def)
qed

interpretation address_spaces: invariant_system as_initial as_step as_state_inv
proof
  fix s assume "as_initial s"
  then obtain ob where "fst s = address_space_new ob" and "reg_inv (snd s)"
    by (auto simp: as_initial_def)
  moreover have "mapped (address_space_new ob) x = 0" for x
  proof -
    have "List.map_filter (map_option mp_vmo_object) (replicate n (None :: mapping option)) = []" for n
      by (induction n) (auto simp: List.map_filter_simps)
    then show ?thesis by (simp add: mapped_def address_space_new_def)
  qed
  ultimately show "as_state_inv s" by (simp add: as_state_inv_def as_inv_new)
next
  fix s t assume "as_step s t" and "as_state_inv s"
  then show "as_state_inv t" by (rule as_step_inv)
qed

section \<open>Properties\<close>

text \<open>C8. Mappings never overlap. In every address space reachable from a new one by the map, unmap
  and protect operations of any processes, on success or error, two mappings in different slots
  cover disjoint address ranges, every mapping is page aligned, non-empty and below the user
  address limit, and the registry holds at least one reference of a VMO per mapping of it.\<close>

theorem mappings_never_overlap:
  assumes "as_initial ar" and "as_step\<^sup>*\<^sup>* ar (a, r)"
    and "i < length (as_mappings a)" and "as_mappings a ! i = Some m"
  shows "is_multiple_of (mp_virtual_start m) PAGE_SIZE \<and> is_multiple_of (mp_length m) PAGE_SIZE \<and>
    0 < unat (mp_length m) \<and>
    unat (mp_virtual_start m) + unat (mp_length m) \<le> unat USER_ADDRESS_LIMIT \<and>
    0 < reg_refs r (mp_vmo_object m) \<and>
    (j < length (as_mappings a) \<and> j \<noteq> i \<and> as_mappings a ! j = Some n \<longrightarrow>
       unat (mp_virtual_start m) + unat (mp_length m) \<le> unat (mp_virtual_start n) \<or>
       unat (mp_virtual_start n) + unat (mp_length n) \<le> unat (mp_virtual_start m))"
proof -
  have "as_state_inv (a, r)" by (rule address_spaces.reachable_inv [OF assms(1,2)])
  then have inv: "as_inv a" and le: "mapped a (mp_vmo_object m) \<le> reg_refs r (mp_vmo_object m)"
    by (auto simp: as_state_inv_def)
  have "Some m \<in> set (as_mappings a)" using assms(3,4) by (metis nth_mem)
  then have "0 < mapped a (mp_vmo_object m)"
    unfolding mapped_def count_list_pos_iff set_map_filter by force
  moreover have "unat USER_ADDRESS_LIMIT = 2 ^ 47" by (simp add: USER_ADDRESS_LIMIT_def)
  moreover have "mappings_apart m n" if "j < length (as_mappings a)" "j \<noteq> i" "as_mappings a ! j = Some n"
    using as_inv_apart [OF inv assms(3) that(1) _ assms(4) that(3)] that(2) by auto
  ultimately show ?thesis
    using mapping_okD [OF as_inv_nth [OF inv assms(3,4)]] le by (auto simp: mappings_apart_def)
qed

text \<open>C32. A mapping never has more authority than its handle, and only loses rights. A successful
  \<open>map_vmo\<close> adds one mapping: its rights are among the rights of the handle used, which include
  the map right, its range lies inside the VMO, one reference of the VMO is taken, and all other
  mappings stay. \<open>protect_vmo\<close> can only shrink the rights of one mapping. A failed operation
  changes neither the address space nor the registry.\<close>

theorem mapping_rights_attenuate:
  assumes "as_inv a" and "reg_inv r"
  shows "(case map_vmo p r a h v req of
        (Inl e, a', r') \<Rightarrow> a' = a \<and> r' = r
      | (Inr _, a', r') \<Rightarrow> (\<exists>rights i. table_rights (proc_handles p) r h = Inr rights \<and>
          rights_contains rights RIGHT_MAP \<and> rights_is_subset_of (mr_rights req) rights \<and>
          unat (mr_offset req) + unat (mr_length req) \<le> unat (vmo_size v) \<and>
          i < length (as_mappings a) \<and> as_mappings a ! i = None \<and>
          as_mappings a' = (as_mappings a)[i := Some \<lparr>mp_vmo_object = vmo_object v,
            mp_virtual_start = mr_virtual_start req, mp_offset = mr_offset req,
            mp_length = mr_length req, mp_rights = mr_rights req,
            mp_max_rights = mr_rights req\<rparr>] \<and>
          reg_refs r' = (reg_refs r)(vmo_object v := reg_refs r (vmo_object v) + 1))) \<and>
    (case protect_vmo p r a h s new of
        (Inl e, a') \<Rightarrow> a' = a
      | (Inr _, a') \<Rightarrow> (\<exists>i m. i < length (as_mappings a) \<and> as_mappings a ! i = Some m \<and>
          mp_virtual_start m = s \<and> rights_is_subset_of new (mp_rights m) \<and>
          as_mappings a' = (as_mappings a)[i := Some (m\<lparr>mp_rights := new, mp_max_rights := new\<rparr>)]))"
proof (intro conjI)
  show "case map_vmo p r a h v req of
        (Inl e, a', r') \<Rightarrow> a' = a \<and> r' = r
      | (Inr _, a', r') \<Rightarrow> (\<exists>rights i. table_rights (proc_handles p) r h = Inr rights \<and>
          rights_contains rights RIGHT_MAP \<and> rights_is_subset_of (mr_rights req) rights \<and>
          unat (mr_offset req) + unat (mr_length req) \<le> unat (vmo_size v) \<and>
          i < length (as_mappings a) \<and> as_mappings a ! i = None \<and>
          as_mappings a' = (as_mappings a)[i := Some \<lparr>mp_vmo_object = vmo_object v,
            mp_virtual_start = mr_virtual_start req, mp_offset = mr_offset req,
            mp_length = mr_length req, mp_rights = mr_rights req,
            mp_max_rights = mr_rights req\<rparr>] \<and>
          reg_refs r' = (reg_refs r)(vmo_object v := reg_refs r (vmo_object v) + 1))"
  proof (cases "map_vmo p r a h v req")
    case (fields res a' r')
    show ?thesis
    proof (cases res)
      case (Inl e)
      then show ?thesis using fields map_vmo_cases [OF fields] by simp
    next
      case (Inr u)
      then obtain rights where rights: "table_rights (proc_handles p) r h = Inr rights"
        and m: "as_map a r (vmo_object v) v rights req = (Inr (), a', r')"
        using map_vmo_cases [OF fields] by auto
      from m obtain i where i: "position (\<lambda>m. m = None) (as_mappings a) = Some i"
        "a' = a\<lparr>as_mappings := (as_mappings a)[i := Some (request_mapping v req)]\<rparr>"
        "registry_retain r (vmo_object v) = (Inr (), r')"
        "rights_contains rights RIGHT_MAP" "rights_is_subset_of (mr_rights req) rights"
        "unat (mr_offset req) + unat (mr_length req) \<le> unat (vmo_size v)"
        by (rule as_map_ok)
      then show ?thesis
        using fields Inr rights position_SomeD(1,2) [OF i(1)] retain_refs [OF i(3)]
        by (auto simp: request_mapping_def)
    qed
  qed
  show "case protect_vmo p r a h s new of
        (Inl e, a') \<Rightarrow> a' = a
      | (Inr _, a') \<Rightarrow> (\<exists>i m. i < length (as_mappings a) \<and> as_mappings a ! i = Some m \<and>
          mp_virtual_start m = s \<and> rights_is_subset_of new (mp_rights m) \<and>
          as_mappings a' = (as_mappings a)[i := Some (m\<lparr>mp_rights := new, mp_max_rights := new\<rparr>)])"
  proof (cases "protect_vmo p r a h s new")
    case (Pair res a')
    show ?thesis
    proof (cases res)
      case (Inl e)
      then show ?thesis using Pair protect_vmo_cases [OF Pair] by simp
    next
      case (Inr u)
      then have "as_protect a s new = (Inr (), a')" using protect_vmo_cases [OF Pair] by simp
      then obtain i mp where "i < length (as_mappings a)" "as_mappings a ! i = Some mp"
        "mp_virtual_start mp = s" "rights_is_subset_of new (mp_max_rights mp)"
        "a' = a\<lparr>as_mappings := (as_mappings a)
           [i := Some (mp\<lparr>mp_rights := new, mp_max_rights := new\<rparr>)]\<rparr>"
        by (rule as_protect_ok)
      moreover from this have "mp_rights mp = mp_max_rights mp"
        using as_inv_nth [OF assms(1)] by (simp add: mapping_ok_def)
      ultimately show ?thesis using Pair Inr by auto
    qed
  qed
qed

definition sample_space :: object_id where
  "sample_space = \<lparr>oid_slot = 0, oid_generation = 1, oid_kind = KAddressSpace\<rparr>"

definition sample_memory :: vmo where
  "sample_memory = \<lparr>vmo_object = \<lparr>oid_slot = 1, oid_generation = 1, oid_kind = KVmo\<rparr>,
     vmo_kind = Vmo_Shared, vmo_size = 8192, vmo_backing = []\<rparr>"

definition sample_space_registry :: object_registry where
  "sample_space_registry = \<lparr>reg_slots = map (\<lambda>k. \<lparr>os_generation = 1, os_kind = Some k,
     os_references = 2, os_retired = False\<rparr>) [KAddressSpace, KVmo]\<rparr>"

definition sample_owner :: process where
  "sample_owner = \<lparr>proc_id = 1, proc_address_space = sample_space, proc_handles = \<lparr>ht_slots =
     [\<lparr>ts_generation = 1, ts_capability = Some \<lparr>cap_object = vmo_object sample_memory,
        cap_rights = RIGHT_MAP OR RIGHT_READ\<rparr>\<rparr>]\<rparr>, proc_state = PS_Running\<rparr>"

definition sample_request :: mapping_request where
  "sample_request =
     \<lparr>mr_virtual_start = 4096, mr_offset = 0, mr_length = 8192, mr_rights = RIGHT_READ\<rparr>"

definition sample_map :: "(vmo_error, unit) result \<times> address_space \<times> object_registry" where
  "sample_map = map_vmo sample_owner sample_space_registry (address_space_new sample_space)
     (handle_new 0 1) sample_memory sample_request"

lemma sample_map_runs:
  "fst sample_map = Inr ()"
  "hd (as_mappings (fst (snd sample_map))) = Some (request_mapping sample_memory sample_request)"
  by code_simp+

theorem mappings_never_overlap_witness:
  "case sample_map of (res, a', r') \<Rightarrow>
     (\<exists>m. as_mappings a' ! 0 = Some m \<and> 0 < reg_refs r' (mp_vmo_object m) \<and>
        is_multiple_of (mp_length m) PAGE_SIZE)"
proof -
  have reg: "reg_inv sample_space_registry"
    by (simp add: sample_space_registry_def reg_inv_def slot_ok_def)
  then have init: "as_initial (address_space_new sample_space, sample_space_registry)"
    by (auto simp: as_initial_def)
  obtain res a' r' where m: "sample_map = (res, a', r')" using prod_cases3 by blast
  have step: "as_step\<^sup>*\<^sup>* (address_space_new sample_space, sample_space_registry) (a', r')"
    by (rule r_into_rtranclp) (rule as_step.map [OF m [unfolded sample_map_def]])
  have "as_inv a'" using address_spaces.reachable_inv [OF init step] by (simp add: as_state_inv_def)
  then have len: "0 < length (as_mappings a')" by (simp add: as_inv_def MAX_MAPPINGS_def)
  then have "as_mappings a' ! 0 = Some (request_mapping sample_memory sample_request)"
    using sample_map_runs(2) unfolding m by (simp add: hd_conv_nth)
  from mappings_never_overlap [OF init step len this] this show ?thesis unfolding m by auto
qed

theorem mapping_rights_attenuate_witness:
  "as_inv (address_space_new \<lparr>oid_slot = 0, oid_generation = 1, oid_kind = KAddressSpace\<rparr>) \<and>
   reg_inv (registry_new 4) \<and>
   (case protect_vmo (process_new 4 1 \<lparr>oid_slot = 0, oid_generation = 1, oid_kind = KAddressSpace\<rparr>)
       (registry_new 4) (address_space_new \<lparr>oid_slot = 0, oid_generation = 1,
         oid_kind = KAddressSpace\<rparr>) (handle_new 0 1) 4096 RIGHT_READ of
      (res, a') \<Rightarrow> a' = address_space_new \<lparr>oid_slot = 0, oid_generation = 1, oid_kind = KAddressSpace\<rparr>)"
proof -
  let ?ob = "\<lparr>oid_slot = 0, oid_generation = 1, oid_kind = KAddressSpace\<rparr>"
  have new: "reg_inv (registry_new 4)" by (rule reg_inv_new) simp
  obtain res a' where e: "protect_vmo (process_new 4 1 ?ob) (registry_new 4) (address_space_new ?ob)
      (handle_new 0 1) 4096 RIGHT_READ = (res, a')" by fastforce
  have "fst (protect_vmo (process_new 4 1 ?ob) (registry_new 4) (address_space_new ?ob)
      (handle_new 0 1) 4096 RIGHT_READ) = Inl VE_InvalidObject" by code_simp
  then show ?thesis
    using mapping_rights_attenuate [OF as_inv_new [of ?ob] new, where p = "process_new 4 1 ?ob"
        and h = "handle_new 0 1" and s = 4096 and new = RIGHT_READ] e new as_inv_new [of ?ob]
    by auto
qed

definition vmo_inv :: "vmo \<Rightarrow> bool" where
  "vmo_inv v \<longleftrightarrow> length (vmo_backing v) = MAX_VMO_BYTES \<and> unat (vmo_size v) \<le> MAX_VMO_BYTES"

lemma vmo_range_iff: "vmo_range v offset n = Inr s \<longleftrightarrow> unat offset + n \<le> unat (vmo_size v) \<and> s = unat offset"
proof (cases "n < 2 ^ 64")
  case False
  moreover have "unat (vmo_size v) < 2 ^ 64" using unsigned_less [of "vmo_size v"] by simp
  ultimately show ?thesis by (simp add: vmo_range_def)
next
  case True
  then have n: "unat (word_of_nat n :: u64) = n" by (simp add: unat_word_of_nat)
  show ?thesis
  proof (cases "checked_add offset (word_of_nat n)")
    case None
    then have "2 ^ 64 \<le> unat offset + n" using n by (simp add: checked_simps)
    moreover have "unat (vmo_size v) < 2 ^ 64" using unsigned_less [of "vmo_size v"] by simp
    ultimately show ?thesis using None True by (simp add: vmo_range_def)
  next
    case (Some e)
    then have "unat e = unat offset + n" using n by (simp add: checked_simps)
    then show ?thesis using Some True by (auto simp: vmo_range_def word_less_nat_alt)
  qed
qed

lemma vmo_new_inv: "vmo_new ob sz kind = Inr v \<Longrightarrow> vmo_inv v"
  by (auto simp: vmo_new_def vmo_inv_def MAX_VMO_BYTES_def word_less_nat_alt not_less split: if_splits)

text \<open>C33. Bytes written to a VMO are the bytes read back. On a VMO made by the constructor and
  changed only by writes, a write succeeds exactly if its range lies inside the size, computed
  without wrap-around; a read of the same range then returns the bytes written, every read of a
  range apart from it returns what it returned before, and a refused write changes nothing.\<close>

theorem vmo_write_read:
  assumes "vmo_inv v"
  shows "case vmo_write v offset source of
      (Inl e, v') \<Rightarrow> unat (vmo_size v) < unat offset + length source \<and> v' = v
    | (Inr _, v') \<Rightarrow> unat offset + length source \<le> unat (vmo_size v) \<and> vmo_inv v' \<and>
        vmo_read v' offset (length source) = Inr source \<and>
        (unat o2 + n \<le> unat offset \<or> unat offset + length source \<le> unat o2 \<longrightarrow>
           vmo_read v' o2 n = vmo_read v o2 n)"
proof (cases "unat offset + length source \<le> unat (vmo_size v)")
  case False
  then obtain e where "vmo_range v offset (length source) = Inl e"
    using vmo_range_iff [of v offset "length source"] by (cases "vmo_range v offset (length source)") auto
  then show ?thesis using False by (simp add: vmo_write_def)
next
  case True
  define b where "b = vmo_backing v"
  define v' where "v' = v\<lparr>vmo_backing := take (unat offset) b @ source @
    drop (unat offset + length source) b\<rparr>"
  have w: "vmo_write v offset source = (Inr (), v')"
    using True vmo_range_iff [of v offset "length source" "unat offset"]
    by (simp add: vmo_write_def v'_def b_def)
  have len: "length b = MAX_VMO_BYTES" "unat (vmo_size v) \<le> length b"
    using assms by (auto simp: vmo_inv_def b_def)
  have rg: "vmo_range v' x k = vmo_range v x k" for x k
  proof -
    have "vmo_size v' = vmo_size v" by (simp add: v'_def)
    then show ?thesis by (auto simp: vmo_range_def split: option.split)
  qed
  have inv: "vmo_inv v'" using assms len True by (auto simp: vmo_inv_def v'_def)
  have same: "vmo_read v' offset (length source) = Inr source"
    using True vmo_range_iff [of v offset "length source" "unat offset"] len
    by (simp add: vmo_read_def rg) (simp add: v'_def)
  have other: "take n (drop (unat o2) (vmo_backing v')) = take n (drop (unat o2) b)"
    if "unat o2 + n \<le> unat (vmo_size v)"
      "unat o2 + n \<le> unat offset \<or> unat offset + length source \<le> unat o2"
  proof (rule nth_equalityI)
    have lb: "length (vmo_backing v') = length b" using len True by (simp add: v'_def)
    then show "length (take n (drop (unat o2) (vmo_backing v'))) = length (take n (drop (unat o2) b))"
      by simp
    fix i assume "i < length (take n (drop (unat o2) (vmo_backing v')))"
    then have "i < n" "unat o2 + i < length b" by (auto simp: lb)
    then show "take n (drop (unat o2) (vmo_backing v')) ! i = take n (drop (unat o2) b) ! i"
      using that len True by (auto simp: v'_def nth_append)
  qed
  have "vmo_read v' o2 n = vmo_read v o2 n"
    if "unat o2 + n \<le> unat offset \<or> unat offset + length source \<le> unat o2"
  proof (cases "vmo_range v o2 n")
    case (Inr k)
    then have "unat o2 + n \<le> unat (vmo_size v)" "k = unat o2"
      using vmo_range_iff [of v o2 n k] by simp_all
    then show ?thesis
      using Inr rg [of o2 n] other that by (simp add: vmo_read_def b_def)
  qed (simp add: vmo_read_def rg)
  then show ?thesis using w True inv same by simp
qed

theorem vmo_write_read_witness:
  "case vmo_new \<lparr>oid_slot = 0, oid_generation = 1, oid_kind = KVmo\<rparr> 4096 Vmo_Shared of
     Inl e \<Rightarrow> False
   | Inr v \<Rightarrow> (case vmo_write v 16 [7, 8] of (res, v') \<Rightarrow> vmo_read v' 16 (length [7 :: u8, 8]) = Inr [7, 8])"
proof -
  obtain v where v: "vmo_new \<lparr>oid_slot = 0, oid_generation = 1, oid_kind = KVmo\<rparr> 4096 Vmo_Shared = Inr v"
    and sz: "vmo_size v = 4096"
    by (simp add: vmo_new_def is_multiple_of_def PAGE_SIZE_def MAX_VMO_BYTES_def)
  show ?thesis
  proof (cases "vmo_write v 16 [7, 8]")
    case (Pair res v')
    then show ?thesis
      using vmo_write_read [OF vmo_new_inv [OF v], of 16 "[7, 8]"] v sz
      by (cases res) auto
  qed
qed

end
