(* ===== verification/Scheduler.thy ===== *)
theory Scheduler
  imports Prelude
begin

text \<open>
  The cooperative scheduler of the bootstrap user threads (\<open>kernel/src/scheduler.rs\<close>). Thread
  identities are slot numbers; the number of slots is the length of the slot array
  (\<open>BOOTSTRAP_USER_THREAD_COUNT\<close>, 32 or 64 by feature) and below \<open>NO_THREAD\<close>, so an identity
  fits the byte the code keeps it in. The lemmas show that at most the current thread is running,
  that joiners and join targets point at each other within one process, that a selection takes the
  next runnable thread in cyclic order, and that a runnable thread runs after a bounded number of
  yields.
\<close>

section \<open>States\<close>

definition SCHED_BLOCKED :: u32 where "SCHED_BLOCKED = 0"
definition SCHED_RUNNABLE :: u32 where "SCHED_RUNNABLE = 1"

definition wake_transition :: "u32 \<Rightarrow> u32 option" where
  "wake_transition state = (if state = SCHED_BLOCKED then Some SCHED_RUNNABLE else None)"

definition abs_diff :: "'a::len word \<Rightarrow> 'a word \<Rightarrow> 'a word" where
  "abs_diff a b = (if a < b then b - a else a - b)"

definition scheduler_dispatch_counts_are_fair :: "u32 \<Rightarrow> u32 \<Rightarrow> bool" where
  "scheduler_dispatch_counts_are_fair task_zero task_one \<longleftrightarrow>
     0 < task_zero \<and> 0 < task_one \<and> abs_diff task_zero task_one \<le> 1"

definition m3_initial_task_frame :: "nat \<Rightarrow> nat \<Rightarrow> u64 \<Rightarrow> u16 \<Rightarrow> u16 \<Rightarrow> u64 \<Rightarrow> u64 list" where
  "m3_initial_task_frame cpu task entry code_selector stack_selector stack_top =
     (replicate 20 0)
       [9 := word_of_nat cpu, 10 := word_of_nat task, 15 := entry, 16 := ucast code_selector,
        17 := 0x202, 18 := stack_top, 19 := ucast stack_selector]"

type_synonym thread = nat

definition NO_THREAD :: thread where "NO_THREAD = 255"
definition INIT_PROCESS_ID :: u32 where "INIT_PROCESS_ID = 1"

datatype user_thread_state =
    UT_Empty | UT_Runnable | UT_Running | UT_Sleeping u64 | UT_ChannelBlocked
  | UT_JoinBlocked thread | UT_Zombie u64

record thread_slot =
  th_state :: user_thread_state
  th_joiner :: thread
  th_detached :: bool
  th_owner :: u32

definition THREAD_SLOT_EMPTY :: thread_slot where
  "THREAD_SLOT_EMPTY =
     \<lparr>th_state = UT_Empty, th_joiner = NO_THREAD, th_detached = False, th_owner = INIT_PROCESS_ID\<rparr>"

datatype join_outcome = JO_Completed u64 | JO_Blocked | JO_Invalid

record exit_outcome =
  eo_next_thread :: "thread option"
  eo_woken_joiner :: "(thread \<times> u64) option"

record threads =
  us_slots :: "thread_slot list"
  us_current :: thread
  us_cursor :: thread

definition threads_new :: "nat \<Rightarrow> threads" where
  "threads_new n =
     \<lparr>us_slots = (replicate n THREAD_SLOT_EMPTY)[0 := THREAD_SLOT_EMPTY\<lparr>th_state := UT_Running\<rparr>],
      us_current = 0, us_cursor = 0\<rparr>"

definition thread_state :: "threads \<Rightarrow> thread \<Rightarrow> user_thread_state option" where
  "thread_state s t = map_option th_state (array_get (us_slots s) t)"

definition thread_owner :: "threads \<Rightarrow> thread \<Rightarrow> u32 option" where
  "thread_owner s t =
     (case array_get (us_slots s) t of
        None \<Rightarrow> None
      | Some sl \<Rightarrow> if th_state sl \<noteq> UT_Empty then Some (th_owner sl) else None)"

definition current_owner :: "threads \<Rightarrow> u32" where
  "current_owner s = th_owner (us_slots s ! us_current s)"

definition put_slot :: "threads \<Rightarrow> thread \<Rightarrow> thread_slot \<Rightarrow> threads" where
  "put_slot s t sl = s\<lparr>us_slots := (us_slots s)[t := sl]\<rparr>"

definition set_state :: "threads \<Rightarrow> thread \<Rightarrow> user_thread_state \<Rightarrow> threads" where
  "set_state s t st = put_slot s t ((us_slots s ! t)\<lparr>th_state := st\<rparr>)"

section \<open>Selection\<close>

definition wake_slot :: "u64 \<Rightarrow> thread_slot \<Rightarrow> thread_slot" where
  "wake_slot now sl =
     (case th_state sl of
        UT_Sleeping wake_at \<Rightarrow> if wake_at \<le> now then sl\<lparr>th_state := UT_Runnable\<rparr> else sl
      | _ \<Rightarrow> sl)"

definition wake_expired :: "threads \<Rightarrow> u64 \<Rightarrow> threads" where
  "wake_expired s now = s\<lparr>us_slots := map (wake_slot now) (us_slots s)\<rparr>"

definition run_thread :: "threads \<Rightarrow> thread \<Rightarrow> threads" where
  "run_thread s t = (set_state s t UT_Running)\<lparr>us_current := t, us_cursor := t\<rparr>"

text \<open>The loop over the offsets \<open>1..=COUNT\<close>.\<close>

fun scan_runnable :: "threads \<Rightarrow> nat list \<Rightarrow> thread option" where
  "scan_runnable s [] = None"
| "scan_runnable s (offset # rest) =
     (let i = (us_cursor s + offset) mod length (us_slots s)
      in if th_state (us_slots s ! i) = UT_Runnable then Some i else scan_runnable s rest)"

definition select_runnable_prefer ::
  "threads \<Rightarrow> u64 \<Rightarrow> thread option \<Rightarrow> thread option \<times> threads" where
  "select_runnable_prefer s now preferred =
     (let s1 = wake_expired s now;
          scan = (case scan_runnable s1 [1..<length (us_slots s1) + 1] of
                    None \<Rightarrow> (None, s1)
                  | Some i \<Rightarrow> (Some i, run_thread s1 i))
      in case preferred of
           None \<Rightarrow> scan
         | Some t \<Rightarrow>
             (case array_get (us_slots s1) t of
                None \<Rightarrow> (None, s1)
              | Some sl \<Rightarrow>
                  if th_state sl = UT_Runnable then (Some t, run_thread s1 t) else scan))"

definition select_runnable :: "threads \<Rightarrow> u64 \<Rightarrow> thread option \<times> threads" where
  "select_runnable s now = select_runnable_prefer s now None"

definition ticks_until_wake :: "threads \<Rightarrow> u64 \<Rightarrow> u64 option" where
  "ticks_until_wake s now =
     (let ts = List.map_filter (\<lambda>sl. case th_state sl of
                 UT_Sleeping wake_at \<Rightarrow> Some (saturating_sub wake_at now) | _ \<Rightarrow> None) (us_slots s)
      in if ts = [] then None else Some (Min (set ts)))"

section \<open>The operations\<close>

definition allocate_for_process :: "threads \<Rightarrow> u32 \<Rightarrow> thread option \<times> threads" where
  "allocate_for_process s owner =
     (case position (\<lambda>sl. th_state sl = UT_Empty) (drop 1 (us_slots s)) of
        None \<Rightarrow> (None, s)
      | Some i \<Rightarrow>
          (Some (i + 1),
           put_slot s (i + 1) (THREAD_SLOT_EMPTY\<lparr>th_state := UT_Runnable, th_owner := owner\<rparr>)))"

definition allocate :: "threads \<Rightarrow> thread option \<times> threads" where
  "allocate s = allocate_for_process s (current_owner s)"

definition owned_by :: "u32 \<Rightarrow> thread_slot \<Rightarrow> bool" where
  "owned_by owner sl \<longleftrightarrow> th_state sl \<noteq> UT_Empty \<and> th_owner sl = owner"

definition threads_exit_process :: "threads \<Rightarrow> u32 \<Rightarrow> u64 \<Rightarrow> thread option option \<times> threads" where
  "threads_exit_process s owner now =
     (if owner = INIT_PROCESS_ID then (None, s)
      else
        let s1 = s\<lparr>us_slots :=
              map (\<lambda>sl. if owned_by owner sl then THREAD_SLOT_EMPTY else sl) (us_slots s)\<rparr>
        in if \<not> list_ex (owned_by owner) (us_slots s) then (None, s1)
           else if th_state (us_slots s1 ! us_current s1) = UT_Empty
           then (let (next, s2) = select_runnable s1 now in (Some next, s2))
           else (Some (Some (us_current s1)), s1))"

definition discard_unstarted :: "threads \<Rightarrow> thread \<Rightarrow> bool \<times> threads" where
  "discard_unstarted s t =
     (case array_get (us_slots s) t of
        None \<Rightarrow> (False, s)
      | Some sl \<Rightarrow>
          if th_state sl \<noteq> UT_Runnable \<or> th_joiner sl \<noteq> NO_THREAD then (False, s)
          else (True, put_slot s t THREAD_SLOT_EMPTY))"

definition yield_current :: "threads \<Rightarrow> u64 \<Rightarrow> thread option \<times> threads" where
  "yield_current s now =
     (if th_state (us_slots s ! us_current s) \<noteq> UT_Running then (None, s)
      else select_runnable (set_state s (us_current s) UT_Runnable) now)"

definition sleep_current :: "threads \<Rightarrow> u64 \<Rightarrow> u64 \<Rightarrow> thread option \<times> threads" where
  "sleep_current s wake_at now =
     (if th_state (us_slots s ! us_current s) \<noteq> UT_Running then (None, s)
      else select_runnable (set_state s (us_current s) (UT_Sleeping wake_at)) now)"

definition block_current_on_channel :: "threads \<Rightarrow> bool \<times> threads" where
  "block_current_on_channel s =
     (if th_state (us_slots s ! us_current s) \<noteq> UT_Running then (False, s)
      else (True, set_state s (us_current s) UT_ChannelBlocked))"

definition wake_channel_waiter :: "threads \<Rightarrow> thread \<Rightarrow> bool \<times> threads" where
  "wake_channel_waiter s t =
     (case array_get (us_slots s) t of
        None \<Rightarrow> (False, s)
      | Some sl \<Rightarrow>
          if th_state sl \<noteq> UT_ChannelBlocked then (False, s)
          else (True, set_state s t UT_Runnable))"

definition abort_current_channel_wait :: "threads \<Rightarrow> bool \<times> threads" where
  "abort_current_channel_wait s =
     (if th_state (us_slots s ! us_current s) \<noteq> UT_ChannelBlocked then (False, s)
      else (True, set_state s (us_current s) UT_Running))"

definition join_current :: "threads \<Rightarrow> thread \<Rightarrow> u64 \<Rightarrow> join_outcome \<times> threads" where
  "join_current s target now =
     (let caller = us_current s in
      if target = 0 \<or> target = caller \<or> length (us_slots s) \<le> target then (JO_Invalid, s)
      else if th_owner (us_slots s ! target) \<noteq> th_owner (us_slots s ! caller) then (JO_Invalid, s)
      else
        let tsl = us_slots s ! target;
            busy = (th_detached tsl \<or> th_joiner tsl \<noteq> NO_THREAD);
            block =
              (if th_state (us_slots s ! caller) \<noteq> UT_Running then (JO_Invalid, s)
               else
                 let s1 = put_slot s target (tsl\<lparr>th_joiner := caller\<rparr>);
                     s2 = set_state s1 caller (UT_JoinBlocked target)
                 in (JO_Blocked, snd (select_runnable s2 now)))
        in (case th_state tsl of
              UT_Empty \<Rightarrow> (JO_Invalid, s)
            | UT_Zombie exit_code \<Rightarrow>
                if busy then (JO_Invalid, s)
                else (JO_Completed exit_code, put_slot s target THREAD_SLOT_EMPTY)
            | _ \<Rightarrow> if busy then (JO_Invalid, s) else block))"

definition abort_blocked_join :: "threads \<Rightarrow> thread option \<times> threads" where
  "abort_blocked_join s =
     (let current = us_current s in
      case th_state (us_slots s ! current) of
        UT_JoinBlocked target \<Rightarrow>
          let tsl = us_slots s ! target;
              s1 = (if th_joiner tsl = current then put_slot s target (tsl\<lparr>th_joiner := NO_THREAD\<rparr>)
                    else s)
          in (Some current, set_state s1 current UT_Running)
      | _ \<Rightarrow> (None, s))"

definition is_zombie :: "user_thread_state \<Rightarrow> bool" where
  "is_zombie st = (case st of UT_Zombie _ \<Rightarrow> True | _ \<Rightarrow> False)"

definition detach :: "threads \<Rightarrow> thread \<Rightarrow> bool \<times> threads" where
  "detach s target =
     (if target = 0 \<or> length (us_slots s) \<le> target then (False, s)
      else
        let sl = us_slots s ! target in
        if th_state sl = UT_Empty \<or> th_joiner sl \<noteq> NO_THREAD \<or> th_owner sl \<noteq> current_owner s
        then (False, s)
        else if is_zombie (th_state sl) then (True, put_slot s target THREAD_SLOT_EMPTY)
        else (True, put_slot s target (sl\<lparr>th_detached := True\<rparr>)))"

definition exit_current :: "threads \<Rightarrow> u64 \<Rightarrow> u64 \<Rightarrow> exit_outcome option \<times> threads" where
  "exit_current s exit_code now =
     (let current = us_current s;
          csl = us_slots s ! current;
          joiner = th_joiner csl
      in if current = 0 \<or> th_state csl \<noteq> UT_Running then (None, s)
         else
           let s1 =
                 (if joiner \<noteq> NO_THREAD then
                    (let s' = put_slot s current THREAD_SLOT_EMPTY
                     in if th_state (us_slots s' ! joiner) = UT_JoinBlocked current
                        then set_state s' joiner UT_Runnable else s')
                  else if th_detached csl then put_slot s current THREAD_SLOT_EMPTY
                  else set_state s current (UT_Zombie exit_code));
               preferred = (if joiner \<noteq> NO_THREAD then Some joiner else None);
               (next, s2) = select_runnable_prefer s1 now preferred
           in (Some \<lparr>eo_next_thread = next,
                     eo_woken_joiner =
                       (if joiner \<noteq> NO_THREAD then Some (joiner, exit_code) else None)\<rparr>,
               s2))"

section \<open>Joiners and their targets\<close>

text \<open>Every joiner entry points at a thread of the same process that is blocked on exactly this
  target, and every blocked joiner is recorded at its target, which is neither free nor finished
  nor detached. Free slots are in their initial state.\<close>

definition links_ok :: "thread_slot list \<Rightarrow> bool" where
  "links_ok sls \<longleftrightarrow> length sls \<le> NO_THREAD \<and>
     (\<forall>i < length sls. th_state (sls ! i) = UT_Empty \<longrightarrow> sls ! i = THREAD_SLOT_EMPTY) \<and>
     (\<forall>i < length sls. th_joiner (sls ! i) \<noteq> NO_THREAD \<longrightarrow>
        th_joiner (sls ! i) < length sls \<and>
        th_state (sls ! th_joiner (sls ! i)) = UT_JoinBlocked i \<and>
        th_owner (sls ! th_joiner (sls ! i)) = th_owner (sls ! i) \<and>
        \<not> is_zombie (th_state (sls ! i)) \<and> \<not> th_detached (sls ! i)) \<and>
     (\<forall>i < length sls. \<forall>t. th_state (sls ! i) = UT_JoinBlocked t \<longrightarrow>
        t < length sls \<and> t \<noteq> i \<and> th_joiner (sls ! t) = i)"

definition neutral :: "user_thread_state \<Rightarrow> bool" where
  "neutral st = (case st of UT_Runnable \<Rightarrow> True | UT_Running \<Rightarrow> True | UT_Sleeping _ \<Rightarrow> True
     | UT_ChannelBlocked \<Rightarrow> True | _ \<Rightarrow> False)"

definition neutral_step :: "thread_slot \<Rightarrow> thread_slot \<Rightarrow> bool" where
  "neutral_step a b \<longleftrightarrow> a = b \<or>
     neutral (th_state a) \<and> neutral (th_state b) \<and> b = a\<lparr>th_state := th_state b\<rparr>"

definition neutral_steps :: "thread_slot list \<Rightarrow> thread_slot list \<Rightarrow> bool" where
  "neutral_steps xs ys \<longleftrightarrow> length ys = length xs \<and> (\<forall>i < length xs. neutral_step (xs ! i) (ys ! i))"

lemma links_okD:
  assumes "links_ok sls" and "i < length sls"
  shows "th_state (sls ! i) = UT_Empty \<Longrightarrow> sls ! i = THREAD_SLOT_EMPTY"
    and "th_joiner (sls ! i) \<noteq> NO_THREAD \<Longrightarrow> th_joiner (sls ! i) < length sls \<and>
        th_state (sls ! th_joiner (sls ! i)) = UT_JoinBlocked i \<and>
        th_owner (sls ! th_joiner (sls ! i)) = th_owner (sls ! i) \<and>
        \<not> is_zombie (th_state (sls ! i)) \<and> \<not> th_detached (sls ! i)"
    and "th_state (sls ! i) = UT_JoinBlocked t \<Longrightarrow> t < length sls \<and> t \<noteq> i \<and> th_joiner (sls ! t) = i"
  using assms unfolding links_ok_def by blast+

lemma links_okI:
  assumes "length sls \<le> NO_THREAD"
    and "\<And>i. i < length sls \<Longrightarrow> th_state (sls ! i) = UT_Empty \<Longrightarrow> sls ! i = THREAD_SLOT_EMPTY"
    and "\<And>i. i < length sls \<Longrightarrow> th_joiner (sls ! i) \<noteq> NO_THREAD \<Longrightarrow> th_joiner (sls ! i) < length sls \<and>
        th_state (sls ! th_joiner (sls ! i)) = UT_JoinBlocked i \<and>
        th_owner (sls ! th_joiner (sls ! i)) = th_owner (sls ! i) \<and>
        \<not> is_zombie (th_state (sls ! i)) \<and> \<not> th_detached (sls ! i)"
    and "\<And>i t. i < length sls \<Longrightarrow> th_state (sls ! i) = UT_JoinBlocked t \<Longrightarrow>
        t < length sls \<and> t \<noteq> i \<and> th_joiner (sls ! t) = i"
  shows "links_ok sls"
  unfolding links_ok_def
proof (intro conjI [OF assms(1)] conjI allI impI)
  fix i assume i: "i < length sls"
  show "th_state (sls ! i) = UT_Empty \<Longrightarrow> sls ! i = THREAD_SLOT_EMPTY" by (rule assms(2) [OF i])
  assume j: "th_joiner (sls ! i) \<noteq> NO_THREAD"
  from assms(3) [OF i j] show "th_joiner (sls ! i) < length sls"
    "th_state (sls ! th_joiner (sls ! i)) = UT_JoinBlocked i"
    "th_owner (sls ! th_joiner (sls ! i)) = th_owner (sls ! i)"
    "\<not> is_zombie (th_state (sls ! i))" "\<not> th_detached (sls ! i)" by blast+
next
  fix i t assume i: "i < length sls" and b: "th_state (sls ! i) = UT_JoinBlocked t"
  from assms(4) [OF i b] show "t < length sls" "t \<noteq> i" "th_joiner (sls ! t) = i" by blast+
qed

lemma links_ok_length: "links_ok sls \<Longrightarrow> length sls \<le> NO_THREAD"
  by (simp add: links_ok_def)

text \<open>A blocked joiner's target belongs to the joiner's process and is alive.\<close>

lemma links_ok_target:
  assumes "links_ok sls" and "i < length sls" and "th_state (sls ! i) = UT_JoinBlocked t"
  shows "t < length sls" and "th_joiner (sls ! t) = i" and "th_owner (sls ! t) = th_owner (sls ! i)"
    and "th_state (sls ! t) \<noteq> UT_Empty" and "\<not> is_zombie (th_state (sls ! t))"
    and "\<not> th_detached (sls ! t)" and "t \<noteq> i"
proof -
  have t: "t < length sls" "th_joiner (sls ! t) = i" "t \<noteq> i" using links_okD(3) [OF assms] by auto
  have "i \<noteq> NO_THREAD" using assms(2) links_ok_length [OF assms(1)] by simp
  then have j: "th_joiner (sls ! t) \<noteq> NO_THREAD" using t by simp
  show "t < length sls" "th_joiner (sls ! t) = i" "t \<noteq> i" by (fact t)+
  show "th_owner (sls ! t) = th_owner (sls ! i)" "\<not> is_zombie (th_state (sls ! t))"
    "\<not> th_detached (sls ! t)" using links_okD(2) [OF assms(1) t(1) j] t(2) by auto
  show "th_state (sls ! t) \<noteq> UT_Empty"
    using links_okD(1) [OF assms(1) t(1)] j by (auto simp: THREAD_SLOT_EMPTY_def)
qed

lemma neutral_step_fields:
  assumes "neutral_step a b"
  shows "th_joiner b = th_joiner a" and "th_owner b = th_owner a" and "th_detached b = th_detached a"
    and "th_state b = UT_JoinBlocked t \<longleftrightarrow> th_state a = UT_JoinBlocked t"
    and "th_state b = UT_Empty \<longleftrightarrow> th_state a = UT_Empty"
    and "is_zombie (th_state b) \<longleftrightarrow> is_zombie (th_state a)"
    and "th_state b = UT_Empty \<Longrightarrow> b = a"
proof -
  have b: "b = a\<lparr>th_state := th_state b\<rparr>" using assms by (auto simp: neutral_step_def)
  show "th_joiner b = th_joiner a" "th_owner b = th_owner a" "th_detached b = th_detached a"
    by (subst b, simp)+
  show "th_state b = UT_JoinBlocked t \<longleftrightarrow> th_state a = UT_JoinBlocked t"
    "th_state b = UT_Empty \<longleftrightarrow> th_state a = UT_Empty"
    "is_zombie (th_state b) \<longleftrightarrow> is_zombie (th_state a)" "th_state b = UT_Empty \<Longrightarrow> b = a"
    using assms by (auto simp: neutral_step_def neutral_def is_zombie_def
        split: user_thread_state.splits)
qed

lemma neutral_step_refl [simp]: "neutral_step a a"
  by (simp add: neutral_step_def)

lemma neutral_step_iff:
  "neutral_step a b \<longleftrightarrow> a = b \<or> neutral (th_state a) \<and> (\<exists>st. neutral st \<and> b = a\<lparr>th_state := st\<rparr>)"
  by (auto simp: neutral_step_def)

lemma neutral_step_trans: "neutral_step a b \<Longrightarrow> neutral_step b c \<Longrightarrow> neutral_step a c"
  unfolding neutral_step_iff by auto

lemma neutral_steps_refl [simp]: "neutral_steps xs xs"
  by (simp add: neutral_steps_def)

lemma neutral_steps_trans: "neutral_steps xs ys \<Longrightarrow> neutral_steps ys zs \<Longrightarrow> neutral_steps xs zs"
  by (auto simp: neutral_steps_def intro: neutral_step_trans)

lemma neutral_steps_update:
  assumes "i < length xs" and "neutral (th_state (xs ! i))" and "neutral st"
  shows "neutral_steps xs (xs[i := (xs ! i)\<lparr>th_state := st\<rparr>])"
  using assms by (auto simp: neutral_steps_def nth_list_update neutral_step_def)

lemma links_ok_neutral:
  assumes ok: "links_ok xs" and st: "neutral_steps xs ys"
  shows "links_ok ys"
proof -
  have len: "length ys = length xs" using st by (simp add: neutral_steps_def)
  have ns: "neutral_step (xs ! i) (ys ! i)" if "i < length xs" for i
    using st that by (simp add: neutral_steps_def)
  note nf = neutral_step_fields [OF ns]
  show ?thesis
  proof (rule links_okI, unfold len)
    show "length xs \<le> NO_THREAD" by (rule links_ok_length [OF ok])
    fix i assume i: "i < length xs"
    show "th_state (ys ! i) = UT_Empty \<Longrightarrow> ys ! i = THREAD_SLOT_EMPTY"
      using nf(5,7) [OF i] links_okD(1) [OF ok i] by auto
    show "th_joiner (ys ! i) \<noteq> NO_THREAD \<Longrightarrow> th_joiner (ys ! i) < length xs \<and>
        th_state (ys ! th_joiner (ys ! i)) = UT_JoinBlocked i \<and>
        th_owner (ys ! th_joiner (ys ! i)) = th_owner (ys ! i) \<and>
        \<not> is_zombie (th_state (ys ! i)) \<and> \<not> th_detached (ys ! i)"
      using links_okD(2) [OF ok i] nf(1-3,6) [OF i] nf(2) [of "th_joiner (xs ! i)"]
        nf(4) [of "th_joiner (xs ! i)" i] by auto
    fix t
    assume "th_state (ys ! i) = UT_JoinBlocked t"
    then have "th_state (xs ! i) = UT_JoinBlocked t" using nf(4) [OF i] by simp
    from links_okD(3) [OF ok i this] show "t < length xs \<and> t \<noteq> i \<and> th_joiner (ys ! t) = i"
      using nf(1) [of t] by simp
  qed
qed

text \<open>A slot that neither joins nor is joined can be freed, allocated or marked detached.\<close>

lemma links_ok_put_loose:
  assumes ok: "links_ok xs" and k: "k < length xs" and nj: "th_joiner (xs ! k) = NO_THREAD"
    and nb: "\<And>t. th_state (xs ! k) \<noteq> UT_JoinBlocked t"
    and new: "th_joiner sl = NO_THREAD" "\<And>t. th_state sl \<noteq> UT_JoinBlocked t"
      "th_state sl = UT_Empty \<Longrightarrow> sl = THREAD_SLOT_EMPTY"
  shows "links_ok (xs[k := sl])"
proof (rule links_okI, unfold length_list_update)
  show "length xs \<le> NO_THREAD" by (rule links_ok_length [OF ok])
  fix i assume i: "i < length xs"
  show "th_state (xs[k := sl] ! i) = UT_Empty \<Longrightarrow> xs[k := sl] ! i = THREAD_SLOT_EMPTY"
    using links_okD(1) [OF ok i] new(3) i k by (auto simp: nth_list_update)
  have "th_joiner (xs ! i) \<noteq> k" if "th_joiner (xs ! i) \<noteq> NO_THREAD"
    using links_okD(2) [OF ok i that] nb by auto
  then show "th_joiner (xs[k := sl] ! i) \<noteq> NO_THREAD \<Longrightarrow> th_joiner (xs[k := sl] ! i) < length xs \<and>
      th_state (xs[k := sl] ! th_joiner (xs[k := sl] ! i)) = UT_JoinBlocked i \<and>
      th_owner (xs[k := sl] ! th_joiner (xs[k := sl] ! i)) = th_owner (xs[k := sl] ! i) \<and>
      \<not> is_zombie (th_state (xs[k := sl] ! i)) \<and> \<not> th_detached (xs[k := sl] ! i)"
    using links_okD(2) [OF ok i] new(1) k by (cases "i = k") (auto simp: nth_list_update)
  fix t
  have "t \<noteq> k" if "th_state (xs ! i) = UT_JoinBlocked t"
    using links_ok_target(2) [OF ok i that] nj i links_ok_length [OF ok] by auto
  then show "th_state (xs[k := sl] ! i) = UT_JoinBlocked t \<Longrightarrow>
      t < length xs \<and> t \<noteq> i \<and> th_joiner (xs[k := sl] ! t) = i"
    using links_okD(3) [OF ok i, of t] new(2) k by (cases "i = k") simp_all
qed

lemma links_ok_empty_loose:
  assumes "links_ok xs" and "k < length xs" and "th_state (xs ! k) = UT_Empty"
  shows "th_joiner (xs ! k) = NO_THREAD"
  using links_okD(1) [OF assms] by (simp add: THREAD_SLOT_EMPTY_def)

text \<open>A join and its abort or completion.\<close>

lemma links_ok_join:
  assumes ok: "links_ok xs" and c: "c < length xs" and t: "t < length xs" "t \<noteq> c"
    and cst: "neutral (th_state (xs ! c))" and tst: "th_state (xs ! t) \<noteq> UT_Empty"
      "\<not> is_zombie (th_state (xs ! t))" "\<not> th_detached (xs ! t)" "th_joiner (xs ! t) = NO_THREAD"
    and own: "th_owner (xs ! t) = th_owner (xs ! c)"
  shows "links_ok (xs[t := (xs ! t)\<lparr>th_joiner := c\<rparr>, c := (xs ! c)\<lparr>th_state := UT_JoinBlocked t\<rparr>])"
proof -
  define ys where
    "ys = xs[t := (xs ! t)\<lparr>th_joiner := c\<rparr>, c := (xs ! c)\<lparr>th_state := UT_JoinBlocked t\<rparr>]"
  have len: "length ys = length xs" by (simp add: ys_def)
  have y: "ys ! i = (if i = c then (xs ! c)\<lparr>th_state := UT_JoinBlocked t\<rparr>
      else if i = t then (xs ! t)\<lparr>th_joiner := c\<rparr> else xs ! i)" if "i < length xs" for i
    using that c t by (simp add: ys_def nth_list_update)
  have cNB: "th_state (xs ! c) \<noteq> UT_JoinBlocked u" "th_state (xs ! c) \<noteq> UT_Empty"
    "\<not> is_zombie (th_state (xs ! c))" for u
    using cst by (auto simp: neutral_def is_zombie_def split: user_thread_state.splits)
  have "links_ok ys"
  proof (rule links_okI)
    show "length ys \<le> NO_THREAD" using links_ok_length [OF ok] len by simp
    fix i assume "i < length ys"
    then have i: "i < length xs" using len by simp
    show "th_state (ys ! i) = UT_Empty \<Longrightarrow> ys ! i = THREAD_SLOT_EMPTY"
      using links_okD(1) [OF ok i] tst(1) y [OF i] by (auto split: if_splits)
    have jc: "th_joiner (xs ! i) \<noteq> c" if "th_joiner (xs ! i) \<noteq> NO_THREAD"
      using links_okD(2) [OF ok i that] cNB(1) by auto
    have cn: "c \<noteq> NO_THREAD" using c links_ok_length [OF ok] by simp
    show "th_joiner (ys ! i) \<noteq> NO_THREAD \<Longrightarrow> th_joiner (ys ! i) < length ys \<and>
        th_state (ys ! th_joiner (ys ! i)) = UT_JoinBlocked i \<and>
        th_owner (ys ! th_joiner (ys ! i)) = th_owner (ys ! i) \<and>
        \<not> is_zombie (th_state (ys ! i)) \<and> \<not> th_detached (ys ! i)"
    proof -
      assume nj: "th_joiner (ys ! i) \<noteq> NO_THREAD"
      show ?thesis
      proof (cases "i = t")
        case True
        then show ?thesis using y [OF t(1)] y [OF c] c t(2) tst own len by simp
      next
        case False
        then have eq: "th_joiner (ys ! i) = th_joiner (xs ! i)"
          "th_owner (ys ! i) = th_owner (xs ! i)" "th_detached (ys ! i) = th_detached (xs ! i)"
          using y [OF i] by simp_all
        let ?j = "th_joiner (xs ! i)"
        have j: "?j < length xs" "th_state (xs ! ?j) = UT_JoinBlocked i"
          "th_owner (xs ! ?j) = th_owner (xs ! i)" "\<not> is_zombie (th_state (xs ! i))"
          "\<not> th_detached (xs ! i)" "?j \<noteq> c"
          using links_okD(2) [OF ok i] jc nj eq(1) by auto
        have "th_state (ys ! ?j) = UT_JoinBlocked i" "th_owner (ys ! ?j) = th_owner (xs ! ?j)"
          using y [OF j(1)] j(2,6) by auto
        moreover have "\<not> is_zombie (th_state (ys ! i))"
          using y [OF i] j(4) False by (auto simp: is_zombie_def)
        ultimately show ?thesis using eq j len by simp
      qed
    qed
    fix u assume b: "th_state (ys ! i) = UT_JoinBlocked u"
    show "u < length ys \<and> u \<noteq> i \<and> th_joiner (ys ! u) = i"
    proof (cases "i = c")
      case True
      then show ?thesis using b y [OF i] y [OF t(1)] t len by simp
    next
      case False
      then have "th_state (xs ! i) = UT_JoinBlocked u" using b y [OF i] by (auto split: if_splits)
      then have u: "u < length xs" "u \<noteq> i" "th_joiner (xs ! u) = i" using links_okD(3) [OF ok i] by auto
      then have "u \<noteq> t" using tst(4) i links_ok_length [OF ok] by auto
      then show ?thesis using u y [OF u(1)] len by auto
    qed
  qed
  then show ?thesis by (simp add: ys_def)
qed

section \<open>The invariant\<close>

text \<open>\<open>idle\<close>: no thread is running. The scheduler's invariant allows the current thread only.\<close>

definition slot_bounds :: "threads \<Rightarrow> bool" where
  "slot_bounds s \<longleftrightarrow> us_current s < length (us_slots s) \<and> us_cursor s < length (us_slots s)"

definition idle :: "threads \<Rightarrow> bool" where
  "idle s \<longleftrightarrow> (\<forall>i < length (us_slots s). th_state (us_slots s ! i) \<noteq> UT_Running)"

definition only_current_runs :: "threads \<Rightarrow> bool" where
  "only_current_runs s \<longleftrightarrow>
     (\<forall>i < length (us_slots s). th_state (us_slots s ! i) = UT_Running \<longrightarrow> i = us_current s)"

definition sched_inv :: "threads \<Rightarrow> bool" where
  "sched_inv s \<longleftrightarrow> links_ok (us_slots s) \<and> slot_bounds s \<and> only_current_runs s"

lemma put_slot_simps [simp]:
  "us_slots (put_slot s t sl) = (us_slots s)[t := sl]"
  "us_current (put_slot s t sl) = us_current s"
  "us_cursor (put_slot s t sl) = us_cursor s"
  by (simp_all add: put_slot_def)

lemma set_state_simps [simp]:
  "us_slots (set_state s t st) = (us_slots s)[t := (us_slots s ! t)\<lparr>th_state := st\<rparr>]"
  "us_current (set_state s t st) = us_current s"
  "us_cursor (set_state s t st) = us_cursor s"
  by (simp_all add: set_state_def)

lemma wake_expired_simps [simp]:
  "us_slots (wake_expired s now) = map (wake_slot now) (us_slots s)"
  "us_current (wake_expired s now) = us_current s"
  "us_cursor (wake_expired s now) = us_cursor s"
  by (simp_all add: wake_expired_def)

lemma run_thread_simps [simp]:
  "us_slots (run_thread s t) = (us_slots s)[t := (us_slots s ! t)\<lparr>th_state := UT_Running\<rparr>]"
  "us_current (run_thread s t) = t"
  "us_cursor (run_thread s t) = t"
  by (simp_all add: run_thread_def)

lemma wake_slot_neutral: "neutral_step sl (wake_slot now sl)"
  by (auto simp: wake_slot_def neutral_step_def neutral_def split: user_thread_state.split)

lemma wake_slot_running [simp]: "th_state (wake_slot now sl) = UT_Running \<longleftrightarrow> th_state sl = UT_Running"
  by (auto simp: wake_slot_def split: user_thread_state.split)

lemma wake_slot_runnable:
  "th_state (wake_slot now sl) = UT_Runnable \<longleftrightarrow>
     th_state sl = UT_Runnable \<or> (\<exists>w. th_state sl = UT_Sleeping w \<and> w \<le> now)"
  by (auto simp: wake_slot_def split: user_thread_state.split)

lemma wake_expired_neutral: "neutral_steps (us_slots s) (us_slots (wake_expired s now))"
  by (simp add: neutral_steps_def wake_slot_neutral)

lemma wake_expired_idle: "idle (wake_expired s now) \<longleftrightarrow> idle s"
  by (simp add: idle_def)

lemma scan_runnable_Some:
  "scan_runnable s os = Some i \<Longrightarrow>
     \<exists>k < length os. i = (us_cursor s + os ! k) mod length (us_slots s) \<and>
       th_state (us_slots s ! i) = UT_Runnable \<and>
       (\<forall>j < k. th_state (us_slots s ! ((us_cursor s + os ! j) mod length (us_slots s))) \<noteq> UT_Runnable)"
proof (induction os)
  case (Cons a os)
  let ?i = "(us_cursor s + a) mod length (us_slots s)"
  show ?case
  proof (cases "th_state (us_slots s ! ?i) = UT_Runnable")
    case True
    then show ?thesis using Cons(2) by (intro exI [of _ 0]) (simp add: Let_def)
  next
    case False
    then obtain k where "k < length os" "i = (us_cursor s + os ! k) mod length (us_slots s)"
      "th_state (us_slots s ! i) = UT_Runnable"
      "\<forall>j < k. th_state (us_slots s ! ((us_cursor s + os ! j) mod length (us_slots s))) \<noteq> UT_Runnable"
      using Cons by (auto simp: Let_def)
    then show ?thesis using False
      by (intro exI [of _ "Suc k"]) (auto simp: less_Suc_eq_0_disj)
  qed
qed simp

lemma scan_runnable_None:
  "scan_runnable s os = None \<longleftrightarrow>
     (\<forall>k \<in> set os. th_state (us_slots s ! ((us_cursor s + k) mod length (us_slots s))) \<noteq> UT_Runnable)"
  by (induction os) (auto simp: Let_def)

text \<open>The cyclic distance from the cursor to a slot, between 1 and the number of slots.\<close>

definition distance :: "threads \<Rightarrow> thread \<Rightarrow> nat" where
  "distance s t = (if us_cursor s < t then t - us_cursor s else t + length (us_slots s) - us_cursor s)"

lemma distance_bounds:
  assumes "us_cursor s < length (us_slots s)" and "t < length (us_slots s)"
  shows "1 \<le> distance s t" and "distance s t \<le> length (us_slots s)"
    and "(us_cursor s + distance s t) mod length (us_slots s) = t"
  using assms by (auto simp: distance_def)

lemma distance_inverse:
  assumes "us_cursor s < length (us_slots s)" and "1 \<le> k" and "k \<le> length (us_slots s)"
  shows "distance s ((us_cursor s + k) mod length (us_slots s)) = k"
proof (cases "us_cursor s + k < length (us_slots s)")
  case True
  then show ?thesis using assms by (simp add: distance_def)
next
  case False
  then have "(us_cursor s + k) mod length (us_slots s) = us_cursor s + k - length (us_slots s)"
    using assms by (simp add: mod_if)
  then show ?thesis using assms False by (simp add: distance_def)
qed

lemma scan_all_None:
  assumes "us_cursor s < length (us_slots s)"
  shows "scan_runnable s [1..<length (us_slots s) + 1] = None \<longleftrightarrow>
     (\<forall>t < length (us_slots s). th_state (us_slots s ! t) \<noteq> UT_Runnable)"
proof
  assume a: "scan_runnable s [1..<length (us_slots s) + 1] = None"
  show "\<forall>t < length (us_slots s). th_state (us_slots s ! t) \<noteq> UT_Runnable"
  proof (intro allI impI)
    fix t assume t: "t < length (us_slots s)"
    have "distance s t \<in> set [1..<length (us_slots s) + 1]"
      using distance_bounds [OF assms t] by (simp del: upt_Suc)
    with a show "th_state (us_slots s ! t) \<noteq> UT_Runnable"
      unfolding scan_runnable_None using distance_bounds(3) [OF assms t] by metis
  qed
next
  assume "\<forall>t < length (us_slots s). th_state (us_slots s ! t) \<noteq> UT_Runnable"
  moreover have "(us_cursor s + k) mod length (us_slots s) < length (us_slots s)" for k
    using assms by (intro mod_less_divisor) auto
  ultimately show "scan_runnable s [1..<length (us_slots s) + 1] = None"
    unfolding scan_runnable_None by blast
qed

lemma scan_all_Some:
  assumes c: "us_cursor s < length (us_slots s)"
    and "scan_runnable s [1..<length (us_slots s) + 1] = Some i"
  shows "i < length (us_slots s)" and "th_state (us_slots s ! i) = UT_Runnable"
    and "\<forall>t < length (us_slots s). th_state (us_slots s ! t) = UT_Runnable \<longrightarrow> distance s i \<le> distance s t"
proof -
  let ?n = "length (us_slots s)"
  obtain k where k: "k < ?n" "i = (us_cursor s + [1..<?n + 1] ! k) mod ?n"
      "th_state (us_slots s ! i) = UT_Runnable"
      "\<forall>j < k. th_state (us_slots s ! ((us_cursor s + [1..<?n + 1] ! j) mod ?n)) \<noteq> UT_Runnable"
    using scan_runnable_Some [OF assms(2)] by (auto simp del: upt_Suc)
  have ik: "i = (us_cursor s + (k + 1)) mod ?n" using k(1,2) by (simp del: upt_Suc)
  show i: "i < ?n" using c unfolding ik by (intro mod_less_divisor) auto
  show "th_state (us_slots s ! i) = UT_Runnable" by (rule k(3))
  have di: "distance s i = k + 1" unfolding ik using k(1) by (intro distance_inverse [OF c]) simp_all
  show "\<forall>t < ?n. th_state (us_slots s ! t) = UT_Runnable \<longrightarrow> distance s i \<le> distance s t"
  proof (intro allI impI, rule ccontr)
    fix t assume t: "t < ?n" and r: "th_state (us_slots s ! t) = UT_Runnable"
      and l: "\<not> distance s i \<le> distance s t"
    note d = distance_bounds [OF c t]
    have lt: "distance s t - 1 < k" using l di d(1) by simp
    have "[1..<?n + 1] ! (distance s t - 1) = distance s t"
      using d(1,2) by (simp del: upt_Suc)
    then have "(us_cursor s + [1..<?n + 1] ! (distance s t - 1)) mod ?n = t" using d(3) by simp
    then show False using k(4) lt r by metis
  qed
qed

section \<open>What a selection does\<close>

text \<open>The state after \<open>select_runnable_prefer\<close>: the expired sleepers are woken, and one thread of
  the runnable ones, the preferred one if it is among them, runs and becomes the current one.\<close>

lemma select_prefer_cases:
  assumes c: "us_cursor s < length (us_slots s)" and p: "\<forall>t. pref = Some t \<longrightarrow> t < length (us_slots s)"
    and sel: "select_runnable_prefer s now pref = (next, s')"
  obtains (none) "next = None" and "s' = wake_expired s now"
      and "\<forall>t < length (us_slots s). th_state (us_slots (wake_expired s now) ! t) \<noteq> UT_Runnable"
  | (run) i where "next = Some i" and "s' = run_thread (wake_expired s now) i"
      and "i < length (us_slots s)" and "th_state (us_slots (wake_expired s now) ! i) = UT_Runnable"
      and "pref = Some i \<or> (\<forall>t < length (us_slots s).
             th_state (us_slots (wake_expired s now) ! t) = UT_Runnable \<longrightarrow> distance s i \<le> distance s t)"
      and "\<forall>t. pref = Some t \<longrightarrow> th_state (us_slots (wake_expired s now) ! t) = UT_Runnable \<longrightarrow> i = t"
proof -
  define w where "w = wake_expired s now"
  have w: "length (us_slots w) = length (us_slots s)" "us_cursor w = us_cursor s" by (simp_all add: w_def)
  have dw: "distance w t = distance s t" for t by (simp add: distance_def w)
  have cw: "us_cursor w < length (us_slots w)" using c w by simp
  show thesis
  proof (cases "\<exists>t. pref = Some t \<and> th_state (us_slots w ! t) = UT_Runnable")
    case True
    then obtain t where t: "pref = Some t" "th_state (us_slots w ! t) = UT_Runnable" by blast
    then have "t < length (us_slots w)" using p w by simp
    then have "next = Some t" "s' = run_thread w t"
      using sel t unfolding select_runnable_prefer_def w_def [symmetric] Let_def
      by (simp_all add: array_get_def)
    then show thesis using t p by (intro run [of t]) (simp_all add: w_def)
  next
    case False
    then have s: "(next, s') = (case scan_runnable w [1..<length (us_slots w) + 1] of
        None \<Rightarrow> (None, w) | Some i \<Rightarrow> (Some i, run_thread w i))"
      using sel p w unfolding select_runnable_prefer_def w_def [symmetric] Let_def
      by (auto simp: array_get_def simp del: upt_Suc split: option.splits)
    show thesis
    proof (cases "scan_runnable w [1..<length (us_slots w) + 1]")
      case None
      then have "next = None" "s' = w" using s by simp_all
      then show thesis using scan_all_None [OF cw] None w by (intro none) (simp_all add: w_def)
    next
      case (Some i)
      then have "next = Some i" "s' = run_thread w i" using s by simp_all
      then show thesis using scan_all_Some [OF cw Some] False unfolding dw w(1)
        by (intro run [of i]) (auto simp: w_def)
    qed
  qed
qed

lemma select_prefer_inv:
  assumes l: "links_ok (us_slots s)" and b: "slot_bounds s" and i: "idle s"
    and p: "\<forall>t. pref = Some t \<longrightarrow> t < length (us_slots s)"
    and sel: "select_runnable_prefer s now pref = (next, s')"
  shows "sched_inv s'" and "neutral_steps (us_slots s) (us_slots s')"
    and "next = None \<Longrightarrow> idle s'"
    and "next = Some t \<Longrightarrow> us_current s' = t \<and> th_state (us_slots s' ! t) = UT_Running"
proof -
  have c: "us_cursor s < length (us_slots s)" using b by (simp add: slot_bounds_def)
  define w where "w = wake_expired s now"
  have w: "neutral_steps (us_slots s) (us_slots w)" "idle w" "length (us_slots w) = length (us_slots s)"
    using wake_expired_neutral [of s now] i by (simp_all add: w_def wake_expired_idle)
  have "sched_inv s' \<and> neutral_steps (us_slots s) (us_slots s') \<and> (next = None \<longrightarrow> idle s') \<and>
      (next = Some t \<longrightarrow> us_current s' = t \<and> th_state (us_slots s' ! t) = UT_Running)"
    using c p sel
  proof (cases rule: select_prefer_cases)
    case none
    then show ?thesis using links_ok_neutral [OF l w(1)] w b
      by (simp add: w_def [symmetric] sched_inv_def slot_bounds_def only_current_runs_def idle_def)
        (simp add: w_def)
  next
    case (run i)
    have "neutral_steps (us_slots w) (us_slots s')"
      using run(2-4) w(3) neutral_steps_update [of i "us_slots w" UT_Running]
      unfolding w_def [symmetric] by (simp add: neutral_def)
    then have n: "neutral_steps (us_slots s) (us_slots s')" by (rule neutral_steps_trans [OF w(1)])
    have o: "only_current_runs s'" using run(2,3) w(2,3) unfolding w_def [symmetric]
      by (auto simp: only_current_runs_def idle_def nth_list_update)
    have "slot_bounds s'" using run(2,3) w(3) unfolding w_def [symmetric] by (simp add: slot_bounds_def)
    then show ?thesis using n o links_ok_neutral [OF l n] run(1-3) w(3) unfolding w_def [symmetric]
      by (simp add: sched_inv_def)
  qed
  then show "sched_inv s'" "neutral_steps (us_slots s) (us_slots s')" "next = None \<Longrightarrow> idle s'"
    "next = Some t \<Longrightarrow> us_current s' = t \<and> th_state (us_slots s' ! t) = UT_Running" by blast+
qed

lemmas select_inv =
  select_prefer_inv [where pref = None, folded select_runnable_def, simplified]

section \<open>Every operation keeps the invariant\<close>

lemma sched_inv_idle:
  assumes "sched_inv s" and "th_state (us_slots s ! us_current s) \<noteq> UT_Running"
  shows "idle s"
  using assms by (auto simp: sched_inv_def idle_def only_current_runs_def)

lemma set_current_idle:
  assumes "sched_inv s" and "st \<noteq> UT_Running"
  shows "idle (set_state s (us_current s) st)"
  unfolding idle_def
proof (intro allI impI)
  fix i assume "i < length (us_slots (set_state s (us_current s) st))"
  then show "th_state (us_slots (set_state s (us_current s) st) ! i) \<noteq> UT_Running"
    using assms by (cases "i = us_current s") (auto simp: sched_inv_def only_current_runs_def)
qed

lemma set_state_bounds [simp]: "slot_bounds (set_state s t st) \<longleftrightarrow> slot_bounds s"
  by (simp add: slot_bounds_def)

lemma put_slot_bounds [simp]: "slot_bounds (put_slot s t sl) \<longleftrightarrow> slot_bounds s"
  by (simp add: slot_bounds_def)

lemma set_state_links:
  assumes "links_ok (us_slots s)" and "t < length (us_slots s)"
    and "neutral (th_state (us_slots s ! t))" and "neutral st"
  shows "links_ok (us_slots (set_state s t st))"
  using links_ok_neutral [OF assms(1) neutral_steps_update [OF assms(2-4)]] by simp

lemma neutral_simps [simp]:
  "neutral UT_Runnable" "neutral UT_Running" "neutral (UT_Sleeping w)" "neutral UT_ChannelBlocked"
  "\<not> neutral UT_Empty" "\<not> neutral (UT_Zombie c)" "\<not> neutral (UT_JoinBlocked t)"
  by (simp_all add: neutral_def)

text \<open>Blocking the current thread and selecting another one.\<close>

lemma switch_current_inv:
  assumes inv: "sched_inv s" and run: "th_state (us_slots s ! us_current s) = UT_Running"
    and st: "neutral st" "st \<noteq> UT_Running"
    and sel: "select_runnable (set_state s (us_current s) st) now = (next, s')"
  shows "sched_inv s'"
proof -
  have l: "links_ok (us_slots s)" "us_current s < length (us_slots s)" "slot_bounds s"
    using inv by (simp_all add: sched_inv_def slot_bounds_def)
  show ?thesis
  proof (rule select_inv(1) [OF _ _ _ sel])
    show "links_ok (us_slots (set_state s (us_current s) st))"
      by (rule set_state_links [OF l(1,2)]) (simp_all add: run st)
    show "idle (set_state s (us_current s) st)" using inv st(2) by (rule set_current_idle)
  qed (use l in simp)
qed

lemma yield_current_inv: "sched_inv s \<Longrightarrow> sched_inv (snd (yield_current s now))"
  using switch_current_inv [of s UT_Runnable now]
  by (cases "select_runnable (set_state s (us_current s) UT_Runnable) now") (simp add: yield_current_def)

lemma sleep_current_inv: "sched_inv s \<Longrightarrow> sched_inv (snd (sleep_current s wake_at now))"
  using switch_current_inv [of s "UT_Sleeping wake_at" now]
  by (cases "select_runnable (set_state s (us_current s) (UT_Sleeping wake_at)) now")
    (simp add: sleep_current_def)

text \<open>Changing one neutral slot without a switch.\<close>

lemma set_state_inv:
  assumes inv: "sched_inv s" and t: "t < length (us_slots s)"
    and "neutral (th_state (us_slots s ! t))" and "neutral st"
    and "st = UT_Running \<Longrightarrow> t = us_current s"
  shows "sched_inv (set_state s t st)"
proof -
  have "links_ok (us_slots (set_state s t st))"
    using set_state_links [OF _ t assms(3,4)] inv by (simp add: sched_inv_def)
  then show ?thesis using inv assms(5) t
    by (auto simp: sched_inv_def only_current_runs_def nth_list_update)
qed

lemma block_current_inv: "sched_inv s \<Longrightarrow> sched_inv (snd (block_current_on_channel s))"
  using set_state_inv [of s "us_current s" UT_ChannelBlocked]
  by (simp add: block_current_on_channel_def sched_inv_def slot_bounds_def)

lemma wake_channel_inv: "sched_inv s \<Longrightarrow> sched_inv (snd (wake_channel_waiter s t))"
  using set_state_inv [of s t UT_Runnable]
  by (simp add: wake_channel_waiter_def array_get_def split: option.split)

lemma abort_channel_inv: "sched_inv s \<Longrightarrow> sched_inv (snd (abort_current_channel_wait s))"
  using set_state_inv [of s "us_current s" UT_Running]
  by (simp add: abort_current_channel_wait_def sched_inv_def slot_bounds_def)

text \<open>Replacing a slot that neither joins nor is joined.\<close>

lemma put_loose_inv:
  assumes inv: "sched_inv s" and t: "t < length (us_slots s)"
    and "th_joiner (us_slots s ! t) = NO_THREAD" "\<And>u. th_state (us_slots s ! t) \<noteq> UT_JoinBlocked u"
    and "th_joiner sl = NO_THREAD" "\<And>u. th_state sl \<noteq> UT_JoinBlocked u"
    and "th_state sl = UT_Empty \<Longrightarrow> sl = THREAD_SLOT_EMPTY"
    and "th_state sl = UT_Running \<Longrightarrow> th_state (us_slots s ! t) = UT_Running"
  shows "sched_inv (put_slot s t sl)"
proof -
  have "links_ok (us_slots (put_slot s t sl))"
    using links_ok_put_loose [OF _ t assms(3-7)] inv by (simp add: sched_inv_def)
  then show ?thesis using inv assms(8) t
    by (auto simp: sched_inv_def only_current_runs_def nth_list_update)
qed

lemma slot_empty_simps [simp]:
  "th_state THREAD_SLOT_EMPTY = UT_Empty" "th_joiner THREAD_SLOT_EMPTY = NO_THREAD"
  "th_detached THREAD_SLOT_EMPTY = False" "th_owner THREAD_SLOT_EMPTY = INIT_PROCESS_ID"
  by (simp_all add: THREAD_SLOT_EMPTY_def)

lemma allocate_for_process_ok:
  assumes "allocate_for_process s owner = (Some t, s')"
  shows "0 < t" and "t < length (us_slots s)" and "th_state (us_slots s ! t) = UT_Empty"
    and "s' = put_slot s t (THREAD_SLOT_EMPTY\<lparr>th_state := UT_Runnable, th_owner := owner\<rparr>)"
proof -
  obtain i where i: "position (\<lambda>sl. th_state sl = UT_Empty) (drop 1 (us_slots s)) = Some i" "t = i + 1"
    and "s' = put_slot s t (THREAD_SLOT_EMPTY\<lparr>th_state := UT_Runnable, th_owner := owner\<rparr>)"
    using assms by (auto simp: allocate_for_process_def split: option.splits)
  then show "s' = put_slot s t (THREAD_SLOT_EMPTY\<lparr>th_state := UT_Runnable, th_owner := owner\<rparr>)"
    by simp
  show "0 < t" "t < length (us_slots s)" "th_state (us_slots s ! t) = UT_Empty"
    using i(2) position_SomeD(1,2) [OF i(1)] by auto
qed

lemma allocate_for_process_none:
  assumes "allocate_for_process s owner = (None, s')"
  shows "s' = s" and "\<forall>t. 0 < t \<and> t < length (us_slots s) \<longrightarrow> th_state (us_slots s ! t) \<noteq> UT_Empty"
proof -
  have n: "position (\<lambda>sl. th_state sl = UT_Empty) (drop 1 (us_slots s)) = None \<and> s' = s"
    using assms by (auto simp: allocate_for_process_def split: option.splits)
  then show "s' = s" by (rule conjunct2)
  show "\<forall>t. 0 < t \<and> t < length (us_slots s) \<longrightarrow> th_state (us_slots s ! t) \<noteq> UT_Empty"
  proof (intro allI impI)
    fix t assume t: "0 < t \<and> t < length (us_slots s)"
    then have "us_slots s ! t = drop 1 (us_slots s) ! (t - 1)" by simp
    moreover have "drop 1 (us_slots s) ! (t - 1) \<in> set (drop 1 (us_slots s))"
      using t by (intro nth_mem) auto
    ultimately show "th_state (us_slots s ! t) \<noteq> UT_Empty"
      using conjunct1 [OF n, unfolded position_None_iff] by simp
  qed
qed

lemma allocate_for_process_inv:
  assumes inv: "sched_inv s"
  shows "sched_inv (snd (allocate_for_process s owner))"
proof (cases "allocate_for_process s owner")
  case (Pair r s')
  show ?thesis
  proof (cases r)
    case None
    then show ?thesis using Pair allocate_for_process_none [of s owner s'] inv by simp
  next
    case (Some t)
    note a = allocate_for_process_ok [OF Pair [unfolded Some]]
    have "th_joiner (us_slots s ! t) = NO_THREAD"
      using links_ok_empty_loose [OF _ a(2,3)] inv by (simp add: sched_inv_def)
    then show ?thesis using a(3,4) Pair
        put_loose_inv [OF inv a(2), of "THREAD_SLOT_EMPTY\<lparr>th_state := UT_Runnable, th_owner := owner\<rparr>"]
      by simp
  qed
qed

lemma discard_unstarted_inv: "sched_inv s \<Longrightarrow> sched_inv (snd (discard_unstarted s t))"
  using put_loose_inv [of s t THREAD_SLOT_EMPTY]
  by (simp add: discard_unstarted_def array_get_def split: option.split)

lemma links_ok_mark:
  assumes ok: "links_ok xs" and t: "t < length xs" "th_joiner (xs ! t) = NO_THREAD"
    and ne: "th_state (xs ! t) \<noteq> UT_Empty"
  shows "links_ok (xs[t := (xs ! t)\<lparr>th_detached := True\<rparr>])"
proof -
  define ys where "ys = xs[t := (xs ! t)\<lparr>th_detached := True\<rparr>]"
  have len: "length ys = length xs" by (simp add: ys_def)
  have same: "ys ! j = xs ! j" if "j \<noteq> t" for j using that by (simp add: ys_def)
  have f: "th_state (ys ! j) = th_state (xs ! j)" "th_joiner (ys ! j) = th_joiner (xs ! j)"
    "th_owner (ys ! j) = th_owner (xs ! j)" for j
    using t by (simp_all add: ys_def nth_list_update)
  have "links_ok ys"
  proof (rule links_okI, unfold len f)
    show "length xs \<le> NO_THREAD" by (rule links_ok_length [OF ok])
    fix i assume i: "i < length xs"
    note d = links_okD [OF ok i]
    show "th_state (xs ! i) = UT_Empty \<Longrightarrow> ys ! i = THREAD_SLOT_EMPTY"
      using d(1) ne same [of i] by (cases "i = t") simp_all
    show "th_joiner (xs ! i) \<noteq> NO_THREAD \<Longrightarrow> th_joiner (xs ! i) < length xs \<and>
        th_state (xs ! th_joiner (xs ! i)) = UT_JoinBlocked i \<and>
        th_owner (xs ! th_joiner (xs ! i)) = th_owner (xs ! i) \<and>
        \<not> is_zombie (th_state (xs ! i)) \<and> \<not> th_detached (ys ! i)"
      using d(2) t(2) same [of i] by (cases "i = t") simp_all
    fix u
    show "th_state (xs ! i) = UT_JoinBlocked u \<Longrightarrow> u < length xs \<and> u \<noteq> i \<and> th_joiner (xs ! u) = i"
      by (rule d(3))
  qed
  then show ?thesis by (simp add: ys_def)
qed

lemma detach_inv:
  assumes inv: "sched_inv s"
  shows "sched_inv (snd (detach s t))"
proof (cases "t = 0 \<or> length (us_slots s) \<le> t \<or> th_state (us_slots s ! t) = UT_Empty \<or>
    th_joiner (us_slots s ! t) \<noteq> NO_THREAD \<or> th_owner (us_slots s ! t) \<noteq> current_owner s")
  case True
  then show ?thesis using inv by (auto simp: detach_def Let_def)
next
  case False
  then have t: "t < length (us_slots s)" "th_joiner (us_slots s ! t) = NO_THREAD" by simp_all
  let ?sl = "us_slots s ! t"
  show ?thesis
  proof (cases "is_zombie (th_state ?sl)")
    case True
    then have "\<And>u. th_state ?sl \<noteq> UT_JoinBlocked u" by (auto simp: is_zombie_def)
    then show ?thesis using put_loose_inv [OF inv t, of THREAD_SLOT_EMPTY] True False
      by (simp add: detach_def Let_def)
  next
    case zf: False
    have "links_ok ((us_slots s)[t := ?sl\<lparr>th_detached := True\<rparr>])"
      using links_ok_mark [OF _ t] False inv by (simp add: sched_inv_def)
    then show ?thesis using inv False zf t
      by (auto simp: detach_def Let_def sched_inv_def only_current_runs_def nth_list_update)
  qed
qed

lemma links_ok_unjoin:
  assumes ok: "links_ok xs" and c: "c < length xs" and b: "th_state (xs ! c) = UT_JoinBlocked t"
    and st: "neutral st"
  shows "links_ok (xs[t := (xs ! t)\<lparr>th_joiner := NO_THREAD\<rparr>, c := (xs ! c)\<lparr>th_state := st\<rparr>])"
proof -
  define ys where "ys = xs[t := (xs ! t)\<lparr>th_joiner := NO_THREAD\<rparr>, c := (xs ! c)\<lparr>th_state := st\<rparr>]"
  note tg = links_ok_target [OF ok c b] and tc = links_ok_target(7) [OF ok c b]
  have y: "ys ! i = (if i = c then (xs ! c)\<lparr>th_state := st\<rparr>
      else if i = t then (xs ! t)\<lparr>th_joiner := NO_THREAD\<rparr> else xs ! i)" if "i < length xs" for i
    using that c tg(1) tc by (simp add: ys_def nth_list_update)
  have nst: "st \<noteq> UT_Empty" "\<And>u. st \<noteq> UT_JoinBlocked u" "\<not> is_zombie st"
    using st by (auto simp: neutral_def is_zombie_def split: user_thread_state.splits)
  have len: "length ys = length xs" by (simp add: ys_def)
  have "links_ok ys"
  proof (rule links_okI, unfold len)
    show "length xs \<le> NO_THREAD" by (rule links_ok_length [OF ok])
    fix i assume i: "i < length xs"
    show "th_state (ys ! i) = UT_Empty \<Longrightarrow> ys ! i = THREAD_SLOT_EMPTY"
      using links_okD(1) [OF ok i] tg(4) nst(1) y [OF i] by (auto split: if_splits)
    show "th_joiner (ys ! i) \<noteq> NO_THREAD \<Longrightarrow> th_joiner (ys ! i) < length xs \<and>
        th_state (ys ! th_joiner (ys ! i)) = UT_JoinBlocked i \<and>
        th_owner (ys ! th_joiner (ys ! i)) = th_owner (ys ! i) \<and>
        \<not> is_zombie (th_state (ys ! i)) \<and> \<not> th_detached (ys ! i)"
    proof -
      assume nj: "th_joiner (ys ! i) \<noteq> NO_THREAD"
      have it: "i \<noteq> t" and j: "th_joiner (ys ! i) = th_joiner (xs ! i)"
        "th_owner (ys ! i) = th_owner (xs ! i)" "th_detached (ys ! i) = th_detached (xs ! i)"
        using nj y [OF i] y [OF tg(1)] tc by (auto split: if_splits)
      note d = links_okD(2) [OF ok i nj [unfolded j]]
      have "th_joiner (xs ! i) \<noteq> c" using d b it by auto
      moreover have "\<not> is_zombie (th_state (ys ! i))" using y [OF i] it d nst(3) by auto
      ultimately show ?thesis using d j y [of "th_joiner (xs ! i)"] by auto
    qed
    fix u assume "th_state (ys ! i) = UT_JoinBlocked u"
    then have "i \<noteq> c" and u: "th_state (xs ! i) = UT_JoinBlocked u"
      using y [OF i] nst(2) by (auto split: if_splits)
    have "u < length xs" "th_joiner (xs ! u) = i" "u \<noteq> i" using links_okD(3) [OF ok i u] by auto
    moreover have "u \<noteq> t" using calculation(2) tg(2) \<open>i \<noteq> c\<close> by auto
    ultimately show "u < length xs \<and> u \<noteq> i \<and> th_joiner (ys ! u) = i" using y [of u] by auto
  qed
  then show ?thesis by (simp add: ys_def)
qed

lemma join_current_inv:
  assumes inv: "sched_inv s"
  shows "sched_inv (snd (join_current s t now))"
proof -
  let ?c = "us_current s" let ?xs = "us_slots s"
  have l: "links_ok ?xs" "?c < length ?xs" "slot_bounds s"
    using inv by (simp_all add: sched_inv_def slot_bounds_def)
  show ?thesis
  proof (cases "t = 0 \<or> t = ?c \<or> length ?xs \<le> t \<or> th_owner (?xs ! t) \<noteq> th_owner (?xs ! ?c) \<or>
      th_state (?xs ! t) = UT_Empty \<or> th_detached (?xs ! t) \<or> th_joiner (?xs ! t) \<noteq> NO_THREAD")
    case True
    then show ?thesis using inv by (auto simp: join_current_def Let_def split: user_thread_state.split)
  next
    case False
    then have t: "t < length ?xs" "t \<noteq> ?c" "th_joiner (?xs ! t) = NO_THREAD" by simp_all
    show ?thesis
    proof (cases "is_zombie (th_state (?xs ! t))")
      case True
      then obtain c where c: "th_state (?xs ! t) = UT_Zombie c"
        by (auto simp: is_zombie_def split: user_thread_state.splits)
      then show ?thesis using False put_loose_inv [OF inv t(1,3), of THREAD_SLOT_EMPTY]
        by (simp add: join_current_def Let_def)
    next
      case nz: False
      define s2 where
        "s2 = set_state (put_slot s t ((?xs ! t)\<lparr>th_joiner := ?c\<rparr>)) ?c (UT_JoinBlocked t)"
      have j: "join_current s t now = (if th_state (?xs ! ?c) \<noteq> UT_Running then (JO_Invalid, s)
          else (JO_Blocked, snd (select_runnable s2 now)))"
        using False nz by (auto simp: join_current_def Let_def s2_def is_zombie_def
            split: user_thread_state.split)
      show ?thesis
      proof (cases "th_state (?xs ! ?c) = UT_Running")
        case True
        have sl: "us_slots s2 = ?xs[t := (?xs ! t)\<lparr>th_joiner := ?c\<rparr>,
            ?c := (?xs ! ?c)\<lparr>th_state := UT_JoinBlocked t\<rparr>]" using t(2) by (simp add: s2_def)
        have "links_ok (us_slots s2)" unfolding sl
          using False nz True by (intro links_ok_join [OF l(1,2) t(1,2)]) simp_all
        moreover have "idle s2" using inv t l(2) unfolding idle_def sl
          by (auto simp: sched_inv_def only_current_runs_def nth_list_update)
        moreover have "slot_bounds s2" using l(3) by (simp add: s2_def)
        ultimately have "sched_inv (snd (select_runnable s2 now))"
          by (cases "select_runnable s2 now") (simp add: select_inv(1))
        then show ?thesis using j True by simp
      qed (use j inv in simp)
    qed
  qed
qed

lemma abort_blocked_join_inv:
  assumes inv: "sched_inv s"
  shows "sched_inv (snd (abort_blocked_join s))"
proof (cases "\<exists>t. th_state (us_slots s ! us_current s) = UT_JoinBlocked t")
  case True
  let ?c = "us_current s" let ?xs = "us_slots s"
  have l: "links_ok ?xs" "?c < length ?xs" "slot_bounds s"
    using inv by (simp_all add: sched_inv_def slot_bounds_def)
  obtain t where b: "th_state (?xs ! ?c) = UT_JoinBlocked t" using True by blast
  note tg = links_ok_target [OF l(1,2) b]
  define s' where "s' = snd (abort_blocked_join s)"
  have s': "us_slots s' = ?xs[t := (?xs ! t)\<lparr>th_joiner := NO_THREAD\<rparr>, ?c := (?xs ! ?c)\<lparr>th_state := UT_Running\<rparr>]"
    "us_current s' = ?c" "us_cursor s' = us_cursor s"
    using b tg(2,7) by (simp_all add: s'_def abort_blocked_join_def Let_def)
  have "links_ok (us_slots s')" unfolding s' using l(1,2) b by (rule links_ok_unjoin) simp
  moreover have "only_current_runs s'" unfolding only_current_runs_def s'
    using inv tg(1,7) l(2) by (auto simp: sched_inv_def only_current_runs_def nth_list_update)
  ultimately have "sched_inv s'" using l(3) s' by (simp add: sched_inv_def slot_bounds_def)
  then show ?thesis by (simp add: s'_def)
next
  case False
  then show ?thesis using inv
    by (auto simp: abort_blocked_join_def Let_def split: user_thread_state.split)
qed

text \<open>The exit of the current thread: the slots before the selection of the next thread.\<close>

definition exit_slots :: "threads \<Rightarrow> u64 \<Rightarrow> threads" where
  "exit_slots s code =
     (let c = us_current s; sl = us_slots s ! c; j = th_joiner sl in
      if j \<noteq> NO_THREAD then set_state (put_slot s c THREAD_SLOT_EMPTY) j UT_Runnable
      else if th_detached sl then put_slot s c THREAD_SLOT_EMPTY
      else set_state s c (UT_Zombie code))"

lemma exit_slots_inv:
  assumes inv: "sched_inv s" and run: "th_state (us_slots s ! us_current s) = UT_Running"
  shows "links_ok (us_slots (exit_slots s code))" and "idle (exit_slots s code)"
    and "slot_bounds (exit_slots s code)"
    and "th_joiner (us_slots s ! us_current s) \<noteq> NO_THREAD \<Longrightarrow>
      th_joiner (us_slots s ! us_current s) < length (us_slots s) \<and>
      th_joiner (us_slots s ! us_current s) \<noteq> us_current s \<and>
      th_state (us_slots s ! th_joiner (us_slots s ! us_current s)) = UT_JoinBlocked (us_current s)"
proof -
  let ?c = "us_current s" let ?xs = "us_slots s"
  let ?j = "th_joiner (?xs ! ?c)"
  have l: "links_ok ?xs" "?c < length ?xs" "slot_bounds s"
    using inv by (simp_all add: sched_inv_def slot_bounds_def)
  have jb: "?j < length ?xs" "?j \<noteq> ?c" "th_state (?xs ! ?j) = UT_JoinBlocked ?c" if "?j \<noteq> NO_THREAD"
    using links_okD(2) [OF l(1,2) that] run by auto
  then show "?j \<noteq> NO_THREAD \<Longrightarrow> ?j < length ?xs \<and> ?j \<noteq> ?c \<and> th_state (?xs ! ?j) = UT_JoinBlocked ?c"
    by blast
  show "slot_bounds (exit_slots s code)" using l(3) by (simp add: exit_slots_def Let_def)
  have idl: "th_state (?xs ! i) \<noteq> UT_Running" if "i < length ?xs" "i \<noteq> ?c" for i
    using inv that by (auto simp: sched_inv_def only_current_runs_def)
  show "idle (exit_slots s code)"
    unfolding idle_def
  proof (intro allI impI)
    fix i assume i: "i < length (us_slots (exit_slots s code))"
    then have "i < length ?xs" by (simp add: exit_slots_def Let_def split: if_splits)
    with l(2) jb(1,2) idl [of i] links_ok_length [OF l(1)] show "th_state (us_slots (exit_slots s code) ! i) \<noteq> UT_Running"
      by (cases "i = ?c"; cases "i = ?j") (simp_all add: exit_slots_def Let_def)
  qed
  show "links_ok (us_slots (exit_slots s code))"
  proof (cases "?j = NO_THREAD")
    case True
    have "links_ok (?xs[?c := sl])"
      if "th_joiner sl = NO_THREAD" "\<And>u. th_state sl \<noteq> UT_JoinBlocked u"
        "th_state sl = UT_Empty \<Longrightarrow> sl = THREAD_SLOT_EMPTY" for sl
      using l(1,2) True _ that by (rule links_ok_put_loose) (simp add: run)
    from this [of THREAD_SLOT_EMPTY] this [of "(?xs ! ?c)\<lparr>th_state := UT_Zombie code\<rparr>"] True
    show ?thesis by (simp add: exit_slots_def Let_def)
  next
    case False
    define ys where "ys = ?xs[?c := (?xs ! ?c)\<lparr>th_joiner := NO_THREAD\<rparr>, ?j := (?xs ! ?j)\<lparr>th_state := UT_Runnable\<rparr>]"
    have "links_ok ys" unfolding ys_def using l(1) jb(1) [OF False] jb(3) [OF False]
      by (rule links_ok_unjoin) simp
    moreover have "?c < length ys" "th_joiner (ys ! ?c) = NO_THREAD" "\<And>u. th_state (ys ! ?c) \<noteq> UT_JoinBlocked u"
      using l(2) jb(2) [OF False] run by (simp_all add: ys_def)
    ultimately have "links_ok (ys[?c := THREAD_SLOT_EMPTY])" by (rule links_ok_put_loose) simp_all
    moreover have "ys[?c := THREAD_SLOT_EMPTY] = us_slots (exit_slots s code)"
      using False jb(2) [OF False] by (simp add: ys_def exit_slots_def Let_def list_update_swap)
    ultimately show ?thesis by simp
  qed
qed

lemma exit_current_eq:
  assumes inv: "sched_inv s" and run: "us_current s \<noteq> 0" "th_state (us_slots s ! us_current s) = UT_Running"
  shows "exit_current s code now =
    (let j = th_joiner (us_slots s ! us_current s);
         (next, s2) = select_runnable_prefer (exit_slots s code) now
            (if j \<noteq> NO_THREAD then Some j else None)
     in (Some \<lparr>eo_next_thread = next,
              eo_woken_joiner = (if j \<noteq> NO_THREAD then Some (j, code) else None)\<rparr>, s2))"
proof -
  let ?j = "th_joiner (us_slots s ! us_current s)"
  have "(let s' = put_slot s (us_current s) THREAD_SLOT_EMPTY
      in if th_state (us_slots s' ! ?j) = UT_JoinBlocked (us_current s) then set_state s' ?j UT_Runnable else s')
      = exit_slots s code" if "?j \<noteq> NO_THREAD"
    using exit_slots_inv(4) [OF inv run(2) that] that by (simp add: exit_slots_def Let_def)
  then show ?thesis using run unfolding exit_current_def Let_def
    by (simp add: exit_slots_def Let_def)
qed

lemma exit_current_inv:
  assumes inv: "sched_inv s"
  shows "sched_inv (snd (exit_current s code now))"
proof (cases "us_current s = 0 \<or> th_state (us_slots s ! us_current s) \<noteq> UT_Running")
  case True
  then show ?thesis using inv by (auto simp: exit_current_def Let_def)
next
  case False
  then have run: "us_current s \<noteq> 0" "th_state (us_slots s ! us_current s) = UT_Running" by simp_all
  let ?j = "th_joiner (us_slots s ! us_current s)"
  let ?p = "if ?j \<noteq> NO_THREAD then Some ?j else None"
  note e = exit_slots_inv(1-3) [OF inv run(2), of code] exit_slots_inv(4) [OF inv run(2)]
  have "length (us_slots (exit_slots s code)) = length (us_slots s)"
    by (simp add: exit_slots_def Let_def)
  then have p: "\<forall>t. ?p = Some t \<longrightarrow> t < length (us_slots (exit_slots s code))" using e(4) by auto
  obtain n s2 where "select_runnable_prefer (exit_slots s code) now ?p = (n, s2)" by fastforce
  then show ?thesis using select_prefer_inv(1) [OF e(1,3,2) p] exit_current_eq [OF inv run, of code now]
    by (simp add: Let_def)
qed

lemma links_ok_exit_process:
  assumes ok: "links_ok xs"
  shows "links_ok (map (\<lambda>sl. if owned_by owner sl then THREAD_SLOT_EMPTY else sl) xs)"
proof -
  define ys where "ys = map (\<lambda>sl. if owned_by owner sl then THREAD_SLOT_EMPTY else sl) xs"
  have len: "length ys = length xs" by (simp add: ys_def)
  have y: "ys ! i = (if owned_by owner (xs ! i) then THREAD_SLOT_EMPTY else xs ! i)"
    if "i < length xs" for i using that by (simp add: ys_def)
  have "links_ok ys"
  proof (rule links_okI, unfold len)
    show "length xs \<le> NO_THREAD" by (rule links_ok_length [OF ok])
    fix i assume i: "i < length xs"
    note d = links_okD [OF ok i]
    show "th_state (ys ! i) = UT_Empty \<Longrightarrow> ys ! i = THREAD_SLOT_EMPTY" using d(1) y [OF i] by auto
    show "th_joiner (ys ! i) \<noteq> NO_THREAD \<Longrightarrow> th_joiner (ys ! i) < length xs \<and>
        th_state (ys ! th_joiner (ys ! i)) = UT_JoinBlocked i \<and>
        th_owner (ys ! th_joiner (ys ! i)) = th_owner (ys ! i) \<and>
        \<not> is_zombie (th_state (ys ! i)) \<and> \<not> th_detached (ys ! i)"
    proof -
      assume nj: "th_joiner (ys ! i) \<noteq> NO_THREAD"
      then have no: "\<not> owned_by owner (xs ! i)" "ys ! i = xs ! i" using y [OF i] by (auto split: if_splits)
      have j: "th_joiner (xs ! i) \<noteq> NO_THREAD" using nj no by simp
      have "th_state (xs ! i) \<noteq> UT_Empty" using links_ok_empty_loose [OF ok i] j by auto
      then have "\<not> owned_by owner (xs ! th_joiner (xs ! i))"
        using no(1) d(2) [OF j] by (simp add: owned_by_def)
      then show ?thesis using d(2) [OF j] no(2) y [of "th_joiner (xs ! i)"] by simp
    qed
    fix t assume "th_state (ys ! i) = UT_JoinBlocked t"
    then have no: "\<not> owned_by owner (xs ! i)" and b: "th_state (xs ! i) = UT_JoinBlocked t"
      using y [OF i] by (auto split: if_splits)
    have "\<not> owned_by owner (xs ! t)"
      using no links_ok_target(3) [OF ok i b] b by (simp add: owned_by_def)
    then show "t < length xs \<and> t \<noteq> i \<and> th_joiner (ys ! t) = i"
      using links_ok_target(1,2,7) [OF ok i b] y [of t] by simp
  qed
  then show ?thesis by (simp add: ys_def)
qed

definition remove_owner :: "threads \<Rightarrow> u32 \<Rightarrow> threads" where
  "remove_owner s owner =
     s\<lparr>us_slots := map (\<lambda>sl. if owned_by owner sl then THREAD_SLOT_EMPTY else sl) (us_slots s)\<rparr>"

lemma threads_exit_process_eq:
  "threads_exit_process s owner now =
     (if owner = INIT_PROCESS_ID then (None, s)
      else if \<not> list_ex (owned_by owner) (us_slots s) then (None, remove_owner s owner)
      else if th_state (us_slots (remove_owner s owner) ! us_current s) = UT_Empty
      then (let (next, s2) = select_runnable (remove_owner s owner) now in (Some next, s2))
      else (Some (Some (us_current s)), remove_owner s owner))"
  unfolding threads_exit_process_def by (simp add: Let_def remove_owner_def)

lemma remove_owner_simps [simp]:
  "us_current (remove_owner s owner) = us_current s" "us_cursor (remove_owner s owner) = us_cursor s"
  "length (us_slots (remove_owner s owner)) = length (us_slots s)"
  by (simp_all add: remove_owner_def)

lemma remove_owner_inv:
  assumes "sched_inv s"
  shows "sched_inv (remove_owner s owner)"
  using assms links_ok_exit_process [of "us_slots s" owner]
  by (auto simp: sched_inv_def remove_owner_def slot_bounds_def only_current_runs_def)

lemma exit_process_inv:
  assumes "sched_inv s"
  shows "sched_inv (snd (threads_exit_process s owner now))"
proof -
  let ?r = "remove_owner s owner"
  have r: "sched_inv ?r" using assms by (rule remove_owner_inv)
  have "sched_inv (snd (select_runnable ?r now))"
    if "th_state (us_slots ?r ! us_current ?r) = UT_Empty"
    using select_inv(1) [of ?r now] sched_inv_idle [OF r] r that
    by (cases "select_runnable ?r now") (simp add: sched_inv_def)
  then show ?thesis using assms r unfolding threads_exit_process_eq
    by (simp add: case_prod_unfold Let_def)
qed

section \<open>Runs of the scheduler\<close>

text \<open>The kernel calls \<open>select_runnable\<close> directly only when the current thread is not running; the
  other operations are called in any order and with any arguments.\<close>

inductive sched_step :: "threads \<Rightarrow> threads \<Rightarrow> bool" where
  allocates: "sched_step s (snd (allocate s))"
| allocates_for: "sched_step s (snd (allocate_for_process s owner))"
| exits_process: "sched_step s (snd (threads_exit_process s owner now))"
| discards: "sched_step s (snd (discard_unstarted s t))"
| yields: "sched_step s (snd (yield_current s now))"
| sleeps: "sched_step s (snd (sleep_current s wake_at now))"
| blocks: "sched_step s (snd (block_current_on_channel s))"
| wakes: "sched_step s (snd (wake_channel_waiter s t))"
| aborts_wait: "sched_step s (snd (abort_current_channel_wait s))"
| joins: "sched_step s (snd (join_current s t now))"
| aborts_join: "sched_step s (snd (abort_blocked_join s))"
| detaches: "sched_step s (snd (detach s t))"
| exits: "sched_step s (snd (exit_current s code now))"
| expires: "sched_step s (wake_expired s now)"
| selects: "th_state (us_slots s ! us_current s) \<noteq> UT_Running \<Longrightarrow>
    sched_step s (snd (select_runnable s now))"

definition sched_initial :: "threads \<Rightarrow> bool" where
  "sched_initial s \<longleftrightarrow> (\<exists>n. 0 < n \<and> n \<le> NO_THREAD \<and> s = threads_new n)"

lemma wake_expired_inv: "sched_inv s \<Longrightarrow> sched_inv (wake_expired s now)"
  using links_ok_neutral [OF _ wake_expired_neutral, of s now]
  by (simp add: sched_inv_def slot_bounds_def only_current_runs_def)

lemma select_runnable_inv:
  assumes "sched_inv s" and "th_state (us_slots s ! us_current s) \<noteq> UT_Running"
  shows "sched_inv (snd (select_runnable s now))"
  using select_inv(1) [of s now] sched_inv_idle [OF assms] assms(1)
  by (cases "select_runnable s now") (simp add: sched_inv_def)

lemmas sched_op_inv =
  allocate_for_process_inv exit_process_inv discard_unstarted_inv yield_current_inv sleep_current_inv
  block_current_inv wake_channel_inv abort_channel_inv join_current_inv abort_blocked_join_inv
  detach_inv exit_current_inv wake_expired_inv select_runnable_inv

lemma threads_new_inv:
  assumes "0 < n" and "n \<le> NO_THREAD"
  shows "sched_inv (threads_new n)"
proof -
  have sl: "us_slots (threads_new n) ! i =
      (if i = 0 then THREAD_SLOT_EMPTY\<lparr>th_state := UT_Running\<rparr> else THREAD_SLOT_EMPTY)"
    if "i < n" for i using that by (simp add: threads_new_def nth_list_update)
  have len: "length (us_slots (threads_new n)) = n" by (simp add: threads_new_def)
  have "links_ok (us_slots (threads_new n))"
    by (rule links_okI, unfold len) (auto simp: sl assms(2) split: if_splits)
  then show ?thesis using assms(1) sl len
    by (auto simp: sched_inv_def slot_bounds_def only_current_runs_def)
      (simp_all add: threads_new_def)
qed

interpretation scheduler_runs: invariant_system sched_initial sched_step sched_inv
proof
  fix s assume "sched_initial s"
  then show "sched_inv s" by (auto simp: sched_initial_def threads_new_inv)
next
  fix s t assume "sched_step s t" and "sched_inv s"
  then show "sched_inv t"
    by (induction rule: sched_step.induct) (simp_all add: sched_op_inv allocate_def)
qed

section \<open>Bounded waiting\<close>

lemma distance_step:
  assumes "c < n" and "t < n" and "i < n" and "t \<noteq> i"
    and "(if c < i then i - c else i + n - c) \<le> (if c < t then t - c else t + n - (c::nat))"
  shows "(if i < t then t - i else t + n - i) < (if c < t then t - c else t + n - c)"
  using assms by (auto split: if_splits)

lemma yield_progress:
  assumes inv: "sched_inv s" and run: "th_state (us_slots s ! us_current s) = UT_Running"
    and t: "t < length (us_slots s)" "th_state (us_slots s ! t) = UT_Runnable"
    and y: "yield_current s now = (next, s')"
  shows "length (us_slots s') = length (us_slots s)" and "next = Some (us_current s')"
    and "th_state (us_slots s' ! us_current s') = UT_Running"
    and "us_current s' = t \<or> th_state (us_slots s' ! t) = UT_Runnable \<and> distance s' t < distance s t"
proof -
  define u where "u = set_state s (us_current s) UT_Runnable"
  have sel: "select_runnable_prefer u now None = (next, s')"
    using y run by (simp add: yield_current_def select_runnable_def u_def)
  have b: "us_current s < length (us_slots s)" "us_cursor s < length (us_slots s)"
    using inv by (simp_all add: sched_inv_def slot_bounds_def)
  have lu: "length (us_slots u) = length (us_slots s)" "us_cursor u = us_cursor s" by (simp_all add: u_def)
  have tu: "th_state (us_slots u ! t) = UT_Runnable" using t b(1)
    by (cases "t = us_current s") (simp_all add: u_def)
  have du: "distance u x = distance s x" for x by (simp add: distance_def lu)
  have cu: "us_cursor u < length (us_slots u)" using b lu by simp
  have wt: "th_state (us_slots (wake_expired u now) ! t) = UT_Runnable"
    using tu t(1) lu by (simp add: wake_slot_def)
  from cu _ sel show l: "length (us_slots s') = length (us_slots s)"
    by (cases rule: select_prefer_cases) (simp_all add: lu)
  from cu _ sel have "\<exists>i. next = Some i \<and> s' = run_thread (wake_expired u now) i \<and> i < length (us_slots s)
      \<and> distance s i \<le> distance s t"
    using wt t(1) by (cases rule: select_prefer_cases) (auto simp: lu du)
  then obtain i where i: "next = Some i" "s' = run_thread (wake_expired u now) i"
    "i < length (us_slots s)" "distance s i \<le> distance s t" by blast
  show "next = Some (us_current s')" using i by simp
  show "th_state (us_slots s' ! us_current s') = UT_Running" using i lu by simp
  show "us_current s' = t \<or> th_state (us_slots s' ! t) = UT_Runnable \<and> distance s' t < distance s t"
  proof (cases "i = t")
    case False
    have "th_state (us_slots s' ! t) = UT_Runnable" using wt False i(2) by simp
    moreover have ci: "us_cursor s' = i" using i(2) by simp
    moreover have "distance s' t < distance s t"
      using distance_step [OF b(2) t(1) i(3) not_sym [OF False]] i(4) unfolding distance_def l ci
      by blast
    ultimately show ?thesis by simp
  qed (simp add: i)
qed

fun yields_at :: "threads \<Rightarrow> u64 list \<Rightarrow> threads" where
  "yields_at s [] = s"
| "yields_at s (now # ns) = yields_at (snd (yield_current s now)) ns"

lemma yields_reach:
  assumes "sched_inv s" and "th_state (us_slots s ! us_current s) = UT_Running"
    and "t < length (us_slots s)" "th_state (us_slots s ! t) = UT_Runnable"
    and "distance s t \<le> length ns"
  shows "\<exists>k \<le> length ns. us_current (yields_at s (take k ns)) = t \<and>
    th_state (us_slots (yields_at s (take k ns)) ! t) = UT_Running"
  using assms
proof (induction ns arbitrary: s)
  case Nil
  then show ?case using distance_bounds(1) [of s t] by (auto simp: sched_inv_def slot_bounds_def)
next
  case (Cons now ns)
  obtain next' s' where y: "yield_current s now = (next', s')" by fastforce
  note p = yield_progress [OF Cons.prems(1-4) y]
  have inv: "sched_inv s'" using yield_current_inv [OF Cons.prems(1), of now] y by simp
  show ?case
  proof (cases "us_current s' = t")
    case True
    then show ?thesis using p(3) y by (intro exI [of _ 1]) simp
  next
    case False
    then have "\<exists>k \<le> length ns. us_current (yields_at s' (take k ns)) = t \<and>
        th_state (us_slots (yields_at s' (take k ns)) ! t) = UT_Running"
      using Cons.IH [OF inv p(3)] p(1,4) Cons.prems(3,5) by simp
    then obtain k where "k \<le> length ns" "us_current (yields_at s' (take k ns)) = t"
      "th_state (us_slots (yields_at s' (take k ns)) ! t) = UT_Running" by blast
    then show ?thesis using y by (intro exI [of _ "Suc k"]) simp
  qed
qed

section \<open>Properties\<close>

lemma reachable_consistent:
  assumes "sched_initial s0" and "sched_step\<^sup>*\<^sup>* s0 s"
  shows "us_current s < length (us_slots s)"
    and "\<forall>i < length (us_slots s). th_state (us_slots s ! i) = UT_Running \<longrightarrow> i = us_current s"
    and "\<forall>i < length (us_slots s). \<forall>t. th_state (us_slots s ! i) = UT_JoinBlocked t \<longrightarrow>
      t < length (us_slots s) \<and> t \<noteq> i \<and> th_joiner (us_slots s ! t) = i \<and>
      th_owner (us_slots s ! t) = th_owner (us_slots s ! i) \<and> \<not> th_detached (us_slots s ! t) \<and>
      th_state (us_slots s ! t) \<noteq> UT_Empty \<and> \<not> is_zombie (th_state (us_slots s ! t))"
proof -
  have inv: "sched_inv s" using assms by (rule scheduler_runs.reachable_inv)
  then have l: "links_ok (us_slots s)" by (simp add: sched_inv_def)
  show "us_current s < length (us_slots s)" using inv by (simp add: sched_inv_def slot_bounds_def)
  show "\<forall>i < length (us_slots s). th_state (us_slots s ! i) = UT_Running \<longrightarrow> i = us_current s"
    using inv by (simp add: sched_inv_def only_current_runs_def)
  show "\<forall>i < length (us_slots s). \<forall>t. th_state (us_slots s ! i) = UT_JoinBlocked t \<longrightarrow>
      t < length (us_slots s) \<and> t \<noteq> i \<and> th_joiner (us_slots s ! t) = i \<and>
      th_owner (us_slots s ! t) = th_owner (us_slots s ! i) \<and> \<not> th_detached (us_slots s ! t) \<and>
      th_state (us_slots s ! t) \<noteq> UT_Empty \<and> \<not> is_zombie (th_state (us_slots s ! t))"
    by (intro allI impI conjI) (use links_ok_target [OF l] in blast)+
qed

text \<open>C9. In every state the scheduler reaches from its initial state, by any sequence of its
  operations, at most the current thread is running, and a thread blocked in a join waits for
  another thread of its own process that is neither free nor finished nor detached and that records
  it as its joiner. A thread therefore has at most one joiner and no join waits for a slot that was
  given away.\<close>

theorem scheduler_states_consistent:
  assumes "sched_initial s0" and "sched_step\<^sup>*\<^sup>* s0 s"
  shows "(us_current s < length (us_slots s)) \<and>
    (\<forall>i < length (us_slots s). th_state (us_slots s ! i) = UT_Running \<longrightarrow> i = us_current s) \<and>
    (\<forall>i < length (us_slots s). \<forall>t. th_state (us_slots s ! i) = UT_JoinBlocked t \<longrightarrow>
      t < length (us_slots s) \<and> t \<noteq> i \<and> th_joiner (us_slots s ! t) = i \<and>
      th_owner (us_slots s ! t) = th_owner (us_slots s ! i) \<and> \<not> th_detached (us_slots s ! t) \<and>
      th_state (us_slots s ! t) \<noteq> UT_Empty \<and> \<not> is_zombie (th_state (us_slots s ! t)))"
  by (intro conjI) (fact reachable_consistent [OF assms])+

definition sample_threads :: threads where
  "sample_threads = snd (allocate (snd (allocate (threads_new 4))))"

lemma sample_initial: "sched_initial (threads_new 4)"
  unfolding sched_initial_def by (rule exI [of _ 4]) (simp add: NO_THREAD_def)

lemma sample_threads_run: "sched_step\<^sup>*\<^sup>* (threads_new 4) sample_threads"
  unfolding sample_threads_def
  by (rule rtranclp.rtrancl_into_rtrancl [OF r_into_rtranclp]) (rule sched_step.allocates)+

theorem scheduler_states_consistent_witness:
  "(let s = snd (join_current sample_threads 1 0) in
    th_state (us_slots s ! 0) = UT_JoinBlocked 1 \<and> us_current s = 1 \<and>
    th_joiner (us_slots s ! 1) = 0 \<and> th_owner (us_slots s ! 1) = th_owner (us_slots s ! 0))"
proof -
  let ?s = "snd (join_current sample_threads 1 0)"
  have r: "sched_step\<^sup>*\<^sup>* (threads_new 4) ?s"
    using sample_threads_run sched_step.joins by (rule rtranclp.rtrancl_into_rtrancl)
  have e: "length (us_slots ?s) = 4" "th_state (us_slots ?s ! 0) = UT_JoinBlocked 1"
    "us_current ?s = 1" by code_simp+
  then show ?thesis using scheduler_states_consistent [OF sample_initial r] unfolding Let_def by simp
qed

text \<open>C10. Selection is fair. If the current thread runs and another thread is runnable, then at the
  latest after as many yields as there are slots the runnable thread runs, whatever the times at
  which the yields happen and whatever sleepers they wake.\<close>

theorem runnable_thread_runs:
  assumes "sched_initial s0" and "sched_step\<^sup>*\<^sup>* s0 s"
    and "thread_state s (us_current s) = Some UT_Running" and "thread_state s t = Some UT_Runnable"
    and "length ns = length (us_slots s)"
  shows "\<exists>k \<le> length (us_slots s).
    us_current (yields_at s (take k ns)) = t \<and> thread_state (yields_at s (take k ns)) t = Some UT_Running"
proof -
  have inv: "sched_inv s" using assms(1,2) by (rule scheduler_runs.reachable_inv)
  have c: "th_state (us_slots s ! us_current s) = UT_Running"
    and t: "t < length (us_slots s)" "th_state (us_slots s ! t) = UT_Runnable"
    using assms(3,4) by (auto simp: thread_state_def array_get_def split: if_splits)
  have d: "distance s t \<le> length ns"
    using distance_bounds(2) [of s t] inv t(1) assms(5) by (simp add: sched_inv_def slot_bounds_def)
  have len: "length (us_slots (yields_at s ms)) = length (us_slots s)" for ms
  proof (induction ms arbitrary: s)
    case (Cons now ms)
    have "length (us_slots (snd (yield_current s now))) = length (us_slots s)" for s
      by (auto simp: yield_current_def select_runnable_def select_runnable_prefer_def Let_def
          simp del: upt_Suc split: option.split)
    then show ?case using Cons by simp
  qed simp
  show ?thesis using yields_reach [OF inv c t d] assms(5) t(1) len
    by (auto simp: thread_state_def array_get_def)
qed

theorem runnable_thread_runs_witness:
  "\<exists>k \<le> 4. us_current (yields_at sample_threads (take k [0, 0, 0, 0])) = 2"
proof -
  have e: "length (us_slots sample_threads) = 4"
    "thread_state sample_threads (us_current sample_threads) = Some UT_Running"
    "thread_state sample_threads 2 = Some UT_Runnable" by code_simp+
  show ?thesis using runnable_thread_runs [OF sample_initial sample_threads_run e(2,3), of "[0, 0, 0, 0]"] e(1) by auto
qed

lemma exit_current_outcomes:
  assumes "sched_initial s0" and "sched_step\<^sup>*\<^sup>* s0 s" and "us_current s = c" and "c \<noteq> 0"
    and "thread_state s c = Some UT_Running" and "exit_current s code now = (r, s')"
  shows "th_joiner (us_slots s ! c) = j \<Longrightarrow> j \<noteq> NO_THREAD \<Longrightarrow>
      r = Some \<lparr>eo_next_thread = Some j, eo_woken_joiner = Some (j, code)\<rparr> \<and> us_current s' = j \<and>
      thread_state s j = Some (UT_JoinBlocked c) \<and> thread_state s' j = Some UT_Running \<and>
      thread_state s' c = Some UT_Empty"
    and "th_joiner (us_slots s ! c) = NO_THREAD \<Longrightarrow> th_detached (us_slots s ! c) \<Longrightarrow>
      thread_state s' c = Some UT_Empty"
    and "th_joiner (us_slots s ! c) = NO_THREAD \<Longrightarrow> \<not> th_detached (us_slots s ! c) \<Longrightarrow>
      thread_state s' c = Some (UT_Zombie code) \<and>
      (\<forall>u. us_current u \<noteq> c \<longrightarrow> current_owner u = th_owner (us_slots s ! c) \<longrightarrow>
         us_slots u ! c = us_slots s' ! c \<longrightarrow> length (us_slots u) = length (us_slots s') \<longrightarrow>
         fst (join_current u c later) = JO_Completed code \<and>
         fst (join_current (snd (join_current u c later)) c later') = JO_Invalid)"
proof -
  have inv: "sched_inv s" using assms(1,2) by (rule scheduler_runs.reachable_inv)
  have run: "us_current s \<noteq> 0" "th_state (us_slots s ! us_current s) = UT_Running"
    and cl: "c < length (us_slots s)"
    using assms(3-5) by (auto simp: thread_state_def array_get_def split: if_splits)
  note e = exit_slots_inv(1-3) [OF inv run(2), of code] exit_slots_inv(4) [OF inv run(2)]
  let ?j = "th_joiner (us_slots s ! c)"
  let ?p = "if ?j \<noteq> NO_THREAD then Some ?j else None"
  have le: "length (us_slots (exit_slots s code)) = length (us_slots s)"
    by (simp add: exit_slots_def Let_def)
  have p: "\<forall>t. ?p = Some t \<longrightarrow> t < length (us_slots (exit_slots s code))" using e(4) le assms(3) by auto
  obtain n s2 where sel: "select_runnable_prefer (exit_slots s code) now ?p = (n, s2)" by fastforce
  have r: "r = Some \<lparr>eo_next_thread = n,
      eo_woken_joiner = (if ?j \<noteq> NO_THREAD then Some (?j, code) else None)\<rparr>" "s' = s2"
    using exit_current_eq [OF inv run, of code now] assms(3,6) sel by (simp_all add: Let_def)
  note q = select_prefer_inv [OF e(1,3,2) p sel]
  have ns: "neutral_step (us_slots (exit_slots s code) ! c) (us_slots s' ! c)"
    "length (us_slots s') = length (us_slots s)"
    using q(2) cl le r(2) by (simp_all add: neutral_steps_def)
  note nf = neutral_step_fields [OF ns(1)]
  have cu: "us_cursor (exit_slots s code) < length (us_slots (exit_slots s code))"
    using e(3) by (simp add: slot_bounds_def)
  {
    assume j: "?j = j" "j \<noteq> NO_THREAD"
    have jl: "j < length (us_slots s)" "j \<noteq> c" "th_state (us_slots s ! j) = UT_JoinBlocked c"
      using e(4) j assms(3) by auto
    have ej: "th_state (us_slots (exit_slots s code) ! j) = UT_Runnable"
      "us_slots (exit_slots s code) ! c = THREAD_SLOT_EMPTY"
      using j jl cl assms(3) by (simp_all add: exit_slots_def Let_def)
    have wj: "th_state (us_slots (wake_expired (exit_slots s code) now) ! j) = UT_Runnable"
      using ej jl le by (simp add: wake_slot_def)
    have pj: "?p = Some j" using j by simp
    from cu p sel have "n = Some j"
      by (cases rule: select_prefer_cases) (use wj jl(1) le pj in \<open>auto simp del: wake_expired_simps\<close>)
    then show "r = Some \<lparr>eo_next_thread = Some j, eo_woken_joiner = Some (j, code)\<rparr> \<and> us_current s' = j \<and>
        thread_state s j = Some (UT_JoinBlocked c) \<and> thread_state s' j = Some UT_Running \<and>
        thread_state s' c = Some UT_Empty"
      using r j jl q(4) nf(5) ej(2) cl ns(2) by (simp add: thread_state_def array_get_def)
  next
    assume "?j = NO_THREAD" "th_detached (us_slots s ! c)"
    then have "us_slots (exit_slots s code) ! c = THREAD_SLOT_EMPTY"
      using cl assms(3) by (simp add: exit_slots_def Let_def)
    then show "thread_state s' c = Some UT_Empty"
      using nf(5) cl ns(2) by (simp add: thread_state_def array_get_def)
  next
    assume a: "?j = NO_THREAD" "\<not> th_detached (us_slots s ! c)"
    then have z: "us_slots (exit_slots s code) ! c = (us_slots s ! c)\<lparr>th_state := UT_Zombie code\<rparr>"
      using cl assms(3) by (simp add: exit_slots_def Let_def)
    have zs: "us_slots s' ! c = (us_slots s ! c)\<lparr>th_state := UT_Zombie code\<rparr>"
      using ns(1) unfolding z neutral_step_def by simp
    have "fst (join_current u c later) = JO_Completed code \<and>
        fst (join_current (snd (join_current u c later)) c later') = JO_Invalid"
      if u: "us_current u \<noteq> c" "current_owner u = th_owner (us_slots s ! c)"
        "us_slots u ! c = us_slots s' ! c" "length (us_slots u) = length (us_slots s')" for u
    proof -
      have j: "join_current u c later = (JO_Completed code, put_slot u c THREAD_SLOT_EMPTY)"
        using u a zs assms(4) cl ns(2) by (simp add: join_current_def Let_def current_owner_def)
      then show ?thesis using cl u(4) ns(2) by (simp add: join_current_def Let_def)
    qed
    then show "thread_state s' c = Some (UT_Zombie code) \<and>
      (\<forall>u. us_current u \<noteq> c \<longrightarrow> current_owner u = th_owner (us_slots s ! c) \<longrightarrow>
         us_slots u ! c = us_slots s' ! c \<longrightarrow> length (us_slots u) = length (us_slots s') \<longrightarrow>
         fst (join_current u c later) = JO_Completed code \<and>
         fst (join_current (snd (join_current u c later)) c later') = JO_Invalid)"
      using zs cl ns(2) by (simp add: thread_state_def array_get_def)
  }
qed

text \<open>C34. An exit is delivered to its joiner. When the running thread, other than the initial one,
  exits while a thread is blocked joining it, the joiner receives the exit code and is the next
  thread to run, before any other thread can be given the freed slot. With no joiner, the exit code
  of a thread that was not detached is kept: the next join by a thread of the same process completes
  with it, and a second join is refused; a detached thread's slot is free at once.\<close>

theorem exit_reaches_joiner:
  assumes "sched_initial s0" and "sched_step\<^sup>*\<^sup>* s0 s" and "us_current s = c" and "c \<noteq> 0"
    and "thread_state s c = Some UT_Running" and "exit_current s code now = (r, s')"
  shows "(th_joiner (us_slots s ! c) = j \<longrightarrow> j \<noteq> NO_THREAD \<longrightarrow>
      r = Some \<lparr>eo_next_thread = Some j, eo_woken_joiner = Some (j, code)\<rparr> \<and> us_current s' = j \<and>
      thread_state s j = Some (UT_JoinBlocked c) \<and> thread_state s' j = Some UT_Running \<and>
      thread_state s' c = Some UT_Empty) \<and>
    (th_joiner (us_slots s ! c) = NO_THREAD \<longrightarrow> th_detached (us_slots s ! c) \<longrightarrow>
      thread_state s' c = Some UT_Empty) \<and>
    (th_joiner (us_slots s ! c) = NO_THREAD \<longrightarrow> \<not> th_detached (us_slots s ! c) \<longrightarrow>
      thread_state s' c = Some (UT_Zombie code) \<and>
      (\<forall>u. us_current u \<noteq> c \<longrightarrow> current_owner u = th_owner (us_slots s ! c) \<longrightarrow>
         us_slots u ! c = us_slots s' ! c \<longrightarrow> length (us_slots u) = length (us_slots s') \<longrightarrow>
         fst (join_current u c later) = JO_Completed code \<and>
         fst (join_current (snd (join_current u c later)) c later') = JO_Invalid))"
  using exit_current_outcomes [OF assms] by (intro conjI impI) blast+

theorem exit_reaches_joiner_witness:
  "(let s = snd (join_current sample_threads 1 0); e = exit_current s 7 0 in
    fst e = Some \<lparr>eo_next_thread = Some 0, eo_woken_joiner = Some (0, 7)\<rparr> \<and>
    thread_state (snd e) 0 = Some UT_Running)"
proof -
  let ?s = "snd (join_current sample_threads 1 0)"
  have r: "sched_step\<^sup>*\<^sup>* (threads_new 4) ?s"
    using sample_threads_run sched_step.joins by (rule rtranclp.rtrancl_into_rtrancl)
  have e: "us_current ?s = 1" "thread_state ?s 1 = Some UT_Running" "th_joiner (us_slots ?s ! 1) = 0"
    by code_simp+
  obtain res s' where x: "exit_current ?s 7 0 = (res, s')" by fastforce
  show ?thesis
    using exit_reaches_joiner [OF sample_initial r e(1) _ e(2) x, of 0] e(3) x by (simp add: Let_def NO_THREAD_def)
qed

lemma exit_process_outcomes:
  assumes "sched_initial s0" and "sched_step\<^sup>*\<^sup>* s0 s" and "owner \<noteq> INIT_PROCESS_ID"
    and "threads_exit_process s owner now = (r, s')"
  shows "\<forall>t. thread_owner s' t \<noteq> Some owner"
    and "\<forall>t < length (us_slots s). thread_owner s t \<noteq> Some owner \<longrightarrow>
      thread_owner s' t = thread_owner s t \<and> th_joiner (us_slots s' ! t) = th_joiner (us_slots s ! t) \<and>
      (\<forall>u. thread_state s' t = Some (UT_JoinBlocked u) \<longleftrightarrow> thread_state s t = Some (UT_JoinBlocked u))"
    and "\<forall>t u. thread_state s' t = Some (UT_JoinBlocked u) \<longrightarrow> thread_owner s' u = thread_owner s' t"
    and "r = None \<longleftrightarrow> (\<forall>t. thread_owner s t \<noteq> Some owner)"
    and "\<forall>t. r = Some (Some t) \<longrightarrow> us_current s' = t"
proof -
  have inv: "sched_inv s" using assms(1,2) by (rule scheduler_runs.reachable_inv)
  let ?r = "remove_owner s owner"
  have ri: "sched_inv ?r" using inv by (rule remove_owner_inv)
  have inv': "sched_inv s'" using exit_process_inv [OF inv, of owner now] assms(4) by simp
  have sel: "neutral_steps (us_slots ?r) (us_slots s2) \<and> (\<forall>t. n = Some t \<longrightarrow> us_current s2 = t)"
    if "select_runnable ?r now = (n, s2)" "th_state (us_slots ?r ! us_current s) = UT_Empty" for n s2
    using select_inv(2,4) [OF _ _ _ that(1)] sched_inv_idle [OF ri] ri that(2) by (simp add: sched_inv_def)
  have n: "neutral_steps (us_slots ?r) (us_slots s')" and "\<forall>t. r = Some (Some t) \<longrightarrow> us_current s' = t"
    and rn: "r = None \<longleftrightarrow> \<not> list_ex (owned_by owner) (us_slots s)"
    using assms(3,4) sel unfolding threads_exit_process_eq
    by (auto split: if_splits prod.splits simp: Let_def)
  then show "\<forall>t. r = Some (Some t) \<longrightarrow> us_current s' = t" by simp
  have len: "length (us_slots s') = length (us_slots s)" using n by (simp add: neutral_steps_def)
  have f: "th_joiner (us_slots s' ! t) = th_joiner (us_slots ?r ! t)"
    "th_owner (us_slots s' ! t) = th_owner (us_slots ?r ! t)"
    "th_state (us_slots s' ! t) = UT_JoinBlocked u \<longleftrightarrow> th_state (us_slots ?r ! t) = UT_JoinBlocked u"
    "th_state (us_slots s' ! t) = UT_Empty \<longleftrightarrow> th_state (us_slots ?r ! t) = UT_Empty"
    if "t < length (us_slots s)" for t u
    using neutral_step_fields [of "us_slots ?r ! t" "us_slots s' ! t"] n that
    by (simp_all add: neutral_steps_def)
  have ro: "us_slots ?r ! t = (if owned_by owner (us_slots s ! t) then THREAD_SLOT_EMPTY else us_slots s ! t)"
    if "t < length (us_slots s)" for t using that by (simp add: remove_owner_def)
  have ow: "thread_owner s t = Some owner \<longleftrightarrow> t < length (us_slots s) \<and> owned_by owner (us_slots s ! t)" for t
    by (simp add: thread_owner_def array_get_def owned_by_def)
  have owb: "\<not> owned_by owner (us_slots s' ! t)" if "t < length (us_slots s)" for t
    using f(2,4) [OF that] ro [OF that] by (auto simp: owned_by_def split: if_splits)
  then show "\<forall>t. thread_owner s' t \<noteq> Some owner"
    using len by (auto simp: thread_owner_def array_get_def owned_by_def)
  show "r = None \<longleftrightarrow> (\<forall>t. thread_owner s t \<noteq> Some owner)"
    unfolding rn ow list_ex_iff by (metis in_set_conv_nth)
  show "\<forall>t < length (us_slots s). thread_owner s t \<noteq> Some owner \<longrightarrow>
      thread_owner s' t = thread_owner s t \<and> th_joiner (us_slots s' ! t) = th_joiner (us_slots s ! t) \<and>
      (\<forall>u. thread_state s' t = Some (UT_JoinBlocked u) \<longleftrightarrow> thread_state s t = Some (UT_JoinBlocked u))"
  proof (intro allI impI)
    fix t assume t: "t < length (us_slots s)" and no: "thread_owner s t \<noteq> Some owner"
    have "us_slots ?r ! t = us_slots s ! t" using ro [OF t] no ow [of t] t by simp
    then show "thread_owner s' t = thread_owner s t \<and> th_joiner (us_slots s' ! t) = th_joiner (us_slots s ! t) \<and>
      (\<forall>u. thread_state s' t = Some (UT_JoinBlocked u) \<longleftrightarrow> thread_state s t = Some (UT_JoinBlocked u))"
      using f [OF t] t len by (simp add: thread_owner_def thread_state_def array_get_def)
  qed
  have l': "links_ok (us_slots s')" using inv' by (simp add: sched_inv_def)
  show "\<forall>t u. thread_state s' t = Some (UT_JoinBlocked u) \<longrightarrow> thread_owner s' u = thread_owner s' t"
  proof (intro allI impI)
    fix t u assume "thread_state s' t = Some (UT_JoinBlocked u)"
    then have t: "t < length (us_slots s')" "th_state (us_slots s' ! t) = UT_JoinBlocked u"
      by (auto simp: thread_state_def array_get_def split: if_splits)
    from links_ok_target(1,3,4) [OF l' t] t show "thread_owner s' u = thread_owner s' t"
      by (simp add: thread_owner_def array_get_def)
  qed
qed

text \<open>C35. The exit of a process removes exactly its threads. For a process other than init, no thread
  of it is left, every other thread keeps its owner, its joiner and its join target and changes at
  most between the sleeping, runnable and running states, and no remaining thread waits for a
  removed slot. The result is \<open>None\<close> exactly if the process had no thread, and otherwise names the
  thread that runs next, if there is one.\<close>

theorem exit_process_removes_threads:
  assumes "sched_initial s0" and "sched_step\<^sup>*\<^sup>* s0 s" and "owner \<noteq> INIT_PROCESS_ID"
    and "threads_exit_process s owner now = (r, s')"
  shows "(\<forall>t. thread_owner s' t \<noteq> Some owner) \<and>
    (\<forall>t < length (us_slots s). thread_owner s t \<noteq> Some owner \<longrightarrow>
      thread_owner s' t = thread_owner s t \<and> th_joiner (us_slots s' ! t) = th_joiner (us_slots s ! t) \<and>
      (\<forall>u. thread_state s' t = Some (UT_JoinBlocked u) \<longleftrightarrow> thread_state s t = Some (UT_JoinBlocked u))) \<and>
    (\<forall>t u. thread_state s' t = Some (UT_JoinBlocked u) \<longrightarrow> thread_owner s' u = thread_owner s' t) \<and>
    (r = None \<longleftrightarrow> (\<forall>t. thread_owner s t \<noteq> Some owner)) \<and>
    (\<forall>t. r = Some (Some t) \<longrightarrow> us_current s' = t)"
  by (intro conjI) (fact exit_process_outcomes [OF assms])+

theorem exit_process_removes_threads_witness:
  "(let s = snd (allocate_for_process sample_threads 9); e = threads_exit_process s 9 0 in
    thread_owner s 3 = Some 9 \<and> fst e \<noteq> None \<and> (\<forall>t. thread_owner (snd e) t \<noteq> Some 9))"
proof -
  let ?s = "snd (allocate_for_process sample_threads 9)"
  have r: "sched_step\<^sup>*\<^sup>* (threads_new 4) ?s"
    using sample_threads_run sched_step.allocates_for by (rule rtranclp.rtrancl_into_rtrancl)
  have o: "(9 :: u32) \<noteq> INIT_PROCESS_ID" by (simp add: INIT_PROCESS_ID_def)
  have e: "thread_owner ?s 3 = Some 9" by code_simp
  obtain res s' where x: "threads_exit_process ?s 9 0 = (res, s')" by fastforce
  show ?thesis using exit_process_removes_threads [OF sample_initial r o x] e x
    by (auto simp: Let_def)
qed

definition has_state :: "threads \<Rightarrow> user_thread_state \<Rightarrow> bool" where
  "has_state s st \<longleftrightarrow> (\<exists>t. thread_state s t = Some st)"

lemma has_state_iff: "has_state s st \<longleftrightarrow> (\<exists>sl \<in> set (us_slots s). th_state sl = st)"
proof
  assume "has_state s st"
  then obtain t where "t < length (us_slots s)" "th_state (us_slots s ! t) = st"
    by (auto simp: has_state_def thread_state_def array_get_def split: if_splits)
  then show "\<exists>sl \<in> set (us_slots s). th_state sl = st" by (intro bexI [of _ "us_slots s ! t"]) simp_all
next
  assume "\<exists>sl \<in> set (us_slots s). th_state sl = st"
  then obtain t where "t < length (us_slots s)" "th_state (us_slots s ! t) = st"
    unfolding Bex_def in_set_conv_nth by blast
  then show "has_state s st" unfolding has_state_def
    by (intro exI [of _ t]) (simp add: thread_state_def array_get_def)
qed

lemma has_state_nth: "t < length (us_slots s) \<Longrightarrow> has_state s (th_state (us_slots s ! t))"
  unfolding has_state_iff by auto

lemma has_stateE:
  assumes "has_state s st"
  obtains t where "t < length (us_slots s)" and "th_state (us_slots s ! t) = st"
  using assms unfolding has_state_iff by (auto simp: in_set_conv_nth)

lemma ticks_set:
  "set (List.map_filter (\<lambda>sl. case th_state sl of
      UT_Sleeping w \<Rightarrow> Some (saturating_sub w now) | _ \<Rightarrow> None) (us_slots s)) =
    {saturating_sub w now | w. has_state s (UT_Sleeping w)}"
proof -
  have "(case st of UT_Sleeping w \<Rightarrow> Some (saturating_sub w now) | _ \<Rightarrow> None) = Some x \<longleftrightarrow>
      (\<exists>w. st = UT_Sleeping w \<and> x = saturating_sub w now)" for st x
    by (cases st) auto
  then show ?thesis unfolding has_state_iff set_map_filter by auto
qed

lemma ticks_until_wake_iff:
  "ticks_until_wake s now = Some d \<longleftrightarrow>
     (\<exists>w. has_state s (UT_Sleeping w) \<and> d = saturating_sub w now) \<and>
     (\<forall>w. has_state s (UT_Sleeping w) \<longrightarrow> d \<le> saturating_sub w now)"
  "ticks_until_wake s now = None \<longleftrightarrow> (\<forall>w. \<not> has_state s (UT_Sleeping w))"
proof -
  define ts where "ts = List.map_filter (\<lambda>sl. case th_state sl of
      UT_Sleeping w \<Rightarrow> Some (saturating_sub w now) | _ \<Rightarrow> None) (us_slots s)"
  have st: "set ts = {saturating_sub w now | w. has_state s (UT_Sleeping w)}"
    unfolding ts_def by (rule ticks_set)
  have t: "ticks_until_wake s now = (if ts = [] then None else Some (Min (set ts)))"
    by (simp add: ticks_until_wake_def ts_def Let_def)
  have e: "ts = [] \<longleftrightarrow> (\<forall>w. \<not> has_state s (UT_Sleeping w))"
    unfolding set_empty [symmetric] st by auto
  then show "ticks_until_wake s now = None \<longleftrightarrow> (\<forall>w. \<not> has_state s (UT_Sleeping w))" using t by simp
  have "Min (set ts) = d \<longleftrightarrow> d \<in> set ts \<and> (\<forall>x \<in> set ts. d \<le> x)" if "ts \<noteq> []"
    using that by (intro Min_eq_iff) auto
  then show "ticks_until_wake s now = Some d \<longleftrightarrow>
     (\<exists>w. has_state s (UT_Sleeping w) \<and> d = saturating_sub w now) \<and>
     (\<forall>w. has_state s (UT_Sleeping w) \<longrightarrow> d \<le> saturating_sub w now)"
    using t e unfolding st by (cases "ts = []") auto
qed

lemma select_none_iff:
  assumes "us_cursor s < length (us_slots s)"
  shows "fst (select_runnable s now) = None \<longleftrightarrow>
    \<not> has_state s UT_Runnable \<and> (\<forall>w. has_state s (UT_Sleeping w) \<longrightarrow> now < w)"
proof -
  have sel: "select_runnable_prefer s now None = (fst (select_runnable s now), snd (select_runnable s now))"
    by (simp add: select_runnable_def)
  let ?w = "\<forall>t < length (us_slots s). th_state (us_slots (wake_expired s now) ! t) \<noteq> UT_Runnable"
  have w: "th_state (us_slots (wake_expired s now) ! t) = UT_Runnable \<longleftrightarrow>
      th_state (us_slots s ! t) = UT_Runnable \<or> (\<exists>w. th_state (us_slots s ! t) = UT_Sleeping w \<and> w \<le> now)"
    if "t < length (us_slots s)" for t using that by (simp add: wake_slot_runnable)
  have "?w \<longleftrightarrow> \<not> has_state s UT_Runnable \<and> (\<forall>w. has_state s (UT_Sleeping w) \<longrightarrow> now < w)"
  proof
    assume a: ?w
    show "\<not> has_state s UT_Runnable \<and> (\<forall>w. has_state s (UT_Sleeping w) \<longrightarrow> now < w)"
      using a w by (metis has_stateE not_le)
  next
    assume a: "\<not> has_state s UT_Runnable \<and> (\<forall>w. has_state s (UT_Sleeping w) \<longrightarrow> now < w)"
    show ?w using a w has_state_nth [of _ s] by (metis not_le)
  qed
  moreover from assms _ sel have "fst (select_runnable s now) = None \<longleftrightarrow> ?w"
    by (cases rule: select_prefer_cases) auto
  ultimately show ?thesis by simp
qed

lemma select_none_state:
  assumes "us_cursor s < length (us_slots s)" and "select_runnable s now = (None, s')"
  shows "s' = wake_expired s now"
proof -
  from assms(2) have sel: "select_runnable_prefer s now None = (None, s')" by (simp add: select_runnable_def)
  from assms(1) _ sel show ?thesis by (cases rule: select_prefer_cases) auto
qed

lemma idle_wait_bounds:
  assumes "sched_initial s0" and "sched_step\<^sup>*\<^sup>* s0 s"
    and "select_runnable s now = (None, s')"
  shows "ticks_until_wake s' now = None \<longleftrightarrow> (\<forall>t w. thread_state s' t \<noteq> Some (UT_Sleeping w))"
    and "ticks_until_wake s' now = Some d \<Longrightarrow>
      0 < d \<and> (\<forall>e < d. fst (select_runnable s' (now + e)) = None) \<and>
      fst (select_runnable s' (now + d)) \<noteq> None"
proof -
  have inv: "sched_inv s" using assms(1,2) by (rule scheduler_runs.reachable_inv)
  have c: "us_cursor s < length (us_slots s)" using inv by (simp add: sched_inv_def slot_bounds_def)
  note s' = select_none_state [OF c assms(3)]
  have c': "us_cursor s' < length (us_slots s')" using c s' by simp
  have "wake_slot now (wake_slot now sl) = wake_slot now sl" for sl
    by (auto simp: wake_slot_def split: user_thread_state.split)
  then have "wake_expired s' now = s'" using s' by (simp add: wake_expired_def)
  moreover have "fst (select_runnable s now) = None" using assms(3) by simp
  ultimately have "fst (select_runnable s' now) = None"
    using s' c by (simp add: select_runnable_def select_runnable_prefer_def Let_def del: upt_Suc)
  then have nr: "\<not> has_state s' UT_Runnable" and late: "\<And>w. has_state s' (UT_Sleeping w) \<Longrightarrow> now < w"
    unfolding select_none_iff [OF c'] by blast+
  show "ticks_until_wake s' now = None \<longleftrightarrow> (\<forall>t w. thread_state s' t \<noteq> Some (UT_Sleeping w))"
    unfolding ticks_until_wake_iff has_state_def by blast
  assume "ticks_until_wake s' now = Some d"
  then obtain w where w: "has_state s' (UT_Sleeping w)" "d = saturating_sub w now"
    and m: "\<And>v. has_state s' (UT_Sleeping v) \<Longrightarrow> d \<le> saturating_sub v now"
    unfolding ticks_until_wake_iff by blast
  have d: "unat d = unat w - unat now" "unat now < unat w" "now + d = w"
    using w(2) late [OF w(1)]
    by (simp_all add: unat_saturating_sub word_less_nat_alt saturating_sub_def unat_sub word_le_nat_alt)
  have e: "now + e < v" if e: "e < d" and v: "has_state s' (UT_Sleeping v)" for e v
  proof -
    have "unat e < unat v - unat now"
      using e m [OF v] by (simp add: unat_saturating_sub word_less_nat_alt word_le_nat_alt)
    then have "unat now + unat e < unat v" by simp
    then show ?thesis using unsigned_less [of v] by (simp add: word_less_nat_alt unat_word_ariths)
  qed
  have "0 < d" using d by (simp add: word_less_nat_alt)
  then show "0 < d \<and> (\<forall>e < d. fst (select_runnable s' (now + e)) = None) \<and>
      fst (select_runnable s' (now + d)) \<noteq> None"
    unfolding select_none_iff [OF c'] using nr e w(1) d(3) by (metis less_irrefl)
qed

text \<open>C36. The idle loop sleeps exactly long enough. When a selection finds no thread to run,
  \<open>ticks_until_wake\<close> is \<open>None\<close> exactly if no thread sleeps, and otherwise a positive number of
  ticks: a selection before they have passed still finds nothing and a selection after them finds
  a thread, whose deadline is then reached.\<close>

theorem idle_wait_is_exact:
  assumes "sched_initial s0" and "sched_step\<^sup>*\<^sup>* s0 s"
    and "select_runnable s now = (None, s')"
  shows "(ticks_until_wake s' now = None \<longleftrightarrow> (\<forall>t w. thread_state s' t \<noteq> Some (UT_Sleeping w))) \<and>
    (ticks_until_wake s' now = Some d \<longrightarrow>
      0 < d \<and> (\<forall>e < d. fst (select_runnable s' (now + e)) = None) \<and>
      fst (select_runnable s' (now + d)) \<noteq> None)"
  using idle_wait_bounds [OF assms] by blast

theorem idle_wait_is_exact_witness:
  "(let s = snd (sleep_current (threads_new 4) 9 2) in
    fst (select_runnable s 2) = None \<and> ticks_until_wake s 2 = Some 7 \<and>
    fst (select_runnable s 8) = None \<and> fst (select_runnable s 9) \<noteq> None)"
proof -
  let ?s = "snd (sleep_current (threads_new 4) 9 2)"
  have r: "sched_step\<^sup>*\<^sup>* (threads_new 4) ?s" using sched_step.sleeps by (rule r_into_rtranclp)
  have x: "select_runnable ?s 2 = (None, ?s)" by code_simp
  have t: "ticks_until_wake ?s 2 = Some 7" by code_simp
  note w = idle_wait_is_exact [OF sample_initial r x, THEN conjunct2, rule_format, OF t]
  have "(6 :: u64) < 7" by simp
  with w have "fst (select_runnable ?s (2 + 6)) = None" "fst (select_runnable ?s (2 + 7)) \<noteq> None" by blast+
  then show ?thesis using x t by (simp add: Let_def)
qed

end
