(* ===== verification/Bytes.thy ===== *)
theory Bytes
  imports Prelude
begin

text \<open>
  Byte buffers: slices and \<open>copy_from_slice\<close> on fixed arrays, the little-endian conversions
  \<open>to_le_bytes\<close> and \<open>from_le_bytes\<close> of the unsigned integers, and the CRC-32 checksum that the
  boot records carry (\<open>crc32\<close> of \<open>nagi-bootinfo\<close> and of \<open>loader/src/ab.rs\<close>, which are the
  same routine). The lemmas give the round trips of the conversions, the linearity and injectivity
  of the checksum step, and that the checksum is the CRC-32 that IEEE 802.3 defines by polynomial division.
\<close>

section \<open>Slices\<close>

definition slice :: "nat \<Rightarrow> nat \<Rightarrow> 'a list \<Rightarrow> 'a list" where
  "slice a b xs = take (b - a) (drop a xs)"

definition put_bytes :: "'a list \<Rightarrow> nat \<Rightarrow> 'a list \<Rightarrow> 'a list" where
  "put_bytes xs offset ys = take offset xs @ ys @ drop (offset + length ys) xs"

lemma length_slice [simp]: "length (slice a b xs) = min (b - a) (length xs - a)"
  by (simp add: slice_def)

lemma nth_slice: "i < b - a \<Longrightarrow> a + i < length xs \<Longrightarrow> slice a b xs ! i = xs ! (a + i)"
  by (simp add: slice_def)

lemma length_put_bytes [simp]: "offset + length ys \<le> length xs \<Longrightarrow> length (put_bytes xs offset ys) = length xs"
  by (simp add: put_bytes_def)

lemma nth_put_bytes:
  assumes "offset + length ys \<le> length xs" and "i < length xs"
  shows "put_bytes xs offset ys ! i =
    (if offset \<le> i \<and> i < offset + length ys then ys ! (i - offset) else xs ! i)"
  using assms by (auto simp: put_bytes_def nth_append min_def)

lemma slice_eq_iff:
  assumes "b \<le> length xs" and "length ys = b - a"
  shows "slice a b xs = ys \<longleftrightarrow> (\<forall>i < b - a. xs ! (a + i) = ys ! i)"
  using assms by (auto simp: list_eq_iff_nth_eq slice_def)

lemma slice_append: "a \<le> b \<Longrightarrow> b \<le> c \<Longrightarrow> slice a b xs @ slice b c xs = slice a c xs"
  using take_add [of "b - a" "c - b" "drop a xs"] by (simp add: slice_def)

lemma slice_one: "a < length xs \<Longrightarrow> slice a (Suc a) xs = [xs ! a]"
  by (simp add: slice_def take_Suc_conv_app_nth)

lemma slice_all: "slice 0 (length xs) xs = xs"
  by (simp add: slice_def)

lemma slice_left: "b \<le> length xs \<Longrightarrow> slice a b (xs @ ys) = slice a b xs"
  by (simp add: slice_def)

lemma slice_right: "slice (length xs + a) (length xs + b) (xs @ ys) = slice a b ys"
  by (simp add: slice_def)

section \<open>Little-endian integers\<close>

definition to_le_bytes :: "'a::len word \<Rightarrow> u8 list" where
  "to_le_bytes w = map (\<lambda>i. ucast (drop_bit (8 * i) w)) [0..<LENGTH('a) div 8]"

fun from_le_bytes :: "u8 list \<Rightarrow> 'a::len word" where
  "from_le_bytes [] = 0"
| "from_le_bytes (b # bs) = ucast b OR push_bit 8 (from_le_bytes bs)"

lemma length_to_le_bytes [simp]: "length (to_le_bytes (w :: 'a::len word)) = LENGTH('a) div 8"
  by (simp add: to_le_bytes_def)

lemma bit_from_le_bytes:
  "bit (from_le_bytes bs :: 'a::len word) k \<longleftrightarrow>
     k < LENGTH('a) \<and> k < 8 * length bs \<and> bit (bs ! (k div 8)) (k mod 8)"
proof (induction bs arbitrary: k)
  case (Cons b bs)
  show ?case
  proof (cases "k < 8")
    case True
    then show ?thesis by (auto simp: bit_simps)
  next
    case False
    then have "k div 8 = Suc ((k - 8) div 8)" "k mod 8 = (k - 8) mod 8"
      using le_div_geq [of 8 k] le_mod_geq [of 8 k] by simp_all
    then show ?thesis using False bit_imp_le_length [of b k]
      by (auto simp: bit_simps Cons)
  qed
qed simp

lemma bit_to_le_bytes:
  "i < LENGTH('a) div 8 \<Longrightarrow> bit (to_le_bytes (w :: 'a::len word) ! i) j \<longleftrightarrow> j < 8 \<and> bit w (8 * i + j)"
  by (auto simp: to_le_bytes_def bit_simps)

lemma from_to_le_bytes:
  assumes "8 dvd LENGTH('a)"
  shows "from_le_bytes (to_le_bytes w) = (w :: 'a::len word)"
proof (rule bit_word_eqI)
  fix k assume k: "k < LENGTH('a)"
  obtain n where n: "LENGTH('a) = 8 * n" using assms by (auto simp: dvd_def)
  then have "k div 8 < LENGTH('a) div 8" using k by (simp add: less_mult_imp_div_less mult.commute)
  then show "bit (from_le_bytes (to_le_bytes w) :: 'a word) k = bit w k"
    using k n bit_to_le_bytes [of "k div 8" w "k mod 8"] by (simp add: bit_from_le_bytes)
qed

lemma to_from_le_bytes:
  assumes "8 * length bs = LENGTH('a)"
  shows "to_le_bytes (from_le_bytes bs :: 'a::len word) = bs"
proof (rule nth_equalityI)
  have l: "LENGTH('a) div 8 = length bs" using assms by simp
  then show "length (to_le_bytes (from_le_bytes bs :: 'a word)) = length bs" by simp
  fix i assume "i < length (to_le_bytes (from_le_bytes bs :: 'a word))"
  then have i: "i < length bs" using l by simp
  show "to_le_bytes (from_le_bytes bs :: 'a word) ! i = bs ! i"
  proof (rule bit_word_eqI)
    fix j assume "j < LENGTH(8)"
    then have j: "j < 8" by simp
    then have "8 * i + j < LENGTH('a)" using i assms by simp
    then show "bit (to_le_bytes (from_le_bytes bs :: 'a word) ! i) j = bit (bs ! i) j"
      using i j l assms by (simp add: bit_to_le_bytes bit_from_le_bytes)
  qed
qed

lemma from_le_bytes_eq_iff:
  assumes "8 * length bs = LENGTH('a)"
  shows "from_le_bytes bs = (w :: 'a::len word) \<longleftrightarrow> bs = to_le_bytes w"
  using assms to_from_le_bytes [OF assms] from_to_le_bytes [of w] by (metis dvd_triv_left)

lemma to_le_bytes_inj:
  assumes "8 dvd LENGTH('a)"
  shows "to_le_bytes x = to_le_bytes y \<longleftrightarrow> x = (y :: 'a::len word)"
  using from_to_le_bytes [OF assms, of x] from_to_le_bytes [OF assms, of y] by metis

section \<open>The checksum\<close>

definition crc_bit :: "u32 \<Rightarrow> u32" where
  "crc_bit crc = (let mask = 0 - (crc AND 1) in drop_bit 1 crc XOR (0xedb88320 AND mask))"

definition crc_byte :: "u32 \<Rightarrow> u8 \<Rightarrow> u32" where
  "crc_byte crc byte = (crc_bit ^^ 8) (crc XOR ucast byte)"

definition crc32 :: "u8 list \<Rightarrow> u32" where
  "crc32 bytes = NOT (foldl crc_byte (NOT 0) bytes)"

lemma crc_bit_eq: "crc_bit crc = (if odd crc then drop_bit 1 crc XOR 0xedb88320 else drop_bit 1 crc)"
  by (simp add: crc_bit_def Let_def and_one_eq odd_iff_mod_2_eq_one)

lemma xor_cancel [simp]: "a XOR (a XOR b) = (b :: 'a::len word)"
  by (simp flip: xor.assoc)

lemma crc_bit_xor: "crc_bit (x XOR y) = crc_bit x XOR crc_bit y"
  by (cases "odd x"; cases "odd y")
    (simp_all add: crc_bit_eq drop_bit_xor even_xor_iff xor.assoc xor.commute xor.left_commute)

lemma crc_bit_eq_0:
  assumes "crc_bit x = 0"
  shows "x = 0"
proof -
  have "even x"
  proof (rule ccontr)
    assume "odd x"
    then have "drop_bit 1 x XOR 0xedb88320 = 0" using assms by (simp add: crc_bit_eq)
    then have "bit (drop_bit 1 x XOR (0xedb88320 :: u32)) 31 = False" by simp
    then show False using bit_imp_le_length [of x 32] by (auto simp: bit_simps)
  qed
  then have z: "drop_bit 1 x = 0" using assms by (simp add: crc_bit_eq)
  have "bit x (Suc n) = False" for n using arg_cong [OF z, of "\<lambda>w. bit w n"] by (simp add: bit_simps)
  then have "\<not> bit x n" for n using \<open>even x\<close> by (cases n) (simp_all add: bit_0)
  then show ?thesis by (auto intro: bit_word_eqI)
qed

lemma crc_bit_pow_xor: "(crc_bit ^^ n) (x XOR y) = (crc_bit ^^ n) x XOR (crc_bit ^^ n) y"
  by (induction n) (simp_all add: crc_bit_xor)

lemma crc_bit_pow_eq_0: "(crc_bit ^^ n) x = 0 \<Longrightarrow> x = 0"
  by (induction n) (auto dest: crc_bit_eq_0)

lemma xor_eq_0_iff: "x XOR y = 0 \<longleftrightarrow> x = (y :: 'a::len word)"
  by (metis xor_cancel xor.right_neutral xor_self_eq)

lemma crc_bit_pow_inj: "(crc_bit ^^ n) x = (crc_bit ^^ n) y \<Longrightarrow> x = y"
  using crc_bit_pow_eq_0 [of n "x XOR y"] by (simp add: crc_bit_pow_xor xor_eq_0_iff)

lemma crc_bit_pow_shift:
  assumes "take_bit n x = 0"
  shows "(crc_bit ^^ n) x = drop_bit n x"
  using assms
proof (induction n)
  case (Suc n)
  have "\<not> bit x k" if "k < Suc n" for k 
    using arg_cong [OF Suc.prems, of "\<lambda>w. bit w k"] that by (simp add: bit_take_bit_iff)
  then have "take_bit n x = 0" "\<not> bit x n" by (auto intro!: bit_word_eqI simp: bit_take_bit_iff)
  then have "(crc_bit ^^ n) x = drop_bit n x" "even (drop_bit n x)"
    using Suc.IH by (simp_all add: even_drop_bit_iff_not_bit)
  then show ?case by (simp add: crc_bit_eq [of "drop_bit n x"] drop_bit_drop_bit)
qed simp

lemma crc_byte_inj: "crc_byte c b = crc_byte c' b \<Longrightarrow> c = c'"
  unfolding crc_byte_def by (drule crc_bit_pow_inj) (metis xor_cancel xor.commute)

lemma crc_byte_inj_byte: "crc_byte c b = crc_byte c b' \<Longrightarrow> b = b'"
proof -
  assume "crc_byte c b = crc_byte c b'"
  then have "c XOR ucast b = c XOR ucast b'" unfolding crc_byte_def by (rule crc_bit_pow_inj)
  then have e: "ucast b = (ucast b' :: u32)" by (metis xor_cancel)
  have "bit b n = bit b' n" if "n < 8" for n using arg_cong [OF e, of "\<lambda>w. bit w n"] that by (simp add: bit_simps)
  then show "b = b'" by (auto intro: bit_word_eqI)
qed

lemma crc_fold_inj: "foldl crc_byte c bs = foldl crc_byte c' bs \<Longrightarrow> c = c'"
  by (induction bs arbitrary: c c') (auto dest: crc_byte_inj)

text \<open>A record is sealed by the checksum of its body, stored after it.\<close>

definition sealed :: "u8 list \<Rightarrow> u8 list" where
  "sealed body = body @ to_le_bytes (crc32 body)"

lemma length_sealed [simp]: "length (sealed body) = length body + 4"
  by (simp add: sealed_def)

lemma sealed_iff:
  assumes "length bs = n + 4"
  shows "crc32 (take n bs) = from_le_bytes (slice n (n + 4) bs) \<longleftrightarrow> bs = sealed (take n bs)"
proof -
  have "length (slice n (n + 4) bs) = 4" using assms by simp
  then have "crc32 (take n bs) = from_le_bytes (slice n (n + 4) bs) \<longleftrightarrow>
      slice n (n + 4) bs = to_le_bytes (crc32 (take n bs))"
    using from_le_bytes_eq_iff [of "slice n (n + 4) bs" "crc32 (take n bs)"] by auto
  moreover have "bs = take n bs @ slice n (n + 4) bs" using assms by (simp add: slice_def)
  ultimately show ?thesis unfolding sealed_def by (metis same_append_eq)
qed

text \<open>A change of one byte changes the checksum.\<close>

lemma crc32_detects_byte:
  assumes "i < length bs" and "b \<noteq> bs ! i"
  shows "crc32 (bs[i := b]) \<noteq> crc32 bs"
proof
  assume "crc32 (bs[i := b]) = crc32 bs"
  moreover have "bs = take i bs @ bs ! i # drop (Suc i) bs" using assms(1) by (rule id_take_nth_drop)
  ultimately have "foldl crc_byte (NOT 0) (take i bs @ b # drop (Suc i) bs) =
      foldl crc_byte (NOT 0) (take i bs @ bs ! i # drop (Suc i) bs)"
    using assms(1) by (simp add: crc32_def upd_conv_take_nth_drop)
  then have "crc_byte (foldl crc_byte (NOT 0) (take i bs)) b = crc_byte (foldl crc_byte (NOT 0) (take i bs)) (bs ! i)"
    by (simp add: crc_fold_inj)
  then show False using crc_byte_inj_byte assms(2) by blast
qed

lemma sealed_detects_byte:
  assumes "i < length (sealed body)" and "b \<noteq> sealed body ! i"
  shows "(sealed body)[i := b] \<noteq> sealed (take (length body) ((sealed body)[i := b]))"
proof (cases "i < length body")
  case True
  then have "(sealed body)[i := b] = body[i := b] @ to_le_bytes (crc32 body)"
    by (simp add: sealed_def list_update_append)
  moreover have "to_le_bytes (crc32 body) \<noteq> to_le_bytes (crc32 (body[i := b]))"
    using crc32_detects_byte [OF True, of b] assms(2) True by (simp add: to_le_bytes_inj sealed_def nth_append)
  ultimately show ?thesis by (simp add: sealed_def)
next
  case False
  then have "take (length body) ((sealed body)[i := b]) = body"
    by (simp add: sealed_def take_update_cancel)
  then show ?thesis using assms by (metis nth_list_update_eq)
qed

section \<open>The frame check sequence\<close>

text \<open>The reference for the checksum is its definition by polynomial division. A polynomial over the
  two-element field is the list of its coefficients, from the highest power down. The remainder is that of
  long division: a leading coefficient is cleared by subtracting the divisor.\<close>

definition add_prefix :: "bool list \<Rightarrow> bool list \<Rightarrow> bool list" where
  "add_prefix ps xs = map2 (\<noteq>) ps (take (length ps) xs) @ drop (length ps) xs"

function poly_remainder :: "bool list \<Rightarrow> bool list \<Rightarrow> bool list" where
  "poly_remainder g [] = []"
| "poly_remainder g (x # xs) =
     (if length (x # xs) < length g then x # xs
      else poly_remainder g (if x then add_prefix (tl g) xs else xs))"
  by pat_completeness auto
termination
  by (relation "measure (\<lambda>(g, xs). length xs)") (auto simp: add_prefix_def)

text \<open>The generator of IEEE 802.3.\<close>

definition ieee_generator :: "bool list" where
  "ieee_generator = map (\<lambda>e. e \<in> {32, 26, 23, 22, 16, 12, 11, 10, 8, 7, 5, 4, 2, 1, 0}) (rev [0..<33])"

text \<open>The bits of a message in the order of transmission, the low bit of every byte first.\<close>

definition word_bits :: "'a::len word \<Rightarrow> bool list" where
  "word_bits w = map (bit w) [0..<LENGTH('a)]"

definition message_bits :: "u8 list \<Rightarrow> bool list" where
  "message_bits bytes = concat (map word_bits bytes)"

text \<open>The first 32 bits are complemented, 32 zeros are appended, and the remainder is complemented.\<close>

definition frame_check_sequence :: "u8 list \<Rightarrow> bool list" where
  "frame_check_sequence bytes =
     map Not (poly_remainder ieee_generator
       (add_prefix (replicate 32 True) (message_bits bytes @ replicate 32 False)))"

lemma length_add_prefix [simp]: "length ps \<le> length xs \<Longrightarrow> length (add_prefix ps xs) = length xs"
  by (simp add: add_prefix_def)

lemma nth_add_prefix:
  assumes "length ps \<le> length xs" and "i < length xs"
  shows "add_prefix ps xs ! i = (if i < length ps then ps ! i \<noteq> xs ! i else xs ! i)"
  using assms by (auto simp: add_prefix_def nth_append)

lemma length_word_bits [simp]: "length (word_bits (w :: 'a::len word)) = LENGTH('a)"
  by (simp add: word_bits_def)

lemma nth_word_bits [simp]: "i < LENGTH('a) \<Longrightarrow> word_bits (w :: 'a::len word) ! i = bit w i"
  by (simp add: word_bits_def)

lemma generator_bits: "length ieee_generator = 33" "tl ieee_generator = word_bits (0xedb88320 :: u32)"
  by code_simp+

text \<open>One bit of the message: the register absorbs it and is divided once.\<close>

lemma divide_step:
  assumes "32 \<le> length ys"
  shows "poly_remainder ieee_generator (add_prefix (word_bits c) (d # ys)) =
    poly_remainder ieee_generator (add_prefix (word_bits (crc_bit (c XOR of_bool d))) ys)"
proof -
  let ?h = "odd c \<noteq> d"
  let ?xs = "add_prefix (word_bits (drop_bit 1 c)) ys"
  have "add_prefix (word_bits c) (d # ys) = ?h # ?xs"
  proof (rule nth_equalityI)
    fix i assume "i < length (add_prefix (word_bits c) (d # ys))"
    then have i: "i < length (d # ys)" using assms by simp
    show "add_prefix (word_bits c) (d # ys) ! i = (?h # ?xs) ! i"
    proof (cases i)
      case 0
      then show ?thesis using assms by (simp add: nth_add_prefix bit_0)
    next
      case (Suc j)
      have "\<not> bit c 32" using bit_imp_le_length [of c 32] by auto
      then show ?thesis using assms i Suc less_SucE [of j 31]
        by (cases "j = 31") (auto simp: nth_add_prefix bit_drop_bit_eq)
    qed
  qed (use assms in simp)
  moreover have "add_prefix (tl ieee_generator) ?xs = add_prefix (word_bits (drop_bit 1 c XOR 0xedb88320)) ys"
    unfolding generator_bits(2)
    by (rule nth_equalityI) (use assms in \<open>auto simp: nth_add_prefix bit_xor_iff\<close>)
  moreover have "odd (c XOR of_bool d) \<longleftrightarrow> ?h" "drop_bit 1 (c XOR of_bool d) = drop_bit 1 c"
    by (auto simp: even_xor_iff drop_bit_xor)
  ultimately show ?thesis using assms by (simp add: crc_bit_eq generator_bits(1))
qed

lemma divide_byte:
  assumes "32 \<le> length ys"
  shows "poly_remainder ieee_generator (add_prefix (word_bits c) (word_bits b @ ys)) =
    poly_remainder ieee_generator (add_prefix (word_bits (crc_byte c b)) ys)"
proof -
  have steps: "poly_remainder ieee_generator (add_prefix (word_bits c) (ds @ ys)) =
      poly_remainder ieee_generator (add_prefix (word_bits (foldl (\<lambda>c d. crc_bit (c XOR of_bool d)) c ds)) ys)" for ds c
    using assms by (induction ds arbitrary: c) (simp_all add: divide_step)
  have "foldl (\<lambda>c d. crc_bit (c XOR of_bool d)) c (map (bit b) [0..<n]) =
      (crc_bit ^^ n) (c XOR take_bit n (ucast b))" for n
  proof (induction n)
    case (Suc n)
    let ?d = "of_bool (bit b n) :: u32"
    have "(crc_bit ^^ n) (push_bit n ?d) = ?d" if "n < 32"
      using that by (subst crc_bit_pow_shift) (auto intro!: bit_word_eqI simp: bit_simps)
    moreover have "?d = 0" "push_bit n ?d = 0" if "\<not> n < 32" using that bit_imp_le_length [of b n] by auto
    moreover have "(crc_bit ^^ n) 0 = 0" using crc_bit_pow_shift [of n 0] by simp
    ultimately have d: "(crc_bit ^^ n) (push_bit n ?d) = ?d" by (cases "n < 32") simp_all
    have "take_bit (Suc n) (ucast b :: u32) = take_bit n (ucast b) XOR push_bit n ?d"
      by (rule bit_word_eqI) (auto simp: bit_simps less_Suc_eq)
    then have "c XOR take_bit (Suc n) (ucast b) = (c XOR take_bit n (ucast b)) XOR push_bit n ?d"
      by (simp add: xor.assoc)
    then show ?case using Suc d by (simp add: crc_bit_pow_xor crc_bit_xor)
  qed simp
  moreover have "take_bit 8 (ucast b :: u32) = ucast b"
    by (rule bit_word_eqI) (use bit_imp_le_length [of b] in \<open>auto simp: bit_simps\<close>)
  ultimately have "foldl (\<lambda>c d. crc_bit (c XOR of_bool d)) c (word_bits b) = crc_byte c b"
    by (simp add: word_bits_def crc_byte_def)
  then show ?thesis using steps [of c "word_bits b"] by simp
qed

lemma divide_message:
  "poly_remainder ieee_generator (add_prefix (word_bits c) (message_bits bytes @ replicate 32 False)) =
    word_bits (foldl crc_byte c bytes)"
proof (induction bytes arbitrary: c)
  case Nil
  have "add_prefix (word_bits c) (replicate 32 False) = word_bits c"
    by (rule nth_equalityI) (simp_all add: nth_add_prefix)
  moreover have "poly_remainder ieee_generator xs = xs" if "length xs = 32" for xs
    using that by (cases xs) (simp_all add: generator_bits(1))
  ultimately show ?case by (simp add: message_bits_def)
next
  case (Cons b bytes)
  then show ?case using divide_byte [of "message_bits bytes @ replicate 32 False" c b]
    by (simp add: message_bits_def)
qed

section \<open>Properties\<close>

text \<open>C40. The checksum is the CRC-32 of IEEE 802.3. The bits of \<open>crc32\<close>, low bit first, are the frame check
  sequence of the message: the complement of the remainder that long division by the standard's generator
  polynomial leaves of the message, low bit of each byte first, with its first 32 bits complemented and
  32 zeros appended.\<close>

theorem crc32_is_frame_check_sequence:
  "map (bit (crc32 bytes)) [0..<32] = frame_check_sequence bytes"
proof -
  have "word_bits (NOT 0 :: u32) = replicate 32 True" by (rule nth_equalityI) (simp_all add: bit_not_iff)
  then show ?thesis using divide_message [of "NOT 0" bytes]
    by (simp add: frame_check_sequence_def crc32_def word_bits_def bit_not_iff)
qed

end
