(* ===== verification/Boot_Info.thy ===== *)
theory Boot_Info
  imports Bytes
begin

text \<open>
  The boot contract between loader and kernel (\<open>crates/nagi-bootinfo/src/lib.rs\<close>): the conversion of
  the firmware clock to Unix time, the \<open>BootInfo\<close> structure with its validation, the check that
  the firmware's variable writer lies in runtime code, and the two one-shot records that the kernel
  writes for the loader. The lemmas compare the clock conversion with counting days and give
  the records' codecs. Memory that the code reads through a raw pointer is a parameter.
\<close>

section \<open>The firmware clock\<close>

definition REALTIME_UNAVAILABLE_NS :: u64 where "REALTIME_UNAVAILABLE_NS = - 1"

record firmware_date_time =
  ft_year :: u16
  ft_month :: u8
  ft_day :: u8
  ft_hour :: u8
  ft_minute :: u8
  ft_second :: u8
  ft_nanosecond :: u32
  ft_time_zone :: "16 word option"
  ft_daylight_flags :: u8

definition is_leap_year :: "u16 \<Rightarrow> bool" where
  "is_leap_year year \<longleftrightarrow>
     unat year mod 4 = 0 \<and> (unat year mod 100 \<noteq> 0 \<or> unat year mod 400 = 0)"

text \<open>The arithmetic of the conversion is on \<open>u64\<close> values that are far below the bounds of the type;
  the final multiplication is not, and is checked.\<close>

definition days_before_year :: "u16 \<Rightarrow> nat" where
  "days_before_year year =
     (let y = unat year - 1; epoch_year = 1969
      in y * 365 + y div 4 - y div 100 + y div 400
         - (epoch_year * 365 + epoch_year div 4 - epoch_year div 100 + epoch_year div 400))"

definition days_before_month :: "u16 \<Rightarrow> u8 \<Rightarrow> nat" where
  "days_before_month year month =
     [0, 31, 59, 90, 120, 151, 181, 212, 243, 273, 304, 334] ! (unat month - 1) +
     of_bool (2 < month \<and> is_leap_year year)"

definition month_days :: "u16 \<Rightarrow> u8 \<Rightarrow> u8 option" where
  "month_days year month =
     (if month \<in> {1, 3, 5, 7, 8, 10, 12} then Some 31
      else if month \<in> {4, 6, 9, 11} then Some 30
      else if month = 2 \<and> is_leap_year year then Some 29
      else if month = 2 then Some 28
      else None)"

definition I64_MAX :: int where "I64_MAX = 2 ^ 63 - 1"
definition I64_MIN :: int where "I64_MIN = - (2 ^ 63)"

definition firmware_time_to_unix_ns :: "firmware_date_time \<Rightarrow> u64" where
  "firmware_time_to_unix_ns t =
     (if \<not> (1970 \<le> ft_year t \<and> ft_year t \<le> 9999) \<or> \<not> (1 \<le> ft_month t \<and> ft_month t \<le> 12) \<or>
         23 < ft_hour t \<or> 59 < ft_minute t \<or> 59 < ft_second t \<or> 999999999 < ft_nanosecond t \<or>
         ft_daylight_flags t \<noteq> 0 \<or>
         (case ft_time_zone t of None \<Rightarrow> False | Some offset \<Rightarrow> \<not> (- 1440 \<le> sint offset \<and> sint offset \<le> 1440))
      then REALTIME_UNAVAILABLE_NS
      else
     (case month_days (ft_year t) (ft_month t) of
        None \<Rightarrow> REALTIME_UNAVAILABLE_NS
      | Some days_in_month \<Rightarrow>
     if ft_day t = 0 \<or> days_in_month < ft_day t then REALTIME_UNAVAILABLE_NS
     else
     let days = days_before_year (ft_year t) + days_before_month (ft_year t) (ft_month t) + unat (ft_day t - 1);
         seconds = days * 86400 + unat (ft_hour t) * 3600 + unat (ft_minute t) * 60 + unat (ft_second t);
         offset_seconds = (case ft_time_zone t of None \<Rightarrow> 0 | Some offset \<Rightarrow> sint offset) * 60;
         utc = int seconds - offset_seconds
     in if I64_MAX < int seconds \<or> utc < I64_MIN \<or> I64_MAX < utc \<or> utc < 0 then REALTIME_UNAVAILABLE_NS
        else
          (case checked_mul (word_of_int utc) 1000000000 of
             None \<Rightarrow> REALTIME_UNAVAILABLE_NS
           | Some nanoseconds \<Rightarrow>
               (case checked_add nanoseconds (ucast (ft_nanosecond t)) of
                  None \<Rightarrow> REALTIME_UNAVAILABLE_NS
                | Some result \<Rightarrow> result))))"

section \<open>The boot information\<close>

definition BOOT_INFO_MAGIC :: u64 where "BOOT_INFO_MAGIC = 0x4E414749424F4F54"
definition BOOT_INFO_VERSION :: u32 where "BOOT_INFO_VERSION = 5"
definition BOOT_CONTROL_UPDATE_STAGEABLE :: u8 where "BOOT_CONTROL_UPDATE_STAGEABLE = 1"
definition EFI_RUNTIME_SERVICES_CODE :: u32 where "EFI_RUNTIME_SERVICES_CODE = 5"
definition EFI_MEMORY_RUNTIME :: u64 where "EFI_MEMORY_RUNTIME = push_bit 63 1"
definition BOOT_PAGE_SIZE :: u64 where "BOOT_PAGE_SIZE = 4096"
definition MAX_MEMORY_MAP_DESCRIPTORS :: u64 where "MAX_MEMORY_MAP_DESCRIPTORS = 4096"

record memory_map_info =
  mm_address :: u64
  mm_entry_count :: u64
  mm_entry_size :: u64
  mm_entry_version :: u32
  mm_reserved :: u32

record memory_map_entry =
  me_memory_type :: u32
  me_reserved :: u32
  me_physical_start :: u64
  me_virtual_start :: u64
  me_page_count :: u64
  me_attributes :: u64

record framebuffer_info =
  fb_address :: u64
  fb_byte_size :: u64
  fb_width :: u32
  fb_height :: u32
  fb_pixels_per_scanline :: u32
  fb_pixel_format :: u32

record init_image_info =
  ii_address :: u64
  ii_size :: u64

record boot_control_info =
  bc_set_variable_address :: u64
  bc_journal_generation :: u64
  bc_slot :: u8
  bc_attempt :: u8
  bc_flags :: u8
  bc_reserved :: "u8 list"

record boot_info =
  bi_magic :: u64
  bi_version :: u32
  bi_size :: u32
  bi_memory_map :: memory_map_info
  bi_framebuffer :: framebuffer_info
  bi_acpi_rsdp :: u64
  bi_init_image :: init_image_info
  bi_realtime_epoch_ns :: u64
  bi_boot_control :: boot_control_info

text \<open>The sizes of the \<open>repr(C)\<close> structures, from their fields: every field is aligned to its size.\<close>

definition MEMORY_MAP_ENTRY_BYTES :: nat where "MEMORY_MAP_ENTRY_BYTES = 4 + 4 + 8 + 8 + 8 + 8"

definition BOOT_INFO_BYTES :: nat where
  "BOOT_INFO_BYTES = (8 + 4 + 4) + (8 + 8 + 8 + 4 + 4) + (8 + 8 + 4 + 4 + 4 + 4) + 8 + (8 + 8) + 8 +
     (8 + 8 + 1 + 1 + 1 + 5)"

datatype boot_info_error =
    BI_Null | BI_BadMagic | BI_UnsupportedVersion | BI_BadSize | BI_MissingMemoryMap
  | BI_BadMemoryMapStride | BI_MissingFramebuffer | BI_MissingAcpi | BI_MissingInitImage
  | BI_InvalidBootControl

definition boot_control_info_default :: boot_control_info where
  "boot_control_info_default =
     \<lparr>bc_set_variable_address = 0, bc_journal_generation = 0, bc_slot = 0, bc_attempt = 0, bc_flags = 0,
      bc_reserved = replicate 5 0\<rparr>"

definition is_empty_context :: "boot_control_info \<Rightarrow> bool" where
  "is_empty_context c \<longleftrightarrow> bc_set_variable_address c = 0 \<and> bc_journal_generation c = 0 \<and> bc_slot c = 0 \<and>
     bc_attempt c = 0 \<and> bc_flags c = 0 \<and> bc_reserved c = replicate 5 0"

definition is_trial :: "boot_control_info \<Rightarrow> bool" where
  "is_trial c \<longleftrightarrow> bc_set_variable_address c \<noteq> 0 \<and> bc_journal_generation c \<noteq> 0 \<and> bc_slot c \<le> 1 \<and>
     1 \<le> bc_attempt c \<and> bc_attempt c \<le> 3 \<and> bc_flags c = 0 \<and> bc_reserved c = replicate 5 0"

definition is_update_stageable :: "boot_control_info \<Rightarrow> bool" where
  "is_update_stageable c \<longleftrightarrow> bc_set_variable_address c \<noteq> 0 \<and> bc_slot c \<le> 1 \<and> bc_attempt c = 0 \<and>
     bc_flags c = BOOT_CONTROL_UPDATE_STAGEABLE \<and> bc_reserved c = replicate 5 0"

definition is_valid_context :: "boot_control_info \<Rightarrow> bool" where
  "is_valid_context c \<longleftrightarrow> is_empty_context c \<or> is_trial c \<or> is_update_stageable c"

definition boot_info_new :: boot_info where
  "boot_info_new =
     \<lparr>bi_magic = BOOT_INFO_MAGIC, bi_version = BOOT_INFO_VERSION, bi_size = word_of_nat BOOT_INFO_BYTES,
      bi_memory_map = \<lparr>mm_address = 0, mm_entry_count = 0, mm_entry_size = 0, mm_entry_version = 0,
        mm_reserved = 0\<rparr>,
      bi_framebuffer = \<lparr>fb_address = 0, fb_byte_size = 0, fb_width = 0, fb_height = 0,
        fb_pixels_per_scanline = 0, fb_pixel_format = 0\<rparr>,
      bi_acpi_rsdp = 0, bi_init_image = \<lparr>ii_address = 0, ii_size = 0\<rparr>,
      bi_realtime_epoch_ns = REALTIME_UNAVAILABLE_NS, bi_boot_control = boot_control_info_default\<rparr>"

definition boot_info_validate :: "boot_info \<Rightarrow> (boot_info_error, unit) result" where
  "boot_info_validate b =
     (let mm = bi_memory_map b; fb = bi_framebuffer b in
      if bi_magic b \<noteq> BOOT_INFO_MAGIC then Inl BI_BadMagic
      else if bi_version b \<noteq> BOOT_INFO_VERSION then Inl BI_UnsupportedVersion
      else if unat (bi_size b) \<noteq> BOOT_INFO_BYTES then Inl BI_BadSize
      else if mm_address mm = 0 \<or> mm_entry_count mm = 0 then Inl BI_MissingMemoryMap
      else if unat (mm_entry_size mm) < MEMORY_MAP_ENTRY_BYTES \<or> mm_entry_size mm AND 7 \<noteq> 0
        then Inl BI_BadMemoryMapStride
      else if fb_address fb = 0 \<or> fb_byte_size fb = 0 \<or> fb_width fb = 0 \<or> fb_height fb = 0 \<or>
        fb_pixels_per_scanline fb < fb_width fb then Inl BI_MissingFramebuffer
      else if bi_acpi_rsdp b = 0 then Inl BI_MissingAcpi
      else if \<not> is_valid_context (bi_boot_control b) then Inl BI_InvalidBootControl
      else Inr ())"

definition validate_for_user_bootstrap :: "boot_info \<Rightarrow> (boot_info_error, unit) result" where
  "validate_for_user_bootstrap b =
     (case boot_info_validate b of
        Inl e \<Rightarrow> Inl e
      | Inr _ \<Rightarrow>
          if ii_address (bi_init_image b) = 0 \<or> ii_size (bi_init_image b) = 0 then Inl BI_MissingInitImage
          else Inr ())"

text \<open>A null pointer is \<open>None\<close>.\<close>

definition boot_info_from_ptr :: "boot_info option \<Rightarrow> (boot_info_error, boot_info) result" where
  "boot_info_from_ptr ptr =
     (case ptr of
        None \<Rightarrow> Inl BI_Null
      | Some b \<Rightarrow> (case boot_info_validate b of Inl e \<Rightarrow> Inl e | Inr _ \<Rightarrow> Inr b))"

text \<open>The loop over the descriptors; \<open>read_entry\<close> is the descriptor at an address.\<close>

definition descriptor_covers :: "memory_map_entry \<Rightarrow> u64 \<Rightarrow> bool" where
  "descriptor_covers d writer \<longleftrightarrow>
     me_memory_type d = EFI_RUNTIME_SERVICES_CODE \<and> me_attributes d AND EFI_MEMORY_RUNTIME \<noteq> 0 \<and>
     (case checked_mul (me_page_count d) BOOT_PAGE_SIZE of
        None \<Rightarrow> False
      | Some bytes \<Rightarrow>
          (case checked_add (me_physical_start d) bytes of
             None \<Rightarrow> False
           | Some end_address \<Rightarrow> me_physical_start d \<le> writer \<and> writer < end_address))"

fun scan_descriptors :: "(u64 \<Rightarrow> memory_map_entry) \<Rightarrow> u64 \<Rightarrow> u64 \<Rightarrow> u64 \<Rightarrow> nat list \<Rightarrow> bool" where
  "scan_descriptors read_entry base stride writer [] = False"
| "scan_descriptors read_entry base stride writer (i # is) =
     (case checked_mul (word_of_nat i) stride of
        None \<Rightarrow> False
      | Some offset \<Rightarrow>
          (case checked_add base offset of
             None \<Rightarrow> False
           | Some address \<Rightarrow>
               descriptor_covers (read_entry address) writer \<or>
               scan_descriptors read_entry base stride writer is))"

definition boot_control_writer_is_runtime_code :: "(u64 \<Rightarrow> memory_map_entry) \<Rightarrow> boot_info \<Rightarrow> bool" where
  "boot_control_writer_is_runtime_code read_entry b =
     (let c = bi_boot_control b; mm = bi_memory_map b in
      if \<not> (is_trial c \<or> is_update_stageable c) \<or> mm_address mm = 0 \<or> mm_entry_count mm = 0 \<or>
         MAX_MEMORY_MAP_DESCRIPTORS < mm_entry_count mm \<or>
         unat (mm_entry_size mm) < MEMORY_MAP_ENTRY_BYTES \<or> mm_entry_size mm AND 7 \<noteq> 0
      then False
      else scan_descriptors read_entry (mm_address mm) (mm_entry_size mm) (bc_set_variable_address c)
             [0..<unat (mm_entry_count mm)])"

section \<open>The one-shot records\<close>

definition BOOT_STAGE_RECORD_SIZE :: nat where "BOOT_STAGE_RECORD_SIZE = 20"
definition BOOT_READY_RECORD_SIZE :: nat where "BOOT_READY_RECORD_SIZE = 20"

record boot_stage_record =
  sg_slot :: u8
  sg_journal_generation :: u64

record boot_ready_record =
  rd_slot :: u8
  rd_attempt :: u8
  rd_journal_generation :: u64

text \<open>The magic numbers are the bytes of \<open>NBST\<close> and \<open>NBRD\<close>.\<close>

definition STAGE_MAGIC :: "u8 list" where "STAGE_MAGIC = [0x4E, 0x42, 0x53, 0x54]"
definition STAGE_VERSION :: u8 where "STAGE_VERSION = 1"
definition READY_MAGIC :: "u8 list" where "READY_MAGIC = [0x4E, 0x42, 0x52, 0x44]"
definition READY_VERSION :: u8 where "READY_VERSION = 1"

definition stage_encode :: "boot_stage_record \<Rightarrow> u8 list option" where
  "stage_encode r =
     (if 1 < sg_slot r then None
      else
        let b1 = put_bytes (replicate BOOT_STAGE_RECORD_SIZE 0) 0 STAGE_MAGIC;
            b2 = b1[4 := STAGE_VERSION];
            b3 = b2[5 := sg_slot r];
            b4 = put_bytes b3 8 (to_le_bytes (sg_journal_generation r))
        in Some (put_bytes b4 16 (to_le_bytes (crc32 (take 16 b4)))))"

definition stage_decode :: "u8 list \<Rightarrow> boot_stage_record option" where
  "stage_decode bytes =
     (if length bytes \<noteq> BOOT_STAGE_RECORD_SIZE \<or> slice 0 4 bytes \<noteq> STAGE_MAGIC \<or> bytes ! 4 \<noteq> STAGE_VERSION \<or>
         slice 6 8 bytes \<noteq> [0, 0] \<or> crc32 (take 16 bytes) \<noteq> from_le_bytes (slice 16 20 bytes)
      then None
      else
        let r = \<lparr>sg_slot = bytes ! 5, sg_journal_generation = from_le_bytes (slice 8 16 bytes)\<rparr>
        in map_option (\<lambda>_. r) (stage_encode r))"

definition ready_encode :: "boot_ready_record \<Rightarrow> u8 list option" where
  "ready_encode r =
     (if 1 < rd_slot r \<or> \<not> (1 \<le> rd_attempt r \<and> rd_attempt r \<le> 3) \<or> rd_journal_generation r = 0 then None
      else
        let b1 = put_bytes (replicate BOOT_READY_RECORD_SIZE 0) 0 READY_MAGIC;
            b2 = b1[4 := READY_VERSION];
            b3 = b2[5 := rd_slot r];
            b4 = b3[6 := rd_attempt r];
            b5 = put_bytes b4 8 (to_le_bytes (rd_journal_generation r))
        in Some (put_bytes b5 16 (to_le_bytes (crc32 (take 16 b5)))))"

definition ready_decode :: "u8 list \<Rightarrow> boot_ready_record option" where
  "ready_decode bytes =
     (if length bytes \<noteq> BOOT_READY_RECORD_SIZE \<or> slice 0 4 bytes \<noteq> READY_MAGIC \<or> bytes ! 4 \<noteq> READY_VERSION \<or>
         bytes ! 7 \<noteq> 0 \<or> crc32 (take 16 bytes) \<noteq> from_le_bytes (slice 16 20 bytes)
      then None
      else
        let r = \<lparr>rd_slot = bytes ! 5, rd_attempt = bytes ! 6,
                 rd_journal_generation = from_le_bytes (slice 8 16 bytes)\<rparr>
        in map_option (\<lambda>_. r) (ready_encode r))"

section \<open>The codecs\<close>

text \<open>An encoded record is a sealed body of sixteen bytes.\<close>

definition record_body :: "u8 list \<Rightarrow> u8 \<Rightarrow> u8 \<Rightarrow> u8 \<Rightarrow> u64 \<Rightarrow> u8 list" where
  "record_body magic version slot attempt generation =
     magic @ [version, slot, attempt, 0] @ to_le_bytes generation"

lemma length_record_body [simp]:
  "length magic = 4 \<Longrightarrow> length (record_body magic version slot attempt generation) = 16"
  by (simp add: record_body_def)

lemma record_buffer:
  assumes "length g = 8"
  shows "put_bytes ((put_bytes (replicate 20 0) 0 [a, b, c, d])[4 := v, 5 := s, 6 := t]) 8 g =
      ([a, b, c, d, v, s, t, 0] @ g) @ replicate 4 (0 :: u8)"
    and "put_bytes ((put_bytes (replicate 20 0) 0 [a, b, c, d])[4 := v, 5 := s]) 8 g =
      ([a, b, c, d, v, s, 0, 0] @ g) @ replicate 4 (0 :: u8)"
proof -
  have "replicate 20 (0 :: u8) = [0, 0, 0, 0, 0, 0, 0, 0, 0, 0, 0, 0, 0, 0, 0, 0, 0, 0, 0, 0]" by code_simp
  then show "put_bytes ((put_bytes (replicate 20 0) 0 [a, b, c, d])[4 := v, 5 := s, 6 := t]) 8 g =
      ([a, b, c, d, v, s, t, 0] @ g) @ replicate 4 (0 :: u8)"
    and "put_bytes ((put_bytes (replicate 20 0) 0 [a, b, c, d])[4 := v, 5 := s]) 8 g =
      ([a, b, c, d, v, s, 0, 0] @ g) @ replicate 4 (0 :: u8)"
    using assms by (simp_all add: put_bytes_def numeral_eq_Suc)
qed

lemma seal_buffer:
  assumes "length body = 16"
  shows "put_bytes (body @ replicate 4 0) 16 (to_le_bytes (crc32 (take 16 (body @ replicate 4 0)))) = sealed body"
  using assms by (simp add: put_bytes_def sealed_def)

lemma stage_encode_eq:
  "stage_encode r = (if 1 < sg_slot r then None
     else Some (sealed (record_body STAGE_MAGIC STAGE_VERSION (sg_slot r) 0 (sg_journal_generation r))))"
proof -
  have "length (to_le_bytes (sg_journal_generation r)) = 8" by simp
  note b = record_buffer(2) [OF this]
  show ?thesis
    unfolding stage_encode_def Let_def BOOT_STAGE_RECORD_SIZE_def STAGE_MAGIC_def b
    by (subst seal_buffer) (simp_all add: record_body_def)
qed

lemma ready_encode_eq:
  "ready_encode r =
     (if 1 < rd_slot r \<or> \<not> (1 \<le> rd_attempt r \<and> rd_attempt r \<le> 3) \<or> rd_journal_generation r = 0 then None
      else Some (sealed (record_body READY_MAGIC READY_VERSION (rd_slot r) (rd_attempt r) (rd_journal_generation r))))"
proof -
  have "length (to_le_bytes (rd_journal_generation r)) = 8" by simp
  note b = record_buffer(1) [OF this]
  show ?thesis
    unfolding ready_encode_def Let_def BOOT_READY_RECORD_SIZE_def READY_MAGIC_def b
    by (subst seal_buffer) (simp_all add: record_body_def)
qed

lemma record_body_parts:
  assumes "length magic = 4" and "length bs = 20"
  shows "bs = sealed (record_body magic version slot attempt generation) \<longleftrightarrow>
    slice 0 4 bs = magic \<and> bs ! 4 = version \<and> bs ! 5 = slot \<and> bs ! 6 = attempt \<and> bs ! 7 = 0 \<and>
    from_le_bytes (slice 8 16 bs) = generation \<and> crc32 (take 16 bs) = from_le_bytes (slice 16 20 bs)"
proof -
  let ?body = "record_body magic version slot attempt generation"
  have one: "slice 4 5 bs = [bs ! 4]" "slice 5 6 bs = [bs ! 5]" "slice 6 7 bs = [bs ! 6]" "slice 7 8 bs = [bs ! 7]"
    using slice_one [of 4 bs] slice_one [of 5 bs] slice_one [of 6 bs] slice_one [of 7 bs] assms(2) by simp_all
  have "take 16 bs = slice 0 4 bs @ (slice 4 5 bs @ slice 5 6 bs @ slice 6 7 bs @ slice 7 8 bs) @ slice 8 16 bs"
    by (simp add: slice_append) (simp add: slice_def)
  then have parts: "take 16 bs = slice 0 4 bs @ [bs ! 4, bs ! 5, bs ! 6, bs ! 7] @ slice 8 16 bs"
    unfolding one by simp
  have gen: "from_le_bytes (slice 8 16 bs) = generation \<longleftrightarrow> slice 8 16 bs = to_le_bytes generation"
    using assms(2) by (intro from_le_bytes_eq_iff) simp
  have "take 16 bs = ?body \<longleftrightarrow> slice 0 4 bs = magic \<and> bs ! 4 = version \<and> bs ! 5 = slot \<and> bs ! 6 = attempt \<and>
      bs ! 7 = 0 \<and> from_le_bytes (slice 8 16 bs) = generation"
    unfolding parts gen record_body_def using assms by (subst append_eq_append_conv) auto
  moreover have "bs = sealed ?body \<longleftrightarrow> take 16 bs = ?body \<and> bs = sealed (take 16 bs)"
    using length_record_body [OF assms(1)] by (metis append_eq_conv_conj sealed_def)
  moreover have "crc32 (take 16 bs) = from_le_bytes (slice 16 20 bs) \<longleftrightarrow> bs = sealed (take 16 bs)"
    using sealed_iff [of bs 16] assms(2) by simp
  ultimately show ?thesis by blast
qed

lemma slice_pair: "b \<le> length bs \<Longrightarrow> b = a + 2 \<Longrightarrow> slice a b bs = [x, y] \<longleftrightarrow> bs ! a = x \<and> bs ! (a + 1) = y"
  by (subst slice_eq_iff) (auto simp: less_Suc_eq numeral_2_eq_2)

lemma stage_decode_iff:
  "stage_decode bs = Some r \<longleftrightarrow> sg_slot r \<le> 1 \<and>
     bs = sealed (record_body STAGE_MAGIC STAGE_VERSION (sg_slot r) 0 (sg_journal_generation r))"
proof (cases "length bs = 20")
  case True
  have z: "slice 6 8 bs = [0, 0] \<longleftrightarrow> bs ! 6 = 0 \<and> bs ! 7 = 0" by (subst slice_pair) (use True in simp_all)
  have "length STAGE_MAGIC = 4" by (simp add: STAGE_MAGIC_def)
  note p = record_body_parts [OF this True]
  have d: "stage_decode bs = Some r \<longleftrightarrow> (slice 0 4 bs = STAGE_MAGIC \<and> bs ! 4 = STAGE_VERSION \<and> (bs ! 6 = 0 \<and> bs ! 7 = 0) \<and>
      crc32 (take 16 bs) = from_le_bytes (slice 16 20 bs)) \<and> bs ! 5 \<le> 1 \<and>
      r = \<lparr>sg_slot = bs ! 5, sg_journal_generation = from_le_bytes (slice 8 16 bs)\<rparr>"
    unfolding z [symmetric] stage_decode_def stage_encode_eq Let_def BOOT_STAGE_RECORD_SIZE_def True
    by (auto simp: not_less)
  show ?thesis unfolding p d by (cases r) auto
next
  case False
  then show ?thesis by (auto simp: stage_decode_def BOOT_STAGE_RECORD_SIZE_def STAGE_MAGIC_def)
qed

lemma ready_decode_iff:
  "ready_decode bs = Some r \<longleftrightarrow>
     rd_slot r \<le> 1 \<and> 1 \<le> rd_attempt r \<and> rd_attempt r \<le> 3 \<and> rd_journal_generation r \<noteq> 0 \<and>
     bs = sealed (record_body READY_MAGIC READY_VERSION (rd_slot r) (rd_attempt r) (rd_journal_generation r))"
proof (cases "length bs = 20")
  case True
  have "length READY_MAGIC = 4" by (simp add: READY_MAGIC_def)
  note p = record_body_parts [OF this True]
  show ?thesis unfolding p ready_decode_def
    by (cases r) (auto simp: BOOT_READY_RECORD_SIZE_def True Let_def ready_encode_eq not_less)
next
  case False
  then show ?thesis by (auto simp: ready_decode_def BOOT_READY_RECORD_SIZE_def READY_MAGIC_def)
qed

interpretation stage_codec: codec stage_encode stage_decode
  by unfold_locales (auto simp: stage_decode_iff stage_encode_eq not_less split: if_splits)

interpretation ready_codec: codec ready_encode ready_decode
  by unfold_locales (auto simp: ready_decode_iff ready_encode_eq not_less split: if_splits)

section \<open>The clock counts days\<close>

text \<open>The reference: the days from the epoch to a date, counted year by year and month by month.\<close>

definition leap :: "nat \<Rightarrow> bool" where
  "leap y \<longleftrightarrow> 4 dvd y \<and> (\<not> 100 dvd y \<or> 400 dvd y)"

definition days_in_month :: "nat \<Rightarrow> nat \<Rightarrow> nat" where
  "days_in_month y m =
     (if m = 2 then 28 + of_bool (leap y) else if m \<in> {4, 6, 9, 11} then 30 else 31)"

definition day_number :: "nat \<Rightarrow> nat \<Rightarrow> nat \<Rightarrow> nat" where
  "day_number y m d =
     (\<Sum>k = 1970..<y. 365 + of_bool (leap k)) + (\<Sum>k = 1..<m. days_in_month y k) + (d - 1)"

definition valid_time :: "firmware_date_time \<Rightarrow> bool" where
  "valid_time t \<longleftrightarrow> unat (ft_year t) \<in> {1970..9999} \<and> unat (ft_month t) \<in> {1..12} \<and>
     unat (ft_day t) \<in> {1..days_in_month (unat (ft_year t)) (unat (ft_month t))} \<and>
     unat (ft_hour t) < 24 \<and> unat (ft_minute t) < 60 \<and> unat (ft_second t) < 60 \<and>
     unat (ft_nanosecond t) < 10 ^ 9 \<and> ft_daylight_flags t = 0 \<and>
     (case ft_time_zone t of None \<Rightarrow> True | Some offset \<Rightarrow> \<bar>sint offset\<bar> \<le> 1440)"

definition unix_seconds :: "firmware_date_time \<Rightarrow> int" where
  "unix_seconds t =
     int (day_number (unat (ft_year t)) (unat (ft_month t)) (unat (ft_day t)) * 86400 +
       unat (ft_hour t) * 3600 + unat (ft_minute t) * 60 + unat (ft_second t)) -
     (case ft_time_zone t of None \<Rightarrow> 0 | Some offset \<Rightarrow> sint offset) * 60"

definition unix_ns :: "firmware_date_time \<Rightarrow> int" where
  "unix_ns t = unix_seconds t * 10 ^ 9 + int (unat (ft_nanosecond t))"

lemma is_leap_year_iff: "is_leap_year y \<longleftrightarrow> leap (unat y)"
  by (simp add: is_leap_year_def leap_def dvd_eq_mod_eq_0)

lemma gregorian_step:
  "Suc n * 365 + Suc n div 4 - Suc n div 100 + Suc n div 400 =
     (n * 365 + n div 4 - n div 100 + n div 400) + (365 + of_bool (leap (Suc n)))"
proof -
  have s: "Suc n div k = n div k + of_bool (k dvd Suc n)" for k
    by (simp add: div_Suc dvd_eq_mod_eq_0)
  have d: "100 dvd Suc n \<Longrightarrow> 4 dvd Suc n" "400 dvd Suc n \<Longrightarrow> 100 dvd Suc n"
    by (rule dvd_trans [of _ 100], simp_all) (rule dvd_trans [of _ 400], simp_all)
  have "n div 100 \<le> n div 4" by (rule div_le_mono2) simp_all
  then show ?thesis using d unfolding s by (auto simp: leap_def algebra_simps)
qed

lemma days_before_year_eq:
  assumes "1970 \<le> unat year"
  shows "days_before_year year = (\<Sum>k = 1970..<unat year. 365 + of_bool (leap k))"
proof -
  define g where "g n = n * 365 + n div 4 - n div 100 + n div 400" for n :: nat
  have step: "g (Suc n) = g n + (365 + of_bool (leap (Suc n)))" for n unfolding g_def by (rule gregorian_step)
  have "g (1969 + n) = g 1969 + (\<Sum>k = 1970..<1970 + n. 365 + of_bool (leap k))" for n
  proof (induction n)
    case (Suc n)
    have "(\<Sum>k = 1970..<1970 + Suc n. 365 + of_bool (leap k) :: nat) =
        (\<Sum>k = 1970..<1970 + n. 365 + of_bool (leap k)) + (365 + of_bool (leap (1970 + n)))"
      unfolding add_Suc_right by (rule sum.atLeastLessThan_Suc) simp
    then show ?case using step [of "1969 + n"] Suc by simp
  qed simp
  note sum = this [of "unat year - 1970"]
  have "1969 + (unat year - 1970) = unat year - 1" "1970 + (unat year - 1970) = unat year" using assms by simp_all
  with sum have "g (unat year - 1) = g 1969 + (\<Sum>k = 1970..<unat year. 365 + of_bool (leap k))" by (simp only:)
  moreover have "days_before_year year = g (unat year - 1) - g 1969"
    unfolding days_before_year_def g_def Let_def by (rule refl)
  ultimately show ?thesis by simp
qed

lemma months: "{1..12 :: nat} = {1, 2, 3, 4, 5, 6, 7, 8, 9, 10, 11, 12}"
  by code_simp

lemma cumulative_days:
  assumes "m \<in> {1..12}"
  shows "[0, 31, 59, 90, 120, 151, 181, 212, 243, 273, 304, 334] ! (m - 1) + of_bool (2 < m \<and> leap y) =
    (\<Sum>k = 1..<m. days_in_month y k)"
  using assms unfolding months by (elim insertE emptyE; hypsubst) (simp_all add: days_in_month_def numeral_eq_Suc)

lemma days_before_month_eq:
  assumes "unat month \<in> {1..12}"
  shows "days_before_month year month = (\<Sum>k = 1..<unat month. days_in_month (unat year) k)"
proof -
  have "2 < month \<longleftrightarrow> 2 < unat month" by (simp add: word_less_nat_alt)
  then show ?thesis
    unfolding days_before_month_def is_leap_year_iff cumulative_days [OF assms, symmetric] by (simp only:)
qed

lemma month_days_eq:
  "map_option unat (month_days year month) =
     (if unat month \<in> {1..12} then Some (days_in_month (unat year) (unat month)) else None)"
proof -
  have w: "month = k \<longleftrightarrow> unat month = unat k" for k by (rule word_unat_eq_iff)
  show ?thesis
    unfolding month_days_def is_leap_year_iff months insert_iff w by (auto simp: days_in_month_def)
qed

lemma days_before_year_bound:
  assumes "unat year \<le> 9999"
  shows "days_before_year year \<le> 9998 * 367"
proof -
  let ?y = "unat year - 1"
  have "days_before_year year \<le> ?y * 365 + ?y div 4 + ?y div 400" 
    unfolding days_before_year_def Let_def by linarith
  also have "\<dots> \<le> ?y * 365 + ?y + ?y" by (intro add_mono) simp_all
  also have "\<dots> \<le> 9998 * 367" using assms by simp
  finally show ?thesis .
qed

lemma days_before_month_bound:
  assumes "unat month \<in> {1..12}"
  shows "days_before_month year month \<le> 12 * 31"
proof -
  have "(\<Sum>k = 1..<unat month. days_in_month (unat year) k) \<le> (\<Sum>k = 1..<unat month. 31)"
    by (rule sum_mono) (simp add: days_in_month_def)
  also have "\<dots> = (unat month - 1) * 31" by simp
  also have "\<dots> \<le> 12 * 31" using assms by (intro mult_le_mono1) auto
  finally show ?thesis by (simp only: days_before_month_eq [OF assms])
qed

lemma clock_bounds:
  assumes "valid_time t"
  shows "int (day_number (unat (ft_year t)) (unat (ft_month t)) (unat (ft_day t)) * 86400 +
      unat (ft_hour t) * 3600 + unat (ft_minute t) * 60 + unat (ft_second t)) \<le> 2 ^ 62"
    and "\<bar>case ft_time_zone t of None \<Rightarrow> 0 | Some offset \<Rightarrow> sint offset\<bar> \<le> 1440"
proof -
  have y: "1970 \<le> unat (ft_year t)" "unat (ft_year t) \<le> 9999" and m: "unat (ft_month t) \<in> {1..12}"
    and d: "unat (ft_day t) \<le> days_in_month (unat (ft_year t)) (unat (ft_month t))"
    and hms: "unat (ft_hour t) < 24" "unat (ft_minute t) < 60" "unat (ft_second t) < 60"
    using assms by (auto simp: valid_time_def)
  have "days_in_month (unat (ft_year t)) (unat (ft_month t)) \<le> 31" by (simp add: days_in_month_def)
  then have "day_number (unat (ft_year t)) (unat (ft_month t)) (unat (ft_day t)) \<le> 9998 * 367 + 12 * 31 + 31"
    using days_before_year_bound [OF y(2)] days_before_month_bound [OF m, of "ft_year t"] d
    unfolding day_number_def days_before_year_eq [OF y(1)] days_before_month_eq [OF m] by linarith
  then have "day_number (unat (ft_year t)) (unat (ft_month t)) (unat (ft_day t)) * 86400 +
      unat (ft_hour t) * 3600 + unat (ft_minute t) * 60 + unat (ft_second t) \<le> 2 ^ 62"
    using hms by simp
  then show "int (day_number (unat (ft_year t)) (unat (ft_month t)) (unat (ft_day t)) * 86400 +
      unat (ft_hour t) * 3600 + unat (ft_minute t) * 60 + unat (ft_second t)) \<le> 2 ^ 62"
    by (metis of_nat_le_iff of_nat_numeral of_nat_power)
  show "\<bar>case ft_time_zone t of None \<Rightarrow> 0 | Some offset \<Rightarrow> sint offset\<bar> \<le> 1440"
    using assms by (auto simp: valid_time_def split: option.splits)
qed

lemma scale_to_ns:
  assumes "0 \<le> utc" and "utc < 2 ^ 63"
  shows "(case checked_mul (word_of_int utc) 1000000000 of
      None \<Rightarrow> REALTIME_UNAVAILABLE_NS
    | Some nanoseconds \<Rightarrow>
        (case checked_add nanoseconds (ucast (ns :: u32)) of None \<Rightarrow> REALTIME_UNAVAILABLE_NS | Some result \<Rightarrow> result)) =
    (if utc * 10 ^ 9 + int (unat ns) < 2 ^ 64 then word_of_int (utc * 10 ^ 9 + int (unat ns))
     else REALTIME_UNAVAILABLE_NS)"
proof -
  have u: "unat (word_of_int utc :: u64) = nat utc"
    using assms by (simp add: unsigned_of_int take_bit_int_eq_self nat_eq_iff)
  have n: "unat (ucast ns :: u64) = unat ns"
    using unsigned_less [of ns, where 'a = nat] by (simp add: unsigned_ucast_eq take_bit_nat_eq_self)
  have e: "utc * 10 ^ 9 + int (unat ns) = int (nat utc * 1000000000 + unat ns)" using assms(1) by simp
  have lt: "utc * 10 ^ 9 + int (unat ns) < 2 ^ 64 \<longleftrightarrow> nat utc * 1000000000 + unat ns < 2 ^ 64"
    unfolding e by (rule of_nat_less_numeral_power_cancel_iff)
  show ?thesis
  proof (cases "nat utc * 1000000000 < 2 ^ 64")
    case True
    then have p: "unat (word_of_int utc * 1000000000 :: u64) = nat utc * 1000000000"
      by (simp add: unat_word_ariths u)
    have w: "word_of_int (utc * 10 ^ 9 + int (unat ns)) = (word_of_int utc * 1000000000 + ucast ns :: u64)" by simp
    show ?thesis unfolding lt w using True by (simp add: checked_mul_def checked_add_def u n p)
  next
    case False
    then have "\<not> utc * 10 ^ 9 + int (unat ns) < 2 ^ 64" unfolding lt by linarith
    then show ?thesis using False by (simp add: checked_mul_def u)
  qed
qed

text \<open>The guards of the conversion accept exactly the valid times.\<close>

definition clock_rejected :: "firmware_date_time \<Rightarrow> bool" where
  "clock_rejected t \<longleftrightarrow>
     \<not> (1970 \<le> ft_year t \<and> ft_year t \<le> 9999) \<or> \<not> (1 \<le> ft_month t \<and> ft_month t \<le> 12) \<or>
     23 < ft_hour t \<or> 59 < ft_minute t \<or> 59 < ft_second t \<or> 999999999 < ft_nanosecond t \<or>
     ft_daylight_flags t \<noteq> 0 \<or>
     (case ft_time_zone t of None \<Rightarrow> False | Some offset \<Rightarrow> \<not> (- 1440 \<le> sint offset \<and> sint offset \<le> 1440))"

lemma valid_time_iff:
  "valid_time t \<longleftrightarrow> \<not> clock_rejected t \<and>
     (\<exists>n. month_days (ft_year t) (ft_month t) = Some n \<and> ft_day t \<noteq> 0 \<and> ft_day t \<le> n)"
proof -
  have m: "(\<exists>n. month_days (ft_year t) (ft_month t) = Some n \<and> ft_day t \<noteq> 0 \<and> ft_day t \<le> n) \<longleftrightarrow>
      unat (ft_month t) \<in> {1..12} \<and>
      unat (ft_day t) \<in> {1..days_in_month (unat (ft_year t)) (unat (ft_month t))}"
    using month_days_eq [of "ft_year t" "ft_month t"] unat_gt_0 [of "ft_day t"]
    by (cases "month_days (ft_year t) (ft_month t)") (auto simp: word_le_nat_alt split: if_splits)
  show ?thesis unfolding m valid_time_def clock_rejected_def
    by (auto simp: word_le_nat_alt word_less_nat_alt abs_le_iff not_le split: option.splits)
qed

lemma valid_clock:
  assumes "valid_time t"
  shows "firmware_time_to_unix_ns t =
    (if 0 \<le> unix_seconds t \<and> unix_ns t < 2 ^ 64 then word_of_int (unix_ns t) else REALTIME_UNAVAILABLE_NS)"
proof -
  have y: "1970 \<le> unat (ft_year t)" and m: "unat (ft_month t) \<in> {1..12}" using assms by (auto simp: valid_time_def)
  obtain n where n: "\<not> clock_rejected t" "month_days (ft_year t) (ft_month t) = Some n" "ft_day t \<noteq> 0" "\<not> n < ft_day t"
    using assms unfolding valid_time_iff by (auto simp: not_less)
  let ?s = "day_number (unat (ft_year t)) (unat (ft_month t)) (unat (ft_day t)) * 86400 +
    unat (ft_hour t) * 3600 + unat (ft_minute t) * 60 + unat (ft_second t)"
  have dn: "days_before_year (ft_year t) + days_before_month (ft_year t) (ft_month t) + unat (ft_day t - 1) =
      day_number (unat (ft_year t)) (unat (ft_month t)) (unat (ft_day t))"
    unfolding day_number_def days_before_year_eq [OF y] days_before_month_eq [OF m] using n(3)
    by (simp add: unat_minus_one)
  let ?z = "case ft_time_zone t of None \<Rightarrow> 0 | Some offset \<Rightarrow> sint offset"
  have u: "unix_seconds t = int ?s - ?z * 60" by (simp add: unix_seconds_def)
  obtain a z where a: "a = int ?s" "z = ?z" by blast
  have "0 \<le> a" "a \<le> 2 ^ 62" "- 1440 \<le> z" "z \<le> 1440" using clock_bounds [OF assms] unfolding a abs_le_iff by simp_all
  then have "\<not> I64_MAX < a" "\<not> a - z * 60 < I64_MIN" "\<not> I64_MAX < a - z * 60" "a - z * 60 < 2 ^ 63"
    unfolding I64_MAX_def I64_MIN_def by simp_all
  then have r: "\<not> I64_MAX < int ?s" "\<not> unix_seconds t < I64_MIN" "\<not> I64_MAX < unix_seconds t" "unix_seconds t < 2 ^ 63"
    unfolding a u by blast+
  have "firmware_time_to_unix_ns t =
    (if I64_MAX < int ?s \<or> unix_seconds t < I64_MIN \<or> I64_MAX < unix_seconds t \<or> unix_seconds t < 0
     then REALTIME_UNAVAILABLE_NS
     else
       (case checked_mul (word_of_int (unix_seconds t)) 1000000000 of
          None \<Rightarrow> REALTIME_UNAVAILABLE_NS
        | Some nanoseconds \<Rightarrow>
            (case checked_add nanoseconds (ucast (ft_nanosecond t)) of
               None \<Rightarrow> REALTIME_UNAVAILABLE_NS
             | Some result \<Rightarrow> result)))"
    unfolding firmware_time_to_unix_ns_def clock_rejected_def [symmetric] Let_def dn u [symmetric]
    using n by simp
  then show ?thesis using r scale_to_ns [of "unix_seconds t" "ft_nanosecond t"]
    by (cases "unix_seconds t < 0") (simp_all add: unix_ns_def)
qed

lemma clock_exact:
  "firmware_time_to_unix_ns t =
     (if valid_time t \<and> 0 \<le> unix_seconds t \<and> unix_ns t < 2 ^ 64 then word_of_int (unix_ns t)
      else REALTIME_UNAVAILABLE_NS)"
proof (cases "valid_time t")
  case False
  then show ?thesis
    unfolding firmware_time_to_unix_ns_def clock_rejected_def [symmetric] valid_time_iff
    by (auto simp: not_le split: option.splits)
qed (simp add: valid_clock)

text \<open>The last nanosecond of the 64-bit range is a valid time.\<close>

definition last_instant :: firmware_date_time where
  "last_instant = \<lparr>ft_year = 2554, ft_month = 7, ft_day = 21, ft_hour = 23, ft_minute = 34, ft_second = 33,
     ft_nanosecond = 709551615, ft_time_zone = None, ft_daylight_flags = 0\<rparr>"

lemma day_number_eq:
  assumes "1970 \<le> unat year" and "unat month \<in> {1..12}"
  shows "day_number (unat year) (unat month) d = days_before_year year + days_before_month year month + (d - 1)"
  by (simp only: day_number_def days_before_year_eq [OF assms(1)] days_before_month_eq [OF assms(2)])

lemma last_instant_ns: "unix_ns last_instant = 2 ^ 64 - 1"
proof -
  have "day_number 2554 7 21 = 213503"
    using day_number_eq [of 2554 7 21] by (simp add: days_before_year_def days_before_month_def is_leap_year_def)
  then show ?thesis by (simp add: unix_ns_def unix_seconds_def last_instant_def)
qed

text \<open>C39. The conversion of the firmware clock is exact. If the firmware's fields are a date and time, not
  before the epoch, whose nanoseconds since the Unix epoch are below the largest 64-bit number, the result is
  that number of nanoseconds, counting the days of every year and month in between and applying the time
  zone; the result is the unavailable marker exactly for all other fields. The marker is the largest 64-bit
  number itself, so the one valid instant that is that many nanoseconds after the epoch, in July 2554,
  is reported as unavailable.\<close>

theorem firmware_time_exact:
  "(valid_time t \<and> 0 \<le> unix_seconds t \<and> unix_ns t < 2 ^ 64 - 1 \<longrightarrow>
      uint (firmware_time_to_unix_ns t) = unix_ns t) \<and>
   (firmware_time_to_unix_ns t = REALTIME_UNAVAILABLE_NS \<longleftrightarrow>
      \<not> valid_time t \<or> unix_seconds t < 0 \<or> 2 ^ 64 - 1 \<le> unix_ns t) \<and>
   valid_time last_instant \<and> unix_ns last_instant = 2 ^ 64 - 1 \<and>
   firmware_time_to_unix_ns last_instant = REALTIME_UNAVAILABLE_NS"
proof -
  have nn: "0 \<le> unix_ns t" if "0 \<le> unix_seconds t" for t using that by (simp add: unix_ns_def)
  have u: "uint (word_of_int (unix_ns t) :: u64) = unix_ns t" if "0 \<le> unix_seconds t" "unix_ns t < 2 ^ 64" for t
    using nn [OF that(1)] that(2) by (simp add: uint_word_of_int)
  have m: "uint REALTIME_UNAVAILABLE_NS = 2 ^ 64 - 1" by (simp add: REALTIME_UNAVAILABLE_NS_def unsigned_minus_1_eq_mask mask_eq_exp_minus_1)
  have i: "firmware_time_to_unix_ns t = REALTIME_UNAVAILABLE_NS \<longleftrightarrow>
      \<not> valid_time t \<or> unix_seconds t < 0 \<or> 2 ^ 64 - 1 \<le> unix_ns t" for t
  proof (cases "valid_time t \<and> 0 \<le> unix_seconds t \<and> unix_ns t < 2 ^ 64")
    case True
    then have "firmware_time_to_unix_ns t = REALTIME_UNAVAILABLE_NS \<longleftrightarrow> unix_ns t = 2 ^ 64 - 1"
      unfolding word_uint_eq_iff m using u [of t] by (simp add: clock_exact)
    then show ?thesis using True by auto
  next
    case False
    then show ?thesis by (auto simp: clock_exact)
  qed
  have v: "valid_time last_instant" by (simp add: valid_time_def last_instant_def days_in_month_def)
  have "firmware_time_to_unix_ns last_instant = REALTIME_UNAVAILABLE_NS" unfolding i by (simp add: last_instant_ns)
  moreover have "uint (firmware_time_to_unix_ns t) = unix_ns t"
    if "valid_time t \<and> 0 \<le> unix_seconds t \<and> unix_ns t < 2 ^ 64 - 1"
    using that u [of t] by (simp add: clock_exact)
  ultimately show ?thesis using i [of t] v last_instant_ns by blast
qed

text \<open>A time nine hours east of UTC, after a leap day.\<close>

theorem firmware_time_exact_witness:
  "uint (firmware_time_to_unix_ns \<lparr>ft_year = 2000, ft_month = 3, ft_day = 1, ft_hour = 9, ft_minute = 0, ft_second = 5,
     ft_nanosecond = 7, ft_time_zone = Some 540, ft_daylight_flags = 0\<rparr>) = 951868805000000007"
proof -
  let ?t = "\<lparr>ft_year = 2000, ft_month = 3, ft_day = 1, ft_hour = 9, ft_minute = 0, ft_second = 5,
     ft_nanosecond = 7, ft_time_zone = Some 540, ft_daylight_flags = 0\<rparr> :: firmware_date_time"
  have d: "day_number 2000 3 1 = 11017"
    using day_number_eq [of 2000 3 1] by (simp add: days_before_year_def days_before_month_def is_leap_year_def)
  have v: "valid_time ?t" by (simp add: valid_time_def days_in_month_def)
  have s: "unix_seconds ?t = 951868805" using d by (simp add: unix_seconds_def)
  have n: "unix_ns ?t = 951868805000000007" by (simp add: unix_ns_def s)
  show ?thesis using firmware_time_exact [of ?t] v s n by simp
qed

lemma one_byte_damage:
  assumes "bs = sealed body" and "length body = n" and "i < length bs" and "b \<noteq> bs ! i"
    and "bs[i := b] = sealed body'" and "length body' = n"
  shows False
proof -
  have "take (length body) (bs[i := b]) = body'" using assms(2,5,6) by (simp add: sealed_def)
  then show False using sealed_detects_byte [of i body b] assms(1,3-5) by metis
qed

text \<open>C38. The two records the kernel leaves for the loader round trip: the decoder accepts exactly the
  encodings of valid records and returns the record, and an encoding in which any one byte is
  damaged is rejected. A staging record is valid if it names one of the two slots; a readiness record is
  valid if it names one of the two slots, an attempt from one to three and a journal generation other
  than zero.\<close>

theorem boot_records_roundtrip:
  "(stage_encode r \<noteq> None \<longleftrightarrow> sg_slot r \<in> {0, 1}) \<and>
   (ready_encode q \<noteq> None \<longleftrightarrow>
      rd_slot q \<in> {0, 1} \<and> rd_attempt q \<in> {1, 2, 3} \<and> rd_journal_generation q \<noteq> 0) \<and>
   (stage_encode r = Some bs \<longleftrightarrow> stage_decode bs = Some r) \<and>
   (ready_encode q = Some cs \<longleftrightarrow> ready_decode cs = Some q) \<and>
   (\<forall>i b. stage_decode bs = Some r \<longrightarrow> i < length bs \<longrightarrow> b \<noteq> bs ! i \<longrightarrow> stage_decode (bs[i := b]) = None) \<and>
   (\<forall>i b. ready_decode cs = Some q \<longrightarrow> i < length cs \<longrightarrow> b \<noteq> cs ! i \<longrightarrow> ready_decode (cs[i := b]) = None)"
proof (intro conjI allI impI)
  have slot: "x \<le> 1 \<longleftrightarrow> x \<in> {0, 1}" and attempt: "1 \<le> x \<and> x \<le> 3 \<longleftrightarrow> x \<in> {1, 2, 3}" for x :: u8
    by (simp_all add: word_le_nat_alt word_unat_eq_iff) arith+
  show "stage_encode r \<noteq> None \<longleftrightarrow> sg_slot r \<in> {0, 1}"
    unfolding stage_encode_eq slot [symmetric] by (auto simp: not_less)
  show "ready_encode q \<noteq> None \<longleftrightarrow>
      rd_slot q \<in> {0, 1} \<and> rd_attempt q \<in> {1, 2, 3} \<and> rd_journal_generation q \<noteq> 0"
    unfolding ready_encode_eq slot [symmetric] attempt [symmetric] by (auto simp: not_less)
  show "stage_encode r = Some bs \<longleftrightarrow> stage_decode bs = Some r" by (simp add: stage_codec.decode_iff)
  show "ready_encode q = Some cs \<longleftrightarrow> ready_decode cs = Some q" by (simp add: ready_codec.decode_iff)
next
  fix i b assume a: "stage_decode bs = Some r" "i < length bs" "b \<noteq> bs ! i"
  have m: "length STAGE_MAGIC = 4" by (simp add: STAGE_MAGIC_def)
  show "stage_decode (bs[i := b]) = None"
  proof (cases "stage_decode (bs[i := b])")
    case (Some r')
    then show ?thesis
      using a one_byte_damage [OF _ length_record_body [OF m] a(2,3) _ length_record_body [OF m]]
      unfolding stage_decode_iff by blast
  qed
next
  fix i b assume a: "ready_decode cs = Some q" "i < length cs" "b \<noteq> cs ! i"
  have m: "length READY_MAGIC = 4" by (simp add: READY_MAGIC_def)
  show "ready_decode (cs[i := b]) = None"
  proof (cases "ready_decode (cs[i := b])")
    case (Some q')
    then show ?thesis
      using a one_byte_damage [OF _ length_record_body [OF m] a(2,3) _ length_record_body [OF m]]
      unfolding ready_decode_iff by blast
  qed
qed

theorem boot_records_roundtrip_witness:
  "\<exists>bs. ready_encode \<lparr>rd_slot = 1, rd_attempt = 2, rd_journal_generation = 7\<rparr> = Some bs \<and>
     ready_decode (bs[6 := 3]) = None"
proof -
  let ?q = "\<lparr>rd_slot = 1, rd_attempt = 2, rd_journal_generation = 7\<rparr> :: boot_ready_record"
  let ?bs = "sealed (record_body READY_MAGIC READY_VERSION 1 2 7)"
  have e: "ready_encode ?q = Some ?bs" by (simp add: ready_encode_eq)
  have "6 < length ?bs" "3 \<noteq> ?bs ! 6" by (simp_all add: record_body_def sealed_def READY_MAGIC_def nth_append)
  then show ?thesis using e boot_records_roundtrip [where q = ?q and cs = ?bs] by blast
qed

end
