(* ===== verification/Boot_Journal.thy ===== *)
theory Boot_Journal
  imports Bytes "HOL-Library.Sublist"
begin

text \<open>
  The A/B boot control of the loader (\<open>loader/src/ab.rs\<close>) and its firmware variable store
  (\<open>loader/src/ab/uefi_store.rs\<close>): the boot-control state with its record format, the journal of two
  record copies, and the operations that stage an update, begin a boot and confirm a trial. The
  journal works on any store; a store is a record of its three operations on a state of its own.
  The firmware's variable services, which the store calls, are parameters of its operations. The
  lemmas give the record codec, what an interrupted write leaves behind, and the bound on trials.
\<close>

section \<open>The state and its records\<close>

definition MAX_BOOT_ATTEMPTS :: u8 where "MAX_BOOT_ATTEMPTS = 3"
definition RECORD_SIZE :: nat where "RECORD_SIZE = 32"

text \<open>The magic number is the bytes of \<open>NABS\<close>.\<close>

definition RECORD_MAGIC :: "u8 list" where "RECORD_MAGIC = [0x4E, 0x41, 0x42, 0x53]"
definition RECORD_VERSION :: u8 where "RECORD_VERSION = 1"
definition NO_PENDING_SLOT :: u8 where "NO_PENDING_SLOT = 0xff"
definition CHECKSUM_OFFSET :: nat where "CHECKSUM_OFFSET = 28"

datatype system_slot = SlotA | SlotB

definition slot_other :: "system_slot \<Rightarrow> system_slot" where
  "slot_other s = (case s of SlotA \<Rightarrow> SlotB | SlotB \<Rightarrow> SlotA)"

definition slot_code :: "system_slot \<Rightarrow> u8" where
  "slot_code s = (case s of SlotA \<Rightarrow> 0 | SlotB \<Rightarrow> 1)"

definition slot_from_code :: "u8 \<Rightarrow> system_slot option" where
  "slot_from_code code = (if code = 0 then Some SlotA else if code = 1 then Some SlotB else None)"

record boot_control_state =
  bs_confirmed :: system_slot
  bs_pending :: "system_slot option"
  bs_attempts :: u8
  bs_generation :: u64

definition boot_state_initial :: boot_control_state where
  "boot_state_initial = \<lparr>bs_confirmed = SlotA, bs_pending = None, bs_attempts = 0, bs_generation = 0\<rparr>"

record boot_decision =
  bd_slot :: system_slot
  bd_trial_attempt :: u8
  bd_rolled_back :: bool

datatype store_error = SE_Io

datatype boot_control_error =
    BE_Storage store_error | BE_CorruptRecords | BE_UpdateAlreadyPending | BE_CannotUpdateConfirmedSlot
  | BE_UnexpectedBootSuccess | BE_GenerationExhausted

datatype record_copy = CopyFirst | CopySecond

definition copy_index :: "record_copy \<Rightarrow> nat" where
  "copy_index c = (case c of CopyFirst \<Rightarrow> 0 | CopySecond \<Rightarrow> 1)"

definition copy_other :: "record_copy \<Rightarrow> record_copy" where
  "copy_other c = (case c of CopyFirst \<Rightarrow> CopySecond | CopySecond \<Rightarrow> CopyFirst)"

record current_state =
  cur_state :: boot_control_state
  cur_copy :: "record_copy option"

definition validate_state :: "boot_control_state \<Rightarrow> bool" where
  "validate_state s \<longleftrightarrow>
     \<not> (MAX_BOOT_ATTEMPTS < bs_attempts s \<or> bs_pending s = Some (bs_confirmed s) \<or>
        bs_pending s = None \<and> bs_attempts s \<noteq> 0)"

definition encode_record :: "boot_control_state \<Rightarrow> u8 list option" where
  "encode_record s =
     (if \<not> validate_state s then None
      else
        let b1 = put_bytes (replicate RECORD_SIZE 0) 0 RECORD_MAGIC;
            b2 = b1[4 := RECORD_VERSION];
            b3 = b2[5 := slot_code (bs_confirmed s)];
            b4 = b3[6 := (case bs_pending s of None \<Rightarrow> NO_PENDING_SLOT | Some slot \<Rightarrow> slot_code slot)];
            b5 = b4[7 := bs_attempts s];
            b6 = b5[8 := MAX_BOOT_ATTEMPTS];
            b7 = put_bytes b6 10 (to_le_bytes (bs_generation s))
        in Some (put_bytes b7 CHECKSUM_OFFSET (to_le_bytes (crc32 (take CHECKSUM_OFFSET b7)))))"

definition decode_record :: "u8 list \<Rightarrow> boot_control_state option" where
  "decode_record bytes =
     (if slice 0 4 bytes \<noteq> RECORD_MAGIC \<or> bytes ! 4 \<noteq> RECORD_VERSION \<or> bytes ! 8 \<noteq> MAX_BOOT_ATTEMPTS \<or>
         bytes ! 9 \<noteq> 0 \<or> list_ex (\<lambda>byte. byte \<noteq> 0) (slice 18 CHECKSUM_OFFSET bytes)
      then None
      else if crc32 (take CHECKSUM_OFFSET bytes) \<noteq> from_le_bytes (drop CHECKSUM_OFFSET bytes) then None
      else
        (case slot_from_code (bytes ! 5) of
           None \<Rightarrow> None
         | Some confirmed \<Rightarrow>
             (case (if bytes ! 6 = NO_PENDING_SLOT then Some None
                    else map_option Some (slot_from_code (bytes ! 6))) of
                None \<Rightarrow> None
              | Some pending \<Rightarrow>
                  let s = \<lparr>bs_confirmed = confirmed, bs_pending = pending, bs_attempts = bytes ! 7,
                           bs_generation = from_le_bytes (slice 10 18 bytes)\<rparr>
                  in if validate_state s then Some s else None)))"

section \<open>The journal\<close>

text \<open>A store: \<open>read_record\<close> gives the contents of a copy, if it is present (the code passes a
  buffer and gets the length); \<open>write_record\<close> and \<open>flush\<close> give the error, and the state that the
  store is left in.\<close>

record 's boot_store =
  st_read_record :: "'s \<Rightarrow> nat \<Rightarrow> (store_error, u8 list option) result \<times> 's"
  st_write_record :: "'s \<Rightarrow> nat \<Rightarrow> u8 list \<Rightarrow> (store_error, unit) result \<times> 's"
  st_flush :: "'s \<Rightarrow> (store_error, unit) result \<times> 's"

text \<open>The choice among the two copies that were read.\<close>

definition decode_copy :: "u8 list option \<Rightarrow> boot_control_state option" where
  "decode_copy bytes =
     (case bytes of None \<Rightarrow> None | Some bs \<Rightarrow> if length bs = RECORD_SIZE then decode_record bs else None)"

definition select_current ::
  "u8 list option \<Rightarrow> u8 list option \<Rightarrow> (boot_control_error, current_state) result" where
  "select_current r0 r1 =
     (case (decode_copy r0, decode_copy r1) of
        (None, None) \<Rightarrow>
          if r0 = None \<and> r1 = None then Inr \<lparr>cur_state = boot_state_initial, cur_copy = None\<rparr>
          else Inl BE_CorruptRecords
      | (Some first, None) \<Rightarrow> Inr \<lparr>cur_state = first, cur_copy = Some CopyFirst\<rparr>
      | (None, Some second) \<Rightarrow> Inr \<lparr>cur_state = second, cur_copy = Some CopySecond\<rparr>
      | (Some first, Some second) \<Rightarrow>
          if bs_generation first = bs_generation second then
            if first \<noteq> second then Inl BE_CorruptRecords
            else Inr \<lparr>cur_state = first, cur_copy = Some CopyFirst\<rparr>
          else if bs_generation second < bs_generation first
            then Inr \<lparr>cur_state = first, cur_copy = Some CopyFirst\<rparr>
          else Inr \<lparr>cur_state = second, cur_copy = Some CopySecond\<rparr>)"

definition journal_current ::
  "'s boot_store \<Rightarrow> 's \<Rightarrow> (boot_control_error, current_state) result \<times> 's" where
  "journal_current st s =
     (case st_read_record st s 0 of
        (Inl e, s1) \<Rightarrow> (Inl (BE_Storage e), s1)
      | (Inr r0, s1) \<Rightarrow>
          (case st_read_record st s1 1 of
             (Inl e, s2) \<Rightarrow> (Inl (BE_Storage e), s2)
           | (Inr r1, s2) \<Rightarrow> (select_current r0 r1, s2)))"

definition journal_load ::
  "'s boot_store \<Rightarrow> 's \<Rightarrow> (boot_control_error, boot_control_state) result \<times> 's" where
  "journal_load st s =
     (case journal_current st s of (Inl e, s1) \<Rightarrow> (Inl e, s1) | (Inr cur, s1) \<Rightarrow> (Inr (cur_state cur), s1))"

definition journal_persist ::
  "'s boot_store \<Rightarrow> 's \<Rightarrow> current_state \<Rightarrow> boot_control_state \<Rightarrow> (boot_control_error, unit) result \<times> 's" where
  "journal_persist st s cur next =
     (case checked_add (bs_generation (cur_state cur)) 1 of
        None \<Rightarrow> (Inl BE_GenerationExhausted, s)
      | Some generation \<Rightarrow>
          let next1 = next\<lparr>bs_generation := generation\<rparr>;
              destination = (case cur_copy cur of None \<Rightarrow> CopyFirst | Some c \<Rightarrow> copy_other c)
          in if \<not> validate_state next1 then (Inl BE_CorruptRecords, s)
             else
               (case encode_record next1 of
                  None \<Rightarrow> (Inl BE_CorruptRecords, s)
                | Some bytes \<Rightarrow>
                    (case st_write_record st s (copy_index destination) bytes of
                       (Inl e, s1) \<Rightarrow> (Inl (BE_Storage e), s1)
                     | (Inr _, s1) \<Rightarrow>
                         (case st_flush st s1 of
                            (Inl e, s2) \<Rightarrow> (Inl (BE_Storage e), s2)
                          | (Inr _, s2) \<Rightarrow> (Inr (), s2)))))"

text \<open>The baseline record of \<open>stage_update\<close>: written if no record exists, and read back.\<close>

definition establish_baseline ::
  "'s boot_store \<Rightarrow> 's \<Rightarrow> current_state \<Rightarrow> (boot_control_error, current_state) result \<times> 's" where
  "establish_baseline st s cur =
     (if cur_copy cur \<noteq> None then (Inr cur, s)
      else
        (case journal_persist st s cur (cur_state cur) of
           (Inl e, s1) \<Rightarrow> (Inl e, s1)
         | (Inr _, s1) \<Rightarrow> journal_current st s1))"

definition journal_stage_update ::
  "'s boot_store \<Rightarrow> 's \<Rightarrow> system_slot \<Rightarrow> (boot_control_error, unit) result \<times> 's" where
  "journal_stage_update st s slot =
     (case journal_current st s of
        (Inl e, s1) \<Rightarrow> (Inl e, s1)
      | (Inr cur, s1) \<Rightarrow>
          if bs_pending (cur_state cur) \<noteq> None then (Inl BE_UpdateAlreadyPending, s1)
          else if slot = bs_confirmed (cur_state cur) then (Inl BE_CannotUpdateConfirmedSlot, s1)
          else
            (case establish_baseline st s1 cur of
               (Inl e, s2) \<Rightarrow> (Inl e, s2)
             | (Inr cur1, s2) \<Rightarrow>
                 journal_persist st s2 cur1 ((cur_state cur1)\<lparr>bs_pending := Some slot, bs_attempts := 0\<rparr>)))"

definition journal_begin_boot ::
  "'s boot_store \<Rightarrow> 's \<Rightarrow> (boot_control_error, boot_decision) result \<times> 's" where
  "journal_begin_boot st s =
     (case journal_current st s of
        (Inl e, s1) \<Rightarrow> (Inl e, s1)
      | (Inr cur, s1) \<Rightarrow>
          let state = cur_state cur in
          (case bs_pending state of
             None \<Rightarrow> (Inr \<lparr>bd_slot = bs_confirmed state, bd_trial_attempt = 0, bd_rolled_back = False\<rparr>, s1)
           | Some pending \<Rightarrow>
               if MAX_BOOT_ATTEMPTS \<le> bs_attempts state then
                 (case journal_persist st s1 cur (state\<lparr>bs_pending := None, bs_attempts := 0\<rparr>) of
                    (Inl e, s2) \<Rightarrow> (Inl e, s2)
                  | (Inr _, s2) \<Rightarrow>
                      (Inr \<lparr>bd_slot = bs_confirmed state, bd_trial_attempt = 0, bd_rolled_back = True\<rparr>, s2))
               else
                 (case journal_persist st s1 cur (state\<lparr>bs_attempts := bs_attempts state + 1\<rparr>) of
                    (Inl e, s2) \<Rightarrow> (Inl e, s2)
                  | (Inr _, s2) \<Rightarrow>
                      (Inr \<lparr>bd_slot = pending, bd_trial_attempt = bs_attempts state + 1,
                           bd_rolled_back = False\<rparr>, s2))))"

definition journal_mark_boot_success ::
  "'s boot_store \<Rightarrow> 's \<Rightarrow> system_slot \<Rightarrow> (boot_control_error, unit) result \<times> 's" where
  "journal_mark_boot_success st s slot =
     (case journal_current st s of
        (Inl e, s1) \<Rightarrow> (Inl e, s1)
      | (Inr cur, s1) \<Rightarrow>
          let state = cur_state cur in
          if bs_pending state = Some slot then
            journal_persist st s1 cur (state\<lparr>bs_confirmed := slot, bs_pending := None, bs_attempts := 0\<rparr>)
          else if bs_pending state = None \<and> bs_confirmed state = slot then (Inr (), s1)
          else (Inl BE_UnexpectedBootSuccess, s1))"

section \<open>The firmware variable store\<close>

text \<open>The firmware's runtime services that the store calls, on a firmware state: whether a variable
  exists, its contents and attributes if they fit the buffer, and setting a variable. The store's
  variables are named by their copy; the vendor is fixed.\<close>

datatype journal_variable = NagiBootControl0 | NagiBootControl1

record 'f variable_services =
  vs_variable_exists :: "'f \<Rightarrow> journal_variable \<Rightarrow> (unit, bool) result \<times> 'f"
  vs_get_variable :: "'f \<Rightarrow> journal_variable \<Rightarrow> nat \<Rightarrow> (unit, u8 list \<times> u32) result \<times> 'f"
  vs_set_variable :: "'f \<Rightarrow> journal_variable \<Rightarrow> u32 \<Rightarrow> u8 list \<Rightarrow> (unit, unit) result \<times> 'f"

text \<open>\<open>NON_VOLATILE\<close>, \<open>BOOTSERVICE_ACCESS\<close> and \<open>RUNTIME_ACCESS\<close>.\<close>

definition REQUIRED_ATTRIBUTES :: u32 where "REQUIRED_ATTRIBUTES = 1 OR 2 OR 4"

definition store_name :: "nat \<Rightarrow> (store_error, journal_variable) result" where
  "store_name copy =
     (if copy = 0 then Inr NagiBootControl0 else if copy = 1 then Inr NagiBootControl1 else Inl SE_Io)"

definition uefi_read_record ::
  "'f variable_services \<Rightarrow> 'f \<Rightarrow> nat \<Rightarrow> (store_error, u8 list option) result \<times> 'f" where
  "uefi_read_record vs f copy =
     (case store_name copy of
        Inl e \<Rightarrow> (Inl e, f)
      | Inr name \<Rightarrow>
          (case vs_variable_exists vs f name of
             (Inl _, f1) \<Rightarrow> (Inl SE_Io, f1)
           | (Inr present, f1) \<Rightarrow>
               if \<not> present then (Inr None, f1)
               else
                 (case vs_get_variable vs f1 name RECORD_SIZE of
                    (Inl _, f2) \<Rightarrow> (Inl SE_Io, f2)
                  | (Inr (bytes, attributes), f2) \<Rightarrow>
                      if attributes AND REQUIRED_ATTRIBUTES \<noteq> REQUIRED_ATTRIBUTES then (Inl SE_Io, f2)
                      else (Inr (Some bytes), f2))))"

definition uefi_write_record ::
  "'f variable_services \<Rightarrow> 'f \<Rightarrow> nat \<Rightarrow> u8 list \<Rightarrow> (store_error, unit) result \<times> 'f" where
  "uefi_write_record vs f copy bytes =
     (case store_name copy of
        Inl e \<Rightarrow> (Inl e, f)
      | Inr name \<Rightarrow>
          (case vs_set_variable vs f name REQUIRED_ATTRIBUTES bytes of
             (Inl _, f1) \<Rightarrow> (Inl SE_Io, f1)
           | (Inr _, f1) \<Rightarrow> (Inr (), f1)))"

definition uefi_flush :: "'f \<Rightarrow> (store_error, unit) result \<times> 'f" where
  "uefi_flush f = (Inr (), f)"

definition uefi_store :: "'f variable_services \<Rightarrow> 'f boot_store" where
  "uefi_store vs =
     \<lparr>st_read_record = uefi_read_record vs, st_write_record = uefi_write_record vs, st_flush = uefi_flush\<rparr>"

section \<open>The record codec\<close>

definition pending_code :: "system_slot option \<Rightarrow> u8" where
  "pending_code p = (case p of None \<Rightarrow> NO_PENDING_SLOT | Some slot \<Rightarrow> slot_code slot)"

definition journal_body :: "boot_control_state \<Rightarrow> u8 list" where
  "journal_body s =
     RECORD_MAGIC @ [RECORD_VERSION, slot_code (bs_confirmed s), pending_code (bs_pending s), bs_attempts s,
       MAX_BOOT_ATTEMPTS, 0] @ to_le_bytes (bs_generation s) @ replicate 10 0"

lemma length_journal_body [simp]: "length (journal_body s) = 28"
  by (simp add: journal_body_def RECORD_MAGIC_def)

lemma journal_buffer:
  assumes "length g = 8"
  shows "put_bytes ((put_bytes (replicate 32 0) 0 [a, b, c, d])[4 := v, 5 := s, 6 := p, 7 := t, 8 := m]) 10 g =
    ([a, b, c, d, v, s, p, t, m, 0] @ g @ replicate 10 0) @ replicate 4 (0 :: u8)"
proof -
  have "replicate 32 (0 :: u8) = [0, 0, 0, 0, 0, 0, 0, 0, 0, 0, 0, 0, 0, 0, 0, 0, 0, 0, 0, 0, 0, 0, 0, 0, 0, 0, 0, 0,
    0, 0, 0, 0]" by code_simp
  then show ?thesis using assms by (simp add: put_bytes_def numeral_eq_Suc)
qed

lemma encode_record_eq:
  "encode_record s = (if validate_state s then Some (sealed (journal_body s)) else None)"
proof -
  have "length (to_le_bytes (bs_generation s)) = 8" by simp
  note b = journal_buffer [OF this]
  have "put_bytes (body @ replicate 4 0) 28 (to_le_bytes (crc32 (take 28 (body @ replicate 4 0)))) = sealed body"
    if "length body = 28" for body using that by (simp add: put_bytes_def sealed_def)
  from this [of "journal_body s"] show ?thesis
    unfolding encode_record_def Let_def RECORD_SIZE_def RECORD_MAGIC_def CHECKSUM_OFFSET_def b
    by (simp add: journal_body_def pending_code_def RECORD_MAGIC_def)
qed

lemma journal_parts:
  assumes "length bs = 32"
  shows "bs = sealed (journal_body s) \<longleftrightarrow>
    slice 0 4 bs = RECORD_MAGIC \<and> bs ! 4 = RECORD_VERSION \<and> bs ! 5 = slot_code (bs_confirmed s) \<and>
    bs ! 6 = pending_code (bs_pending s) \<and> bs ! 7 = bs_attempts s \<and> bs ! 8 = MAX_BOOT_ATTEMPTS \<and> bs ! 9 = 0 \<and>
    from_le_bytes (slice 10 18 bs) = bs_generation s \<and> slice 18 28 bs = replicate 10 0 \<and>
    crc32 (take 28 bs) = from_le_bytes (drop 28 bs)"
proof -
  have "slice i (Suc i) bs = [bs ! i]" if "i < 32" for i using that slice_one [of i bs] assms by simp
  from this [of 4] this [of 5] this [of 6] this [of 7] this [of 8] this [of 9]
  have one: "slice 4 5 bs = [bs ! 4]" "slice 5 6 bs = [bs ! 5]" "slice 6 7 bs = [bs ! 6]" "slice 7 8 bs = [bs ! 7]"
    "slice 8 9 bs = [bs ! 8]" "slice 9 10 bs = [bs ! 9]" by simp_all
  have "take 28 bs = slice 0 4 bs @ (slice 4 5 bs @ slice 5 6 bs @ slice 6 7 bs @ slice 7 8 bs @ slice 8 9 bs @
      slice 9 10 bs) @ slice 10 18 bs @ slice 18 28 bs"
    by (simp add: slice_append) (simp add: slice_def)
  then have parts: "take 28 bs = slice 0 4 bs @ [bs ! 4, bs ! 5, bs ! 6, bs ! 7, bs ! 8, bs ! 9] @
      slice 10 18 bs @ slice 18 28 bs" unfolding one by simp
  have gen: "from_le_bytes (slice 10 18 bs) = bs_generation s \<longleftrightarrow> slice 10 18 bs = to_le_bytes (bs_generation s)"
    using assms by (intro from_le_bytes_eq_iff) simp
  have len: "length (slice 0 4 bs) = length RECORD_MAGIC"
    "length (slice 10 18 bs) = length (to_le_bytes (bs_generation s))"
    using assms by (simp_all add: RECORD_MAGIC_def)
  have "take 28 bs = journal_body s \<longleftrightarrow> slice 0 4 bs = RECORD_MAGIC \<and> bs ! 4 = RECORD_VERSION \<and>
      bs ! 5 = slot_code (bs_confirmed s) \<and> bs ! 6 = pending_code (bs_pending s) \<and> bs ! 7 = bs_attempts s \<and>
      bs ! 8 = MAX_BOOT_ATTEMPTS \<and> bs ! 9 = 0 \<and> from_le_bytes (slice 10 18 bs) = bs_generation s \<and>
      slice 18 28 bs = replicate 10 0"
    unfolding parts gen journal_body_def using len by (simp add: append_eq_append_conv)
  moreover have "bs = sealed (journal_body s) \<longleftrightarrow> take 28 bs = journal_body s \<and> bs = sealed (take 28 bs)"
    using length_journal_body [of s] by (metis append_eq_conv_conj sealed_def)
  moreover have "drop 28 bs = slice 28 32 bs" using assms by (simp add: slice_def)
  then have "crc32 (take 28 bs) = from_le_bytes (drop 28 bs) \<longleftrightarrow> bs = sealed (take 28 bs)"
    using sealed_iff [of bs 28] assms by simp
  ultimately show ?thesis by blast
qed

lemma slot_code_iff: "slot_from_code c = Some s \<longleftrightarrow> c = slot_code s"
  by (cases s) (auto simp: slot_from_code_def slot_code_def)

lemma pending_code_iff:
  "(if c = NO_PENDING_SLOT then Some None else map_option Some (slot_from_code c)) = Some p \<longleftrightarrow> c = pending_code p"
  by (cases p) (auto simp: pending_code_def slot_code_iff NO_PENDING_SLOT_def slot_code_def split: system_slot.split)

lemma zeros_iff:
  assumes "length zs = n"
  shows "list_ex (\<lambda>byte. byte \<noteq> 0) zs \<longleftrightarrow> zs \<noteq> replicate n 0"
proof -
  have "zs = replicate n 0 \<longleftrightarrow> (\<forall>x \<in> set zs. x = 0)"
    using assms by (metis in_set_replicate replicate_eqI)
  then show ?thesis by (auto simp: list_ex_iff)
qed

lemma decode_copy_iff:
  "decode_copy (Some bs) = Some s \<longleftrightarrow> validate_state s \<and> bs = sealed (journal_body s)"
proof (cases "length bs = 32")
  case True
  have z: "list_ex (\<lambda>byte. byte \<noteq> 0) (slice 18 28 bs) \<longleftrightarrow> slice 18 28 bs \<noteq> replicate 10 0"
    by (rule zeros_iff) (simp add: True)
  have "decode_copy (Some bs) = Some s \<longleftrightarrow> slice 0 4 bs = RECORD_MAGIC \<and> bs ! 4 = RECORD_VERSION \<and>
      bs ! 8 = MAX_BOOT_ATTEMPTS \<and> bs ! 9 = 0 \<and> slice 18 28 bs = replicate 10 0 \<and>
      crc32 (take 28 bs) = from_le_bytes (drop 28 bs) \<and>
      (\<exists>c p. slot_from_code (bs ! 5) = Some c \<and>
         (if bs ! 6 = NO_PENDING_SLOT then Some None else map_option Some (slot_from_code (bs ! 6))) = Some p \<and>
         s = \<lparr>bs_confirmed = c, bs_pending = p, bs_attempts = bs ! 7,
              bs_generation = from_le_bytes (slice 10 18 bs)\<rparr> \<and> validate_state s)"
    unfolding decode_copy_def decode_record_def CHECKSUM_OFFSET_def RECORD_SIZE_def Let_def using True
    by (auto simp: z split: option.splits if_splits)
  then show ?thesis unfolding slot_code_iff pending_code_iff journal_parts [OF True] by (cases s) auto
next
  case False
  then show ?thesis by (auto simp: decode_copy_def RECORD_SIZE_def)
qed

interpretation journal_codec: codec encode_record "\<lambda>bs. decode_copy (Some bs)"
  by unfold_locales (auto simp: decode_copy_iff encode_record_eq split: if_splits)

section \<open>What a write leaves behind\<close>

text \<open>The abstract state machine: the state an operation writes next, if it writes one.\<close>

datatype boot_op = Op_Stage system_slot | Op_Begin | Op_Mark system_slot

fun boot_write :: "boot_op \<Rightarrow> boot_control_state \<Rightarrow> boot_control_state option" where
  "boot_write (Op_Stage slot) s =
     (if bs_pending s = None \<and> slot \<noteq> bs_confirmed s
      then Some (s\<lparr>bs_pending := Some slot, bs_attempts := 0\<rparr>) else None)"
| "boot_write Op_Begin s =
     (if bs_pending s = None then None
      else if MAX_BOOT_ATTEMPTS \<le> bs_attempts s then Some (s\<lparr>bs_pending := None, bs_attempts := 0\<rparr>)
      else Some (s\<lparr>bs_attempts := bs_attempts s + 1\<rparr>))"
| "boot_write (Op_Mark slot) s =
     (if bs_pending s = Some slot
      then Some (s\<lparr>bs_confirmed := slot, bs_pending := None, bs_attempts := 0\<rparr>) else None)"

text \<open>Every write is a new generation.\<close>

definition boot_next :: "boot_op \<Rightarrow> boot_control_state \<Rightarrow> boot_control_state option" where
  "boot_next op s = map_option (\<lambda>n. n\<lparr>bs_generation := bs_generation s + 1\<rparr>) (boot_write op s)"

fun journal_apply :: "'s boot_store \<Rightarrow> boot_op \<Rightarrow> 's \<Rightarrow> boot_control_error option \<times> 's" where
  "journal_apply st (Op_Stage slot) s = map_prod error_of id (journal_stage_update st s slot)"
| "journal_apply st Op_Begin s = map_prod error_of id (journal_begin_boot st s)"
| "journal_apply st (Op_Mark slot) s = map_prod error_of id (journal_mark_boot_success st s slot)"

text \<open>The records that the two copies hold.\<close>

definition journal_view :: "(nat \<Rightarrow> u8 list option) \<Rightarrow> (boot_control_error, current_state) result" where
  "journal_view c = select_current (c 0) (c 1)"

lemma copy_index_less [simp]: "copy_index k < 2"
  by (cases k) (simp_all add: copy_index_def)

lemma copy_index_other [simp]: "copy_index (copy_other k) \<noteq> copy_index k"
  by (cases k) (simp_all add: copy_index_def copy_other_def)

lemma decode_copy_None [simp]: "decode_copy None = None"
  by (simp add: decode_copy_def)

lemma decode_copy_sealed [simp]: "validate_state s \<Longrightarrow> decode_copy (Some (sealed (journal_body s))) = Some s"
  by (simp add: decode_copy_iff)

lemma decode_copy_length [simp]: "length bs \<noteq> 32 \<Longrightarrow> decode_copy (Some bs) = None"
  by (simp add: decode_copy_def RECORD_SIZE_def)

lemma decode_copy_valid: "decode_copy r = Some s \<Longrightarrow> validate_state s"
  by (cases r) (simp_all add: decode_copy_iff)

lemma view_valid: "journal_view c = Inr cur \<Longrightarrow> validate_state (cur_state cur)"
  by (auto simp: journal_view_def select_current_def boot_state_initial_def validate_state_def
      split: option.splits if_splits dest!: decode_copy_valid)

lemma view_copy:
  assumes "journal_view c = Inr cur" and "cur_copy cur = Some k"
  shows "decode_copy (c (copy_index k)) = Some (cur_state cur)"
  using assms by (auto simp: journal_view_def select_current_def copy_index_def split: option.splits if_splits)

lemma select_first:
  assumes "decode_copy r0 = Some s"
  shows "select_current r0 r1 = (case decode_copy r1 of
      None \<Rightarrow> Inr \<lparr>cur_state = s, cur_copy = Some CopyFirst\<rparr>
    | Some t \<Rightarrow>
        if bs_generation s = bs_generation t \<and> s \<noteq> t then Inl BE_CorruptRecords
        else if bs_generation t \<le> bs_generation s then Inr \<lparr>cur_state = s, cur_copy = Some CopyFirst\<rparr>
        else Inr \<lparr>cur_state = t, cur_copy = Some CopySecond\<rparr>)"
  using assms by (auto simp: select_current_def split: option.split)

lemma select_second:
  assumes "decode_copy r1 = Some t"
  shows "select_current r0 r1 = (case decode_copy r0 of
      None \<Rightarrow> Inr \<lparr>cur_state = t, cur_copy = Some CopySecond\<rparr>
    | Some s \<Rightarrow>
        if bs_generation s = bs_generation t \<and> s \<noteq> t then Inl BE_CorruptRecords
        else if bs_generation t \<le> bs_generation s then Inr \<lparr>cur_state = s, cur_copy = Some CopyFirst\<rparr>
        else Inr \<lparr>cur_state = t, cur_copy = Some CopySecond\<rparr>)"
  using assms by (auto simp: select_current_def split: option.split)

lemma view_after_write:
  assumes v: "journal_view c = Inr cur" and k: "cur_copy cur = Some k"
    and same: "\<forall>j. j \<noteq> copy_index (copy_other k) \<longrightarrow> c' j = c j"
    and d: "decode_copy (c' (copy_index (copy_other k))) \<in> {None, decode_copy (c (copy_index (copy_other k))), Some n}"
    and g: "bs_generation (cur_state cur) < bs_generation n"
  shows "\<exists>cur'. journal_view c' = Inr cur' \<and> cur_copy cur' \<noteq> None \<and>
    cur_state cur' = (if decode_copy (c' (copy_index (copy_other k))) = Some n then n else cur_state cur)"
proof (cases k)
  case CopyFirst
  have s: "decode_copy (c 0) = Some (cur_state cur)" using view_copy [OF v k] by (simp add: CopyFirst copy_index_def)
  have i: "c' 0 = c 0" "copy_index (copy_other k) = 1" using same CopyFirst by (auto simp: copy_other_def copy_index_def)
  have vc: "journal_view c = select_current (c 0) (c 1)" "journal_view c' = select_current (c 0) (c' 1)"
    using i(1) by (simp_all add: journal_view_def)
  show ?thesis
    using v k d g CopyFirst unfolding vc i(2) select_first [OF s]
    by (auto split: option.splits if_splits)
next
  case CopySecond
  have s: "decode_copy (c 1) = Some (cur_state cur)" using view_copy [OF v k] by (simp add: CopySecond copy_index_def)
  have i: "c' 1 = c 1" "copy_index (copy_other k) = 0" using same CopySecond by (auto simp: copy_other_def copy_index_def)
  have vc: "journal_view c = select_current (c 0) (c 1)" "journal_view c' = select_current (c' 0) (c 1)"
    using i(1) by (simp_all add: journal_view_def)
  show ?thesis
    using v k d g CopySecond unfolding vc i(2) select_second [OF s]
    by (auto split: option.splits if_splits)
qed

section \<open>Stores\<close>

text \<open>What the journal relies on: reading returns what a copy holds and changes nothing, a write
  changes its own copy only and on success leaves the record there, and flushing changes nothing. A
  write that fails may leave anything in its copy.\<close>

locale journal_store =
  fixes st :: "'s boot_store"
    and copies :: "'s \<Rightarrow> nat \<Rightarrow> u8 list option"
  assumes read_law: "st_read_record st s i = (r, s') \<Longrightarrow> i < 2 \<Longrightarrow>
      copies s' = copies s \<and> (\<forall>c. r = Inr c \<longrightarrow> c = copies s i)"
    and write_law: "st_write_record st s i bytes = (w, s') \<Longrightarrow> i < 2 \<Longrightarrow>
      (\<forall>j. j \<noteq> i \<longrightarrow> copies s' j = copies s j) \<and> (w = Inr () \<longrightarrow> copies s' i = Some bytes)"
    and flush_law: "st_flush st s = (w, s') \<Longrightarrow> copies s' = copies s"
begin

lemma current_law:
  assumes "journal_current st s = (r, s')"
  shows "copies s' = copies s" and "r = Inr cur \<Longrightarrow> journal_view (copies s) = Inr cur"
    and "r = Inl e \<Longrightarrow> journal_view (copies s) = Inr cur \<Longrightarrow> \<exists>io. e = BE_Storage io"
proof -
  obtain r0 s1 where 0: "st_read_record st s 0 = (r0, s1)" by fastforce
  obtain r1 s2 where 1: "st_read_record st s1 1 = (r1, s2)" by fastforce
  have c: "copies s1 = copies s" "copies s2 = copies s1" "\<forall>c. r0 = Inr c \<longrightarrow> c = copies s 0"
    "\<forall>c. r1 = Inr c \<longrightarrow> c = copies s1 1"
    using read_law [OF 0] read_law [OF 1] by simp_all
  show "copies s' = copies s" using assms 0 1 c by (auto simp: journal_current_def split: sum.splits)
  show "journal_view (copies s) = Inr cur" if "r = Inr cur"
    using that assms 0 1 c by (auto simp: journal_current_def journal_view_def split: sum.splits)
  show "\<exists>io. e = BE_Storage io" if "r = Inl e" "journal_view (copies s) = Inr cur"
    using that assms 0 1 c by (auto simp: journal_current_def journal_view_def split: sum.splits)
qed

lemma persist_other:
  assumes "journal_persist st s cur next = (r, s')"
    and "j \<noteq> copy_index (case cur_copy cur of None \<Rightarrow> CopyFirst | Some c \<Rightarrow> copy_other c)"
  shows "copies s' j = copies s j"
  using assms
  by (auto simp: journal_persist_def Let_def split: option.splits if_splits prod.splits sum.splits
      dest!: write_law flush_law)

lemma persist_law:
  assumes p: "journal_persist st s cur next = (r, s')" and v: "validate_state next"
    and d: "d = (case cur_copy cur of None \<Rightarrow> CopyFirst | Some c \<Rightarrow> copy_other c)"
    and n: "n = next\<lparr>bs_generation := bs_generation (cur_state cur) + 1\<rparr>"
  shows "\<forall>j. j \<noteq> copy_index d \<longrightarrow> copies s' j = copies s j"
    and "r = Inr u \<Longrightarrow> decode_copy (copies s' (copy_index d)) = Some n"
    and "r = Inl e \<Longrightarrow> (\<exists>io. e = BE_Storage io) \<or> e = BE_GenerationExhausted \<and> s' = s"
    and "s' \<noteq> s \<or> r = Inr u \<Longrightarrow> bs_generation (cur_state cur) < bs_generation n"
proof -
  have val: "validate_state n" using v by (simp add: n validate_state_def)
  have enc: "encode_record n = Some (sealed (journal_body n))" by (simp add: encode_record_eq val)
  let ?ex = "unat (bs_generation (cur_state cur)) + 1 < 2 ^ 64"
  obtain w s1 where w: "st_write_record st s (copy_index d) (sealed (journal_body n)) = (w, s1)" by fastforce
  obtain fl s2 where fl: "st_flush st s1 = (fl, s2)" by fastforce
  note wl = write_law [OF w copy_index_less] and fll = flush_law [OF fl]
  have r: "(r, s') = (if \<not> ?ex then (Inl BE_GenerationExhausted, s)
      else case w of Inl e \<Rightarrow> (Inl (BE_Storage e), s1)
        | Inr _ \<Rightarrow> (case fl of Inl e \<Rightarrow> (Inl (BE_Storage e), s2) | Inr _ \<Rightarrow> (Inr (), s2)))"
    using p val enc w fl unfolding journal_persist_def checked_add_def d [symmetric]
    by (auto simp: n [symmetric] Let_def split: sum.splits if_splits)
  show "\<forall>j. j \<noteq> copy_index d \<longrightarrow> copies s' j = copies s j" using r wl fll by (auto split: if_splits sum.splits)
  show "decode_copy (copies s' (copy_index d)) = Some n" if "r = Inr u"
    using that r wl fll val by (auto simp: decode_copy_iff split: if_splits sum.splits)
  show "(\<exists>io. e = BE_Storage io) \<or> e = BE_GenerationExhausted \<and> s' = s" if "r = Inl e"
    using that r by (auto split: if_splits sum.splits)
  show "bs_generation (cur_state cur) < bs_generation n" if "s' \<noteq> s \<or> r = Inr u"
  proof -
    have "?ex" using that r by (auto split: if_splits)
    then show ?thesis by (simp add: n word_less_nat_alt unat_word_ariths)
  qed
qed

end

text \<open>A write that fails may be torn. What it leaves in its copy can be anything, but if it has a valid
  checksum then it is the record that was there or the one that was to be written.\<close>

locale guarded_store = journal_store st copies
  for st :: "'s boot_store" and copies :: "'s \<Rightarrow> nat \<Rightarrow> u8 list option" +
  assumes torn_law: "st_write_record st s i bytes = (Inl e, s') \<Longrightarrow> i < 2 \<Longrightarrow>
      decode_copy (copies s' i) \<in> {None, decode_copy (copies s i), decode_copy (Some bytes)}"
begin

lemma persist_torn:
  assumes p: "journal_persist st s cur next = (r, s')" and v: "validate_state next"
    and d: "d = (case cur_copy cur of None \<Rightarrow> CopyFirst | Some c \<Rightarrow> copy_other c)"
    and n: "n = next\<lparr>bs_generation := bs_generation (cur_state cur) + 1\<rparr>"
  shows "decode_copy (copies s' (copy_index d)) \<in> {None, decode_copy (copies s (copy_index d)), Some n}"
proof (cases "s' = s")
  case False
  have val: "validate_state n" using v by (simp add: n validate_state_def)
  have enc: "encode_record n = Some (sealed (journal_body n))" by (simp add: encode_record_eq val)
  obtain w s1 where w: "st_write_record st s (copy_index d) (sealed (journal_body n)) = (w, s1)" by fastforce
  obtain fl s2 where fl: "st_flush st s1 = (fl, s2)" by fastforce
  have "copies s' = copies s1"
    using False p val enc w fl flush_law [OF fl] unfolding journal_persist_def checked_add_def d [symmetric]
    by (auto simp: n [symmetric] Let_def split: sum.splits if_splits)
  moreover have "decode_copy (copies s1 (copy_index d)) \<in> {None, decode_copy (copies s (copy_index d)), Some n}"
  proof (cases w)
    case (Inl e)
    show ?thesis using torn_law [OF w [unfolded Inl] copy_index_less] val by simp
  next
    case (Inr u)
    then show ?thesis using write_law [OF w copy_index_less] val by simp
  qed
  ultimately show ?thesis by simp
qed simp

text \<open>Persisting beside a current record leaves the old state or the new one.\<close>

lemma persist_view:
  assumes v: "journal_view (copies s) = Inr cur" and c: "cur_copy cur = Some c"
    and p: "journal_persist st s cur nx = (r, s')" and val: "validate_state nx"
    and n: "n = nx\<lparr>bs_generation := bs_generation (cur_state cur) + 1\<rparr>"
  shows "\<exists>cur'. journal_view (copies s') = Inr cur' \<and> cur_copy cur' \<noteq> None \<and>
    (cur_state cur' = cur_state cur \<or> cur_state cur' = n) \<and> (r = Inr () \<longrightarrow> cur_state cur' = n)"
proof -
  have d: "copy_other c = (case cur_copy cur of None \<Rightarrow> CopyFirst | Some c \<Rightarrow> copy_other c)" by (simp add: c)
  note pl = persist_law [OF p val d n] and pt = persist_torn [OF p val d n]
  show ?thesis
  proof (cases "s' = s \<and> r \<noteq> Inr ()")
    case True
    then show ?thesis using v c by auto
  next
    case False
    then have g: "bs_generation (cur_state cur) < bs_generation n" using pl(4) by blast
    from view_after_write [where c' = "copies s'", OF v c pl(1) pt g]
    obtain cur' where "journal_view (copies s') = Inr cur'" "cur_copy cur' \<noteq> None"
      "cur_state cur' = (if decode_copy (copies s' (copy_index (copy_other c))) = Some n then n else cur_state cur)"
      by blast
    then show ?thesis using pl(2) by auto
  qed
qed

end

lemma write_valid:
  assumes "validate_state s" and "boot_write op s = Some n"
  shows "validate_state n"
proof -
  have "bs_attempts s + 1 \<le> 3" if "bs_attempts s < 3" using that by (rule inc_le)
  then show ?thesis using assms
    by (cases op) (auto simp: validate_state_def MAX_BOOT_ATTEMPTS_def not_less not_le split: if_splits)
qed

context journal_store
begin

text \<open>An operation either changes no copy, or persists the next state of the abstract machine.\<close>

lemma apply_shape:
  assumes v: "journal_view (copies s) = Inr cur" and k: "cur_copy cur \<noteq> None"
    and a: "journal_apply st op s = (err, s')"
  shows "copies s' = copies s \<and> (err = None \<longrightarrow> boot_write op (cur_state cur) = None) \<or>
    (\<exists>s1 nx r. copies s1 = copies s \<and> journal_persist st s1 cur nx = (r, s') \<and> err = error_of r \<and> validate_state nx \<and>
       boot_write op (cur_state cur) = Some nx)"
proof -
  obtain r0 s1 where c: "journal_current st s = (r0, s1)" by fastforce
  note cl = current_law [OF c]
  show ?thesis
  proof (cases r0)
    case (Inl e)
    then show ?thesis using a c cl(1)
      by (cases op) (auto simp: journal_stage_update_def journal_begin_boot_def journal_mark_boot_success_def)
  next
    case (Inr cur0)
    then have c': "journal_current st s = (Inr cur, s1)" using c cl(2) [of cur0] v by simp
    have val: "validate_state (cur_state cur)" using v by (rule view_valid)
    show ?thesis
    proof (cases "boot_write op (cur_state cur)")
      case None
      then have "s' = s1" using a c' k
        by (cases op) (auto simp: journal_stage_update_def journal_begin_boot_def journal_mark_boot_success_def Let_def
            split: if_splits option.splits)
      then show ?thesis using cl(1) None by simp
    next
      case (Some n)
      have "\<exists>r. journal_persist st s1 cur n = (r, s') \<and> err = error_of r"
        using a c' k Some
        by (cases op) (auto simp: journal_stage_update_def journal_begin_boot_def journal_mark_boot_success_def Let_def
            establish_baseline_def map_prod_def split: if_splits option.splits prod.splits sum.splits)
      then show ?thesis using cl(1) Some write_valid [OF val Some] by blast
    qed
  qed
qed

end

context guarded_store
begin

lemma apply_law:
  assumes v: "journal_view (copies s) = Inr cur" and k: "cur_copy cur \<noteq> None"
    and a: "journal_apply st op s = (err, s')"
  shows "\<exists>cur'. journal_view (copies s') = Inr cur' \<and> cur_copy cur' \<noteq> None \<and>
    (cur_state cur' = cur_state cur \<or> boot_next op (cur_state cur) = Some (cur_state cur')) \<and>
    (err = None \<longrightarrow> cur_state cur' = (case boot_next op (cur_state cur) of None \<Rightarrow> cur_state cur | Some n \<Rightarrow> n))"
  using apply_shape [OF v k a]
proof (elim disjE exE conjE)
  assume "copies s' = copies s" "err = None \<longrightarrow> boot_write op (cur_state cur) = None"
  then show ?thesis using v k by (auto simp: boot_next_def)
next
  fix s1 r and nx :: boot_control_state
  assume p: "copies s1 = copies s" "journal_persist st s1 cur nx = (r, s')" "err = error_of r" "validate_state nx"
    "boot_write op (cur_state cur) = Some nx"
  obtain c where c: "cur_copy cur = Some c" using k by blast
  have "journal_view (copies s1) = Inr cur" using v p(1) by simp
  from persist_view [OF this c p(2,4) refl] show ?thesis
    using p(3,5) by (cases r) (auto simp: boot_next_def error_of_def)
qed

text \<open>The first operation on an empty journal. Staging writes the baseline and then the next state; a torn
  baseline is a record that does not decode.\<close>

lemma fresh_law:
  assumes e: "copies s 0 = None" "copies s 1 = None" and a: "journal_apply st op s = (err, s')"
    and b: "b = boot_state_initial\<lparr>bs_generation := 1\<rparr>"
  shows "copies s' 0 = None \<and> copies s' 1 = None \<and> (err = None \<longrightarrow> boot_write op boot_state_initial = None) \<or>
    err \<noteq> None \<and> copies s' 0 \<noteq> None \<and> decode_copy (copies s' 0) = None \<and> copies s' 1 = None \<or>
    (\<exists>cur'. journal_view (copies s') = Inr cur' \<and> cur_copy cur' \<noteq> None \<and>
       (cur_state cur' = b \<or> boot_next op b = Some (cur_state cur')) \<and>
       (err = None \<longrightarrow> boot_next op b = Some (cur_state cur')))"
proof -
  let ?cur = "\<lparr>cur_state = boot_state_initial, cur_copy = None\<rparr>"
  let ?d = "\<lparr>cur_state = b, cur_copy = Some CopyFirst\<rparr>"
  have v: "journal_view (copies s) = Inr ?cur" using e by (simp add: journal_view_def select_current_def)
  obtain r0 s1 where c: "journal_current st s = (r0, s1)" by fastforce
  note cl = current_law [OF c]
  show ?thesis
  proof (cases "(\<exists>e. r0 = Inl e) \<or> boot_write op boot_state_initial = None")
    case True
    then have "s' = s1" using a c cl(2) v
      by (cases op; cases r0) (auto simp: journal_stage_update_def journal_begin_boot_def journal_mark_boot_success_def
          boot_state_initial_def split: if_splits)
    moreover have "err \<noteq> None" if "r0 = Inl x" for x using that a c
      by (cases op) (auto simp: journal_stage_update_def journal_begin_boot_def journal_mark_boot_success_def)
    ultimately show ?thesis using True cl(1) e by auto
  next
    case False
    then have r0: "r0 = Inr ?cur" using cl(2) v by (cases r0) auto
    obtain slot where op: "op = Op_Stage slot" "slot = SlotB"
      using False by (cases op; cases "case op of Op_Stage t \<Rightarrow> t | _ \<Rightarrow> SlotA")
        (auto simp: boot_state_initial_def split: if_splits)
    obtain p s2 where p: "journal_persist st s1 ?cur boot_state_initial = (p, s2)" by fastforce
    have val: "validate_state boot_state_initial" by (simp add: validate_state_def boot_state_initial_def)
    have bn: "b = boot_state_initial\<lparr>bs_generation := bs_generation (cur_state ?cur) + 1\<rparr>"
      by (simp add: b boot_state_initial_def)
    have first: "CopyFirst = (case cur_copy ?cur of None \<Rightarrow> CopyFirst | Some c \<Rightarrow> copy_other c)" by simp
    note pl = persist_law [OF p val first bn] and pt = persist_torn [OF p val first bn]
    have s2: "copies s2 1 = None" "decode_copy (copies s2 0) \<in> {None, Some b}"
      using pl(1) pt cl(1) e by (auto simp: copy_index_def)
    have v2: "journal_view (copies s2) = Inr ?d" if "decode_copy (copies s2 0) = Some b"
      using that s2(1) by (simp add: journal_view_def select_current_def)
    show ?thesis
    proof (cases p)
      case (Inl x)
      then have "s' = s2" "err \<noteq> None" using a c r0 p op
        by (auto simp: journal_stage_update_def establish_baseline_def boot_state_initial_def)
      then show ?thesis using s2 v2 by (cases "copies s2 0 = None") auto
    next
      case (Inr u)
      then have v2': "journal_view (copies s2) = Inr ?d" using v2 pl(2) by (simp add: copy_index_def)
      obtain r3 s3 where c3: "journal_current st s2 = (r3, s3)" by fastforce
      note cl3 = current_law [OF c3]
      have nx: "boot_write op b = Some (b\<lparr>bs_pending := Some slot, bs_attempts := 0\<rparr>)"
        by (simp add: op b boot_state_initial_def)
      have valb: "validate_state b" by (rule view_valid [OF v2', simplified])
      show ?thesis
      proof (cases r3)
        case (Inl x)
        then have "s' = s3" "err \<noteq> None" using a c r0 p op c3 \<open>p = Inr u\<close>
          by (auto simp: journal_stage_update_def establish_baseline_def boot_state_initial_def)
        then show ?thesis using v2' cl3(1) by auto
      next
        case (Inr cur3)
        then have cur3: "r3 = Inr ?d" using cl3(2) [of cur3] v2' by simp
        obtain q where q: "journal_persist st s3 ?d (b\<lparr>bs_pending := Some slot, bs_attempts := 0\<rparr>) = (q, s')"
          "err = error_of q"
          using a c r0 p op c3 \<open>p = Inr u\<close> cur3
          by (auto simp: journal_stage_update_def establish_baseline_def boot_state_initial_def map_prod_def split: prod.splits)
        have "journal_view (copies s3) = Inr ?d" using v2' cl3(1) by simp
        from persist_view [OF this _ q(1) write_valid [OF valb nx] refl] show ?thesis
          using q(2) nx by (cases q) (auto simp: boot_next_def error_of_def)
      qed
    qed
  qed
qed

end

section \<open>Sequences of boots\<close>

text \<open>The decision for a state, and the decisions of successive boots of the abstract machine.\<close>

definition boot_decide :: "boot_control_state \<Rightarrow> boot_decision" where
  "boot_decide s =
     (case bs_pending s of
        None \<Rightarrow> \<lparr>bd_slot = bs_confirmed s, bd_trial_attempt = 0, bd_rolled_back = False\<rparr>
      | Some pending \<Rightarrow>
          if MAX_BOOT_ATTEMPTS \<le> bs_attempts s
          then \<lparr>bd_slot = bs_confirmed s, bd_trial_attempt = 0, bd_rolled_back = True\<rparr>
          else \<lparr>bd_slot = pending, bd_trial_attempt = bs_attempts s + 1, bd_rolled_back = False\<rparr>)"

definition boot_after :: "boot_control_state \<Rightarrow> boot_control_state" where
  "boot_after s = (case boot_next Op_Begin s of None \<Rightarrow> s | Some n \<Rightarrow> n)"

text \<open>The decisions that are expected of successive boots: the trials that are left, with their attempt
  numbers, then the roll-back, then the confirmed slot again and again.\<close>

definition trial_boots :: "boot_control_state \<Rightarrow> boot_decision list" where
  "trial_boots s =
     (case bs_pending s of
        None \<Rightarrow> []
      | Some pending \<Rightarrow>
          map (\<lambda>k. \<lparr>bd_slot = pending, bd_trial_attempt = word_of_nat k, bd_rolled_back = False\<rparr>)
            [unat (bs_attempts s) + 1..<unat MAX_BOOT_ATTEMPTS + 1] @
          [\<lparr>bd_slot = bs_confirmed s, bd_trial_attempt = 0, bd_rolled_back = True\<rparr>])"

definition expected_boots :: "nat \<Rightarrow> boot_control_state \<Rightarrow> boot_decision list" where
  "expected_boots n s =
     take n (trial_boots s @
       replicate n \<lparr>bd_slot = bs_confirmed s, bd_trial_attempt = 0, bd_rolled_back = False\<rparr>)"

primrec spec_boots :: "nat \<Rightarrow> boot_control_state \<Rightarrow> boot_decision list" where
  "spec_boots 0 s = []"
| "spec_boots (Suc n) s = boot_decide s # spec_boots n (boot_after s)"

text \<open>The boots that are left for the trial.\<close>

definition trial_budget :: "boot_control_state \<Rightarrow> nat" where
  "trial_budget s = (if bs_pending s = None then 0 else unat MAX_BOOT_ATTEMPTS - unat (bs_attempts s))"

definition is_trial_boot :: "(boot_control_error, boot_decision) result \<Rightarrow> bool" where
  "is_trial_boot r = (case r of Inl _ \<Rightarrow> False | Inr d \<Rightarrow> bd_trial_attempt d \<noteq> 0)"

lemma is_trial_boot_simps [simp]:
  "\<not> is_trial_boot (Inl e)" "is_trial_boot (Inr d) \<longleftrightarrow> bd_trial_attempt d \<noteq> 0"
  by (simp_all add: is_trial_boot_def)

text \<open>Any number of boots one after the other, with the decision or the error of each.\<close>

inductive boot_sequence ::
  "'s boot_store \<Rightarrow> 's \<Rightarrow> (boot_control_error, boot_decision) result list \<Rightarrow> 's \<Rightarrow> bool"
  for st where
  no_boot: "boot_sequence st s [] s"
| one_boot: "journal_begin_boot st s = (r, s1) \<Longrightarrow> boot_sequence st s1 rs s2 \<Longrightarrow> boot_sequence st s (r # rs) s2"

definition decided :: "(boot_control_error, boot_decision) result list \<Rightarrow> boot_decision list" where
  "decided rs = List.map_filter (\<lambda>r. case r of Inl _ \<Rightarrow> None | Inr d \<Rightarrow> Some d) rs"

lemma decided_simps [simp]:
  "decided [] = []" "decided (Inl e # rs) = decided rs" "decided (Inr d # rs) = d # decided rs"
  "decided (map Inr ds) = ds"
  by (simp_all add: decided_def List.map_filter_def comp_def)

lemma spec_boots_mono: "subseq (spec_boots n s) (spec_boots (Suc n) s)"
  by (induction n arbitrary: s) simp_all

lemma boot_after_fields:
  assumes "validate_state s"
  shows "bs_confirmed (boot_after s) = bs_confirmed s"
    and "bs_pending (boot_after s) \<in> {None, bs_pending s}"
    and "trial_budget (boot_after s) \<le> trial_budget s"
    and "bd_trial_attempt (boot_decide s) \<noteq> 0 \<Longrightarrow> trial_budget (boot_after s) < trial_budget s"
proof -
  have "unat (bs_attempts s + 1) = unat (bs_attempts s) + 1" if "bs_attempts s < 3"
    using that by (simp add: word_less_nat_alt unat_word_ariths)
  then show "bs_confirmed (boot_after s) = bs_confirmed s"
    and "bs_pending (boot_after s) \<in> {None, bs_pending s}"
    and "trial_budget (boot_after s) \<le> trial_budget s"
    and "bd_trial_attempt (boot_decide s) \<noteq> 0 \<Longrightarrow> trial_budget (boot_after s) < trial_budget s"
    using assms
    by (auto simp: boot_after_def boot_next_def boot_decide_def trial_budget_def validate_state_def MAX_BOOT_ATTEMPTS_def
        not_le word_le_nat_alt word_less_nat_alt split: option.splits)
qed

lemma boot_decide_cases:
  assumes "validate_state s"
  shows "bd_trial_attempt (boot_decide s) = 0 \<Longrightarrow> bd_slot (boot_decide s) = bs_confirmed s"
    and "bd_trial_attempt (boot_decide s) \<noteq> 0 \<Longrightarrow> bs_pending s = Some (bd_slot (boot_decide s))"
proof -
  have "bs_attempts s + 1 \<noteq> 0" if "bs_attempts s < 3"
    using that by (simp add: word_less_nat_alt unat_word_ariths word_unat_eq_iff)
  then show "bd_trial_attempt (boot_decide s) = 0 \<Longrightarrow> bd_slot (boot_decide s) = bs_confirmed s"
    and "bd_trial_attempt (boot_decide s) \<noteq> 0 \<Longrightarrow> bs_pending s = Some (bd_slot (boot_decide s))"
    by (auto simp: boot_decide_def MAX_BOOT_ATTEMPTS_def not_le split: option.splits if_splits)
qed

lemma trial_boots_step:
  assumes "validate_state s" and "bs_pending s \<noteq> None"
  shows "trial_boots s = boot_decide s # trial_boots (boot_after s)"
proof -
  obtain p where p: "bs_pending s = Some p" using assms(2) by blast
  have le: "unat (bs_attempts s) \<le> 3" using assms(1) by (simp add: validate_state_def MAX_BOOT_ATTEMPTS_def word_less_nat_alt)
  show ?thesis
  proof (cases "unat (bs_attempts s) < 3")
    case True
    then have u: "unat (bs_attempts s + 1) = unat (bs_attempts s) + 1"
      by (simp add: unat_word_ariths)
    have w: "word_of_nat (unat (bs_attempts s) + 1) = bs_attempts s + 1" by simp
    have "[unat (bs_attempts s) + 1..<4] = (unat (bs_attempts s) + 1) # [unat (bs_attempts s) + 1 + 1..<4]"
      using True by (subst upt_rec) simp
    then show ?thesis using p True u w
      by (simp add: trial_boots_def boot_decide_def boot_after_def boot_next_def MAX_BOOT_ATTEMPTS_def word_le_nat_alt)
  next
    case False
    then have "unat (bs_attempts s) = 3" using le by simp
    then show ?thesis using p
      by (simp add: trial_boots_def boot_decide_def boot_after_def boot_next_def MAX_BOOT_ATTEMPTS_def word_le_nat_alt)
  qed
qed

lemma boot_after_valid: "validate_state s \<Longrightarrow> validate_state (boot_after s)"
  using write_valid [of s Op_Begin]
  by (auto simp: boot_after_def boot_next_def validate_state_def split: option.split)

lemma spec_boots_expected: "validate_state s \<Longrightarrow> spec_boots n s = expected_boots n s"
proof (induction n arbitrary: s)
  case (Suc n)
  have t: "take n (xs @ replicate (Suc n) c) = take n (xs @ replicate n c)" for xs and c :: boot_decision
    by (simp add: take_append del: replicate_Suc)
  show ?case
  proof (cases "bs_pending s = None")
    case True
    then have "boot_after s = s" by (simp add: boot_after_def boot_next_def)
    then show ?thesis using Suc True by (simp add: expected_boots_def trial_boots_def boot_decide_def)
  next
    case False
    have "bs_confirmed (boot_after s) = bs_confirmed s" by (rule boot_after_fields(1) [OF Suc.prems])
    then show ?thesis
      using Suc.IH [OF boot_after_valid [OF Suc.prems]] trial_boots_step [OF Suc.prems False] t
      by (simp add: expected_boots_def del: replicate_Suc)
  qed
qed (simp add: expected_boots_def)

context guarded_store
begin

lemma begin_boot_decides:
  assumes "journal_view (copies s) = Inr cur" and "journal_begin_boot st s = (Inr d, s')"
  shows "d = boot_decide (cur_state cur)"
proof -
  obtain r0 s1 where c: "journal_current st s = (r0, s1)" by fastforce
  then have "r0 = Inr cur" using current_law(2) [OF c] assms by (cases r0) (auto simp: journal_begin_boot_def)
  then show ?thesis using assms(2) c
    by (auto simp: journal_begin_boot_def boot_decide_def Let_def split: option.splits if_splits prod.splits sum.splits)
qed

lemma begin_boot_step:
  assumes v: "journal_view (copies s) = Inr cur" and b: "journal_begin_boot st s = (r, s')"
  obtains cur' where "journal_view (copies s') = Inr cur'"
    and "cur_state cur' = cur_state cur \<or> cur_state cur' = boot_after (cur_state cur)"
    and "\<forall>d. r = Inr d \<longrightarrow> d = boot_decide (cur_state cur) \<and> cur_state cur' = boot_after (cur_state cur)"
proof (cases "cur_copy cur = None")
  case True
  then have i: "cur_state cur = boot_state_initial"
    using v by (auto simp: journal_view_def select_current_def split: option.splits if_splits)
  obtain r0 s1 where c: "journal_current st s = (r0, s1)" by fastforce
  note cl = current_law [OF c]
  have "s' = s1" using b c cl(2) v i by (cases r0) (auto simp: journal_begin_boot_def boot_state_initial_def)
  moreover have "boot_after (cur_state cur) = cur_state cur"
    by (simp add: i boot_after_def boot_next_def boot_state_initial_def)
  ultimately show thesis using that [of cur] v cl(1) begin_boot_decides [OF v] b by simp
next
  case k: False
  have a: "journal_apply st Op_Begin s = (error_of r, s')" using b by simp
  obtain cur' where c: "journal_view (copies s') = Inr cur'"
    "cur_state cur' = cur_state cur \<or> boot_next Op_Begin (cur_state cur) = Some (cur_state cur')"
    "error_of r = None \<longrightarrow> cur_state cur' = boot_after (cur_state cur)"
    using apply_law [OF v k a] by (auto simp: boot_after_def)
  show thesis
  proof (rule that [OF c(1)])
    show "cur_state cur' = cur_state cur \<or> cur_state cur' = boot_after (cur_state cur)"
      using c(2) by (auto simp: boot_after_def)
    show "\<forall>d. r = Inr d \<longrightarrow> d = boot_decide (cur_state cur) \<and> cur_state cur' = boot_after (cur_state cur)"
      using begin_boot_decides [OF v] b c(3) by simp
  qed
qed

lemma boots_law:
  assumes "boot_sequence st s rs s'" and "journal_view (copies s) = Inr cur"
  shows "length (filter is_trial_boot rs) \<le> trial_budget (cur_state cur) \<and>
    (\<forall>d. Inr d \<in> set rs \<longrightarrow> (if bd_trial_attempt d = 0 then bd_slot d = bs_confirmed (cur_state cur)
       else bs_pending (cur_state cur) = Some (bd_slot d))) \<and>
    subseq (decided rs) (spec_boots (length rs) (cur_state cur))"
  using assms
proof (induction arbitrary: cur rule: boot_sequence.induct)
  case (one_boot s r s1 rs s2)
  have val: "validate_state (cur_state cur)" using one_boot.prems by (rule view_valid)
  note bf = boot_after_fields [OF val] and bd = boot_decide_cases [OF val]
  obtain cur' where c: "journal_view (copies s1) = Inr cur'"
    "cur_state cur' = cur_state cur \<or> cur_state cur' = boot_after (cur_state cur)"
    "\<forall>d. r = Inr d \<longrightarrow> d = boot_decide (cur_state cur) \<and> cur_state cur' = boot_after (cur_state cur)"
    by (rule begin_boot_step [OF one_boot.prems one_boot.hyps(1)])
  note ih = one_boot.IH [OF c(1)]
  have f: "bs_confirmed (cur_state cur') = bs_confirmed (cur_state cur)"
    "bs_pending (cur_state cur') \<in> {None, bs_pending (cur_state cur)}"
    "trial_budget (cur_state cur') \<le> trial_budget (cur_state cur)"
    using c(2) bf(1-3) by auto
  show ?case
  proof (intro conjI allI impI)
    show "length (filter is_trial_boot (r # rs)) \<le> trial_budget (cur_state cur)"
    proof (cases r)
      case (Inr d)
      then have "d = boot_decide (cur_state cur)" "cur_state cur' = boot_after (cur_state cur)" using c(3) by blast+
      then show ?thesis using conjunct1 [OF ih] f(3) bf(4) Inr by (cases "bd_trial_attempt d = 0") simp_all
    qed (use conjunct1 [OF ih] f(3) in simp)
  next
    fix d assume "Inr d \<in> set (r # rs)"
    then show "if bd_trial_attempt d = 0 then bd_slot d = bs_confirmed (cur_state cur)
       else bs_pending (cur_state cur) = Some (bd_slot d)"
    proof (cases "Inr d \<in> set rs")
      case True
      then have "if bd_trial_attempt d = 0 then bd_slot d = bs_confirmed (cur_state cur')
         else bs_pending (cur_state cur') = Some (bd_slot d)" using ih by blast
      then show ?thesis using f(1,2) by (auto split: if_splits)
    next
      case False
      then have "d = boot_decide (cur_state cur)" using \<open>Inr d \<in> set (r # rs)\<close> c(3) by simp
      then show ?thesis using bd by simp
    qed
  next
    have sub: "subseq (decided rs) (spec_boots (length rs) (cur_state cur'))" using ih by blast
    show "subseq (decided (r # rs)) (spec_boots (length (r # rs)) (cur_state cur))"
    proof (cases r)
      case (Inl e)
      show ?thesis
      proof (cases "cur_state cur' = boot_after (cur_state cur)")
        case True
        then show ?thesis using sub Inl by (simp add: list_emb_Cons)
      next
        case False
        then have "cur_state cur' = cur_state cur" using c(2) by blast
        then show ?thesis
          using subseq_order.order_trans [OF sub spec_boots_mono [of "length rs" "cur_state cur'"]] Inl by simp
      qed
    next
      case (Inr d)
      then show ?thesis using sub c(3) by simp
    qed
  qed
qed simp

end

context journal_store
begin

text \<open>A journal with records that do not decode refuses every operation.\<close>

lemma corrupt_law:
  assumes "journal_view (copies s) = Inl BE_CorruptRecords" and "journal_apply st op s = (err, s')"
  shows "err \<noteq> None \<and> copies s' = copies s"
proof -
  obtain r0 s1 where c: "journal_current st s = (r0, s1)" by fastforce
  have "\<exists>e. r0 = Inl e" using current_law(2) [OF c] assms(1) by (cases r0) auto
  then show ?thesis using assms(2) c current_law(1) [OF c]
    by (cases op) (auto simp: journal_stage_update_def journal_begin_boot_def journal_mark_boot_success_def)
qed

text \<open>The first write of a fresh journal, interrupted.\<close>

lemma torn_baseline_law:
  assumes "copies s 0 = None" and "copies s 1 = None"
    and st: "journal_stage_update st s slot = (r, s')"
    and torn: "copies s' 0 \<noteq> None" "decode_copy (copies s' 0) = None"
  shows "journal_view (copies s') = Inl BE_CorruptRecords"
proof -
  let ?cur = "\<lparr>cur_state = boot_state_initial, cur_copy = None\<rparr>"
  have v: "journal_view (copies s) = Inr ?cur" using assms(1,2) by (simp add: journal_view_def select_current_def)
  obtain r0 s1 where c: "journal_current st s = (r0, s1)" by fastforce
  note cl = current_law [OF c]
  have c1: "copies s1 = copies s" by (rule cl(1))
  have r0: "r0 = Inr ?cur" using cl(2) v torn c st assms(1) c1
    by (cases r0) (auto simp: journal_stage_update_def)
  obtain p s2 where p: "journal_persist st s1 ?cur boot_state_initial = (p, s2)" by fastforce
  have val: "validate_state boot_state_initial" by (simp add: validate_state_def boot_state_initial_def)
  note pl = persist_law [OF p val _ refl, of CopyFirst]
  have s2: "\<forall>j. j \<noteq> 0 \<longrightarrow> copies s2 j = copies s j" using pl(1) c1 by (simp add: copy_index_def)
  show ?thesis
  proof (cases p)
    case (Inl e)
    then have "copies s' = copies s2 \<or> copies s' = copies s"
      using st c r0 p c1 by (auto simp: journal_stage_update_def establish_baseline_def split: if_splits)
    then show ?thesis using torn s2 assms(1,2) by (auto simp: journal_view_def select_current_def)
  next
    case (Inr u)
    let ?n = "boot_state_initial\<lparr>bs_generation := bs_generation (cur_state ?cur) + 1\<rparr>"
    have d0: "decode_copy (copies s2 0) = Some ?n" using pl(2) [of u] Inr by (simp add: copy_index_def)
    then have v2: "journal_view (copies s2) = Inr \<lparr>cur_state = ?n, cur_copy = Some CopyFirst\<rparr>"
      using s2 assms(2) by (simp add: journal_view_def select_current_def)
    obtain r3 s3 where c3: "journal_current st s2 = (r3, s3)" by fastforce
    note cl3 = current_law [OF c3]
    have "decode_copy (copies s' 0) = decode_copy (copies s2 0) \<or> copies s' = copies s"
    proof (cases r3)
      case (Inl e)
      then show ?thesis using st c r0 p c1 c3 cl3(1) \<open>p = Inr u\<close>
        by (auto simp: journal_stage_update_def establish_baseline_def split: if_splits)
    next
      case (Inr cur3)
      then have cur3: "cur3 = \<lparr>cur_state = ?n, cur_copy = Some CopyFirst\<rparr>" using cl3(2) [of cur3] v2 by simp
      have "s' = s1 \<or> (\<exists>q nx. journal_persist st s3 cur3 nx = (q, s'))"
        using st c r0 p c1 c3 \<open>p = Inr u\<close> Inr
        by (auto simp: journal_stage_update_def establish_baseline_def split: if_splits)
      moreover have "copies s' 0 = copies s3 0" if "journal_persist st s3 cur3 nx = (q, s')" for q nx
        using persist_other [OF that, of 0] by (simp add: cur3 copy_other_def copy_index_def)
      ultimately show ?thesis using c1 cl3(1) by auto
    qed
    then show ?thesis using torn d0 assms(1) by auto
  qed
qed

end

section \<open>Firmware variables\<close>

text \<open>The documented behaviour of the firmware's variable services: looking at variables changes none
  and returns what is stored; setting a variable changes that variable only, and on success stores
  the bytes with their attributes.\<close>

locale firmware_variables =
  fixes vs :: "'f variable_services"
    and vars :: "'f \<Rightarrow> journal_variable \<Rightarrow> (u8 list \<times> u32) option"
  assumes exists_law: "vs_variable_exists vs f name = (r, f') \<Longrightarrow>
      vars f' = vars f \<and> (\<forall>b. r = Inr b \<longrightarrow> b = (vars f name \<noteq> None))"
    and get_law: "vs_get_variable vs f name n = (g, f') \<Longrightarrow>
      vars f' = vars f \<and> (\<forall>x. g = Inr x \<longrightarrow> vars f name = Some x)"
    and set_law: "vs_set_variable vs f name attributes bytes = (w, f') \<Longrightarrow>
      (\<forall>other. other \<noteq> name \<longrightarrow> vars f' other = vars f other) \<and>
      (w = Inr () \<longrightarrow> vars f' name = Some (bytes, attributes))"

definition uefi_copies ::
  "('f \<Rightarrow> journal_variable \<Rightarrow> (u8 list \<times> u32) option) \<Rightarrow> 'f \<Rightarrow> nat \<Rightarrow> u8 list option" where
  "uefi_copies vars f i = (case store_name i of Inl _ \<Rightarrow> None | Inr name \<Rightarrow> map_option fst (vars f name))"

lemma store_name_inj: "store_name i = Inr name \<Longrightarrow> store_name j = Inr name \<Longrightarrow> i = j"
  by (auto simp: store_name_def split: if_splits)

lemma store_name_ok: "i < 2 \<Longrightarrow> \<exists>name. store_name i = Inr name"
  by (auto simp: store_name_def)

text \<open>In addition, a call that fails does not leave a record with a valid checksum in the variable, other than
  the one that was there or the one it was given.\<close>

locale guarded_variables = firmware_variables vs vars
  for vs :: "'f variable_services" and vars :: "'f \<Rightarrow> journal_variable \<Rightarrow> (u8 list \<times> u32) option" +
  assumes torn_law: "vs_set_variable vs f name attributes bytes = (Inl e, f') \<Longrightarrow>
      decode_copy (map_option fst (vars f' name)) \<in>
        {None, decode_copy (map_option fst (vars f name)), decode_copy (Some bytes)}"

sublocale firmware_variables \<subseteq> uefi: journal_store "uefi_store vs" "uefi_copies vars"
proof
  fix f i r f' assume a: "st_read_record (uefi_store vs) f i = (r, f')" and "i < 2"
  then obtain name where n: "store_name i = Inr name" using store_name_ok by blast
  obtain e f1 where e: "vs_variable_exists vs f name = (e, f1)" by fastforce
  obtain g f2 where g: "vs_get_variable vs f1 name RECORD_SIZE = (g, f2)" by fastforce
  note el = exists_law [OF e] and gl = get_law [OF g]
  have "vars f' = vars f" using a n e g el gl
    by (auto simp: uefi_store_def uefi_read_record_def split: sum.splits if_splits)
  moreover have "c = map_option fst (vars f name)" if "r = Inr c" for c
    using that a n e g el gl
    by (cases "vars f name") (auto simp: uefi_store_def uefi_read_record_def split: sum.splits if_splits)
  ultimately show "uefi_copies vars f' = uefi_copies vars f \<and> (\<forall>c. r = Inr c \<longrightarrow> c = uefi_copies vars f i)"
    using n by (auto simp: uefi_copies_def fun_eq_iff split: sum.split)
next
  fix f i bytes w f' assume a: "st_write_record (uefi_store vs) f i bytes = (w, f')" and "i < 2"
  then obtain name where n: "store_name i = Inr name" using store_name_ok by blast
  obtain x f1 where x: "vs_set_variable vs f name REQUIRED_ATTRIBUTES bytes = (x, f1)" by fastforce
  have f1: "f1 = f'" "w = Inr () \<longleftrightarrow> x = Inr ()"
    using a n x by (auto simp: uefi_store_def uefi_write_record_def split: sum.splits)
  note sl = set_law [OF x]
  have "uefi_copies vars f' j = uefi_copies vars f j" if "j \<noteq> i" for j
  proof (cases "store_name j")
    case (Inr other)
    then have "other \<noteq> name" using that n store_name_inj by blast
    then show ?thesis using sl f1 Inr by (simp add: uefi_copies_def)
  qed (simp add: uefi_copies_def)
  then show "(\<forall>j. j \<noteq> i \<longrightarrow> uefi_copies vars f' j = uefi_copies vars f j) \<and>
      (w = Inr () \<longrightarrow> uefi_copies vars f' i = Some bytes)"
    using sl f1 n by (simp add: uefi_copies_def)
next
  fix f w f' assume "st_flush (uefi_store vs) f = (w, f')"
  then show "uefi_copies vars f' = uefi_copies vars f" by (simp add: uefi_store_def uefi_flush_def)
qed

context firmware_variables
begin

lemma uefi_contract: "journal_store (uefi_store vs) (uefi_copies vars)"
  by (rule uefi.journal_store_axioms)

end

sublocale guarded_variables \<subseteq> guarded: guarded_store "uefi_store vs" "uefi_copies vars"
proof
  fix f i bytes e f' assume a: "st_write_record (uefi_store vs) f i bytes = (Inl e, f')" and "i < 2"
  then obtain name where n: "store_name i = Inr name" using store_name_ok by blast
  obtain x f1 where x: "vs_set_variable vs f name REQUIRED_ATTRIBUTES bytes = (x, f1)" by fastforce
  then have "f1 = f'" "x = Inl ()" using a n by (auto simp: uefi_store_def uefi_write_record_def split: sum.splits)
  then show "decode_copy (uefi_copies vars f' i) \<in> {None, decode_copy (uefi_copies vars f i), decode_copy (Some bytes)}"
    using torn_law x n by (simp add: uefi_copies_def)
qed

context guarded_variables
begin

lemma guarded_contract: "guarded_store (uefi_store vs) (uefi_copies vars)"
  by (rule guarded.guarded_store_axioms)

end

text \<open>Variable services in memory, in which the next writes may fail: the first bytes reach the variable, all
  of them if the number is at least that of a record, and the write reports an error.\<close>

record nv_state =
  nv_vars :: "journal_variable \<Rightarrow> (u8 list \<times> u32) option"
  nv_torn :: "nat option list"

definition nv_services :: "nv_state variable_services" where
  "nv_services =
     \<lparr>vs_variable_exists = (\<lambda>f name. (Inr (nv_vars f name \<noteq> None), f)),
      vs_get_variable = (\<lambda>f name n.
        (case nv_vars f name of
           None \<Rightarrow> (Inl (), f)
         | Some (bytes, attributes) \<Rightarrow> if length bytes \<le> n then (Inr (bytes, attributes), f) else (Inl (), f))),
      vs_set_variable = (\<lambda>f name attributes bytes.
        (case nv_torn f of
           Some k # rest \<Rightarrow>
             (Inl (), f\<lparr>nv_vars := (nv_vars f)(name \<mapsto> (if k < RECORD_SIZE then take k bytes else bytes, attributes)),
                nv_torn := rest\<rparr>)
         | torn \<Rightarrow> (Inr (), f\<lparr>nv_vars := (nv_vars f)(name \<mapsto> (bytes, attributes)), nv_torn := tl torn\<rparr>)))\<rparr>"

interpretation nv: guarded_variables nv_services nv_vars
  by unfold_locales
    (auto simp: nv_services_def RECORD_SIZE_def split: option.splits if_splits list.splits)

section \<open>Properties\<close>

text \<open>C6. The journal survives interrupted writes. Whatever happens during staging, beginning a boot or
  confirming, a failed or torn write included: if the journal holds a record, then afterwards it holds either
  the state from before or the next state of the operation, and it is the next state if the operation reports
  success. If the journal is empty, then afterwards it is still empty, or holds the baseline or the state that
  follows from it, the latter if an operation that writes reports success, or the operation failed and
  left a first record that does not decode. The firmware's variable services behave as documented, and a
  call of them that fails does not leave a record with a valid checksum other than the one that was there or
  the one it was given.\<close>

theorem journal_crash_safe:
  assumes "guarded_variables vs vars"
    and v: "journal_view (uefi_copies vars f) = Inr cur"
    and a: "journal_apply (uefi_store vs) op f = (err, f')"
  defines "baseline \<equiv> boot_state_initial\<lparr>bs_generation := 1\<rparr>"
  shows "if cur_copy cur \<noteq> None then
      \<exists>cur'. journal_view (uefi_copies vars f') = Inr cur' \<and> cur_copy cur' \<noteq> None \<and>
        (cur_state cur' = cur_state cur \<or> boot_next op (cur_state cur) = Some (cur_state cur')) \<and>
        (err = None \<longrightarrow> cur_state cur' = (case boot_next op (cur_state cur) of None \<Rightarrow> cur_state cur | Some n \<Rightarrow> n))
    else
      uefi_copies vars f' 0 = None \<and> uefi_copies vars f' 1 = None \<and>
        (err = None \<longrightarrow> boot_write op boot_state_initial = None) \<or>
      err \<noteq> None \<and> uefi_copies vars f' 0 \<noteq> None \<and> decode_copy (uefi_copies vars f' 0) = None \<and>
        uefi_copies vars f' 1 = None \<or>
      (\<exists>cur'. journal_view (uefi_copies vars f') = Inr cur' \<and> cur_copy cur' \<noteq> None \<and>
        (cur_state cur' = baseline \<or> boot_next op baseline = Some (cur_state cur')) \<and>
        (err = None \<longrightarrow> boot_next op baseline = Some (cur_state cur')))"
proof -
  note c = guarded_variables.guarded_contract [OF assms(1)]
  show ?thesis
  proof (cases "cur_copy cur = None")
    case True
    then have "uefi_copies vars f 0 = None" "uefi_copies vars f 1 = None"
      using v by (auto simp: journal_view_def select_current_def split: option.splits if_splits)
    from guarded_store.fresh_law [OF c this a meta_eq_to_obj_eq [OF baseline_def]] show ?thesis using True by simp
  next
    case False
    from guarded_store.apply_law [OF c v False a] show ?thesis using False by simp
  qed
qed

text \<open>A journal with a staged update of slot B, in its first copy.\<close>

definition sample_staged :: "u8 \<Rightarrow> boot_control_state" where
  "sample_staged attempts =
     \<lparr>bs_confirmed = SlotA, bs_pending = Some SlotB, bs_attempts = attempts, bs_generation = 2\<rparr>"

definition sample_nv :: "u8 \<Rightarrow> nat option list \<Rightarrow> nv_state" where
  "sample_nv attempts torn =
     \<lparr>nv_vars = [NagiBootControl0 \<mapsto> (sealed (journal_body (sample_staged attempts)), REQUIRED_ATTRIBUTES)],
      nv_torn = torn\<rparr>"

lemmas journal_eval = journal_begin_boot_def journal_current_def journal_persist_def uefi_store_def
  uefi_read_record_def uefi_write_record_def uefi_flush_def nv_services_def store_name_def uefi_copies_def
  copy_index_def copy_other_def RECORD_SIZE_def

lemma sample_view:
  assumes "attempts \<le> 3"
  shows "journal_view (uefi_copies nv_vars (sample_nv attempts torn)) =
    Inr \<lparr>cur_state = sample_staged attempts, cur_copy = Some CopyFirst\<rparr>"
proof -
  have "validate_state (sample_staged attempts)"
    using assms by (simp add: validate_state_def sample_staged_def MAX_BOOT_ATTEMPTS_def not_less)
  then show ?thesis
    by (simp add: journal_view_def uefi_copies_def sample_nv_def store_name_def select_current_def)
qed

theorem journal_crash_safe_witness:
  "\<exists>f'. journal_apply (uefi_store nv_services) Op_Begin (sample_nv 1 [Some 11]) = (Some (BE_Storage SE_Io), f') \<and>
     uefi_copies nv_vars f' 1 \<noteq> None \<and>
     (\<exists>cur'. journal_view (uefi_copies nv_vars f') = Inr cur' \<and>
        (cur_state cur' = sample_staged 1 \<or> boot_next Op_Begin (sample_staged 1) = Some (cur_state cur')))"
proof -
  let ?f = "sample_nv 1 [Some 11]"
  have v: "journal_view (uefi_copies nv_vars ?f) = Inr \<lparr>cur_state = sample_staged 1, cur_copy = Some CopyFirst\<rparr>"
    by (rule sample_view) simp
  have val: "validate_state (sample_staged 1)" by (rule view_valid [OF v, simplified])
  let ?n = "(sample_staged 1)\<lparr>bs_attempts := 2, bs_generation := 3\<rparr>"
  have valn: "validate_state ?n" by (simp add: validate_state_def sample_staged_def MAX_BOOT_ATTEMPTS_def)
  have three: "\<not> (3 :: u8) \<le> 1" by code_simp
  let ?f' = "\<lparr>nv_vars = (nv_vars ?f)(NagiBootControl1 \<mapsto> (take 11 (sealed (journal_body ?n)), REQUIRED_ATTRIBUTES)), nv_torn = []\<rparr>"
  have a: "journal_apply (uefi_store nv_services) Op_Begin ?f = (Some (BE_Storage SE_Io), ?f')"
    using val valn three
    by (simp add: journal_eval sample_nv_def select_current_def encode_record_eq checked_add_def
        sample_staged_def MAX_BOOT_ATTEMPTS_def Let_def)
  have c: "uefi_copies nv_vars ?f' 0 = uefi_copies nv_vars ?f 0"
    "uefi_copies nv_vars ?f' 1 = Some (take 11 (sealed (journal_body ?n)))"
    by (simp_all add: uefi_copies_def store_name_def)
  then show ?thesis
    using journal_crash_safe [OF nv.guarded_variables_axioms v a] a c(2) by auto
qed

text \<open>C7. A trial has a fixed number of boots. In any sequence of boots, interrupted or failed ones
  included, the pending slot is booted at most as often as attempts were left, and every other boot that
  is decided takes the confirmed slot. The boots that are decided follow, in order, the expected ones: the
  trials that are left with increasing attempt numbers, then the roll-back, then the confirmed slot. A failed
  boot may use up one of the expected boots; if every boot is decided, they are exactly the expected
  ones. The firmware's variable services behave as for the previous property.\<close>

theorem trials_are_bounded:
  assumes "guarded_variables vs vars"
    and "journal_view (uefi_copies vars f) = Inr cur"
    and "boot_sequence (uefi_store vs) f rs f'"
  shows "length (filter is_trial_boot rs) \<le> trial_budget (cur_state cur) \<and>
    (\<forall>d. Inr d \<in> set rs \<longrightarrow> (if bd_trial_attempt d = 0 then bd_slot d = bs_confirmed (cur_state cur)
       else bs_pending (cur_state cur) = Some (bd_slot d))) \<and>
    subseq (decided rs) (expected_boots (length rs) (cur_state cur)) \<and>
    (\<forall>ds. rs = map Inr ds \<longrightarrow> ds = expected_boots (length ds) (cur_state cur))"
proof -
  note l = guarded_store.boots_law [OF guarded_variables.guarded_contract [OF assms(1)] assms(3,2)]
  have e: "spec_boots n (cur_state cur) = expected_boots n (cur_state cur)" for n
    by (rule spec_boots_expected [OF view_valid [OF assms(2)]])
  have "ds = expected_boots (length ds) (cur_state cur)" if "rs = map Inr ds" for ds
  proof (rule subseq_same_length)
    show "subseq ds (expected_boots (length ds) (cur_state cur))" using l that unfolding e by simp
    show "length ds = length (expected_boots (length ds) (cur_state cur))" by (simp add: expected_boots_def)
  qed
  then show ?thesis using l unfolding e by blast
qed

text \<open>The first of two boots fails after its record was written in full: the second is the third attempt.\<close>

theorem trials_are_bounded_witness:
  "(\<exists>f'. boot_sequence (uefi_store nv_services) (sample_nv 1 [Some 32])
      [Inl (BE_Storage SE_Io), Inr \<lparr>bd_slot = SlotB, bd_trial_attempt = 3, bd_rolled_back = False\<rparr>] f') \<and>
   subseq [\<lparr>bd_slot = SlotB, bd_trial_attempt = 3, bd_rolled_back = False\<rparr>] (expected_boots 2 (sample_staged 1)) \<and>
   expected_boots 5 (sample_staged 0) =
       [\<lparr>bd_slot = SlotB, bd_trial_attempt = 1, bd_rolled_back = False\<rparr>,
        \<lparr>bd_slot = SlotB, bd_trial_attempt = 2, bd_rolled_back = False\<rparr>,
        \<lparr>bd_slot = SlotB, bd_trial_attempt = 3, bd_rolled_back = False\<rparr>,
        \<lparr>bd_slot = SlotA, bd_trial_attempt = 0, bd_rolled_back = True\<rparr>,
        \<lparr>bd_slot = SlotA, bd_trial_attempt = 0, bd_rolled_back = False\<rparr>]"
proof -
  let ?f = "sample_nv 1 [Some 32]"
  have v: "journal_view (uefi_copies nv_vars ?f) = Inr \<lparr>cur_state = sample_staged 1, cur_copy = Some CopyFirst\<rparr>"
    by (rule sample_view) simp
  let ?n = "(sample_staged 1)\<lparr>bs_attempts := 2, bs_generation := 3\<rparr>"
  let ?m = "(sample_staged 1)\<lparr>bs_attempts := 3, bs_generation := 4\<rparr>"
  have val: "validate_state (sample_staged 1)" "validate_state ?n" "validate_state ?m"
    by (simp_all add: validate_state_def sample_staged_def MAX_BOOT_ATTEMPTS_def)
  have three: "\<not> (3 :: u8) \<le> 1" "\<not> (3 :: u8) \<le> 2" by code_simp+
  let ?f1 = "\<lparr>nv_vars = (nv_vars ?f)(NagiBootControl1 \<mapsto> (sealed (journal_body ?n), REQUIRED_ATTRIBUTES)), nv_torn = []\<rparr>"
  have b1: "journal_begin_boot (uefi_store nv_services) ?f = (Inl (BE_Storage SE_Io), ?f1)"
    using val three
    by (simp add: journal_eval sample_nv_def select_current_def encode_record_eq checked_add_def
        sample_staged_def MAX_BOOT_ATTEMPTS_def Let_def)
  let ?d = "\<lparr>bd_slot = SlotB, bd_trial_attempt = 3, bd_rolled_back = False\<rparr>"
  obtain f2 where b2: "journal_begin_boot (uefi_store nv_services) ?f1 = (Inr ?d, f2)"
    using val three
    by (simp add: journal_eval sample_nv_def select_current_def encode_record_eq checked_add_def
        sample_staged_def MAX_BOOT_ATTEMPTS_def Let_def)
  have s: "boot_sequence (uefi_store nv_services) ?f [Inl (BE_Storage SE_Io), Inr ?d] f2"
    by (intro one_boot [OF b1] one_boot [OF b2] no_boot)
  have "subseq [?d] (expected_boots 2 (sample_staged 1))"
    using trials_are_bounded [OF nv.guarded_variables_axioms v s] by (simp add: numeral_2_eq_2)
  moreover have "expected_boots 5 (sample_staged 0) =
       [\<lparr>bd_slot = SlotB, bd_trial_attempt = 1, bd_rolled_back = False\<rparr>,
        \<lparr>bd_slot = SlotB, bd_trial_attempt = 2, bd_rolled_back = False\<rparr>,
        \<lparr>bd_slot = SlotB, bd_trial_attempt = 3, bd_rolled_back = False\<rparr>,
        \<lparr>bd_slot = SlotA, bd_trial_attempt = 0, bd_rolled_back = True\<rparr>,
        \<lparr>bd_slot = SlotA, bd_trial_attempt = 0, bd_rolled_back = False\<rparr>]" by code_simp
  ultimately show ?thesis using s by blast
qed

text \<open>C37. The protection does not cover the very first record. If the journal is empty and the write of
  the baseline record is interrupted so that a record is left that does not decode, then every later
  operation, beginning a boot included, fails and changes nothing: no valid generation is left.\<close>

theorem torn_first_record_is_fatal:
  assumes "firmware_variables vs vars"
    and "uefi_copies vars f 0 = None" and "uefi_copies vars f 1 = None"
    and "journal_stage_update (uefi_store vs) f slot = (r, f')"
    and "uefi_copies vars f' 0 \<noteq> None" and "decode_copy (uefi_copies vars f' 0) = None"
    and "journal_apply (uefi_store vs) op f' = (err, f'')"
  shows "err \<noteq> None \<and> uefi_copies vars f'' = uefi_copies vars f'"
proof -
  note c = firmware_variables.uefi_contract [OF assms(1)]
  show ?thesis
    by (rule journal_store.corrupt_law [OF c journal_store.torn_baseline_law [OF c assms(2-6)] assms(7)])
qed

theorem torn_first_record_is_fatal_witness:
  "\<exists>f' f''. journal_stage_update (uefi_store nv_services) \<lparr>nv_vars = Map.empty, nv_torn = [Some 11]\<rparr> SlotB =
       (Inl (BE_Storage SE_Io), f') \<and>
     journal_apply (uefi_store nv_services) Op_Begin f' = (Some BE_CorruptRecords, f'')"
proof -
  let ?f = "\<lparr>nv_vars = Map.empty, nv_torn = [Some 11]\<rparr>"
  let ?n = "boot_state_initial\<lparr>bs_generation := 1\<rparr>"
  have val: "validate_state ?n" by (simp add: validate_state_def boot_state_initial_def)
  let ?f' = "\<lparr>nv_vars = [NagiBootControl0 \<mapsto> (take 11 (sealed (journal_body ?n)), REQUIRED_ATTRIBUTES)], nv_torn = []\<rparr>"
  have s: "journal_stage_update (uefi_store nv_services) ?f SlotB = (Inl (BE_Storage SE_Io), ?f')"
    using val
    by (simp add: journal_stage_update_def establish_baseline_def journal_eval select_current_def encode_record_eq
        checked_add_def boot_state_initial_def Let_def)
  have b: "journal_apply (uefi_store nv_services) Op_Begin ?f' = (Some BE_CorruptRecords, ?f')"
    by (simp add: journal_eval select_current_def)
  have "uefi_copies nv_vars ?f' 0 = Some (take 11 (sealed (journal_body ?n)))"
    "uefi_copies nv_vars ?f 0 = None" "uefi_copies nv_vars ?f 1 = None"
    by (simp_all add: uefi_copies_def store_name_def)
  then show ?thesis using torn_first_record_is_fatal [OF nv.firmware_variables_axioms _ _ s _ _ b] s b by auto
qed

end
