(* ===== verification/User_Elf.thy ===== *)
theory User_Elf
  imports Bytes
begin

text \<open>
  The parser of user program images (\<open>kernel/src/user_elf.rs\<close>): the checks of the ELF header, the two
  passes over the program headers, and the validation of load and TLS segments. An image is a list
  of bytes. Writing a segment past the end of the plan's array would stop the kernel; it is the result
  \<open>EE_Panic\<close>, which no image produces. The lemmas show what an accepted plan guarantees.
\<close>

section \<open>Plans\<close>

definition USER_IMAGE_BASE :: u64 where "USER_IMAGE_BASE = 0x400000000000"
definition USER_IMAGE_LIMIT :: u64 where "USER_IMAGE_LIMIT = USER_IMAGE_BASE + 512 * 1024 * 1024"
definition MAX_LOAD_SEGMENTS :: nat where "MAX_LOAD_SEGMENTS = 16"
definition ELF_HEADER_SIZE :: nat where "ELF_HEADER_SIZE = 64"
definition PROGRAM_HEADER_SIZE :: nat where "PROGRAM_HEADER_SIZE = 56"
definition ELF_PAGE_SIZE :: u64 where "ELF_PAGE_SIZE = 4096"
definition PT_LOAD :: u32 where "PT_LOAD = 1"
definition PT_TLS :: u32 where "PT_TLS = 7"
definition PF_X :: u32 where "PF_X = 1"
definition PF_W :: u32 where "PF_W = 2"

record user_load_segment =
  ls_file_offset :: u64
  ls_virtual_address :: u64
  ls_file_size :: u64
  ls_memory_size :: u64
  ls_flags :: u32

record user_tls_segment =
  tl_file_offset :: u64
  tl_virtual_address :: u64
  tl_file_size :: u64
  tl_memory_size :: u64
  tl_alignment :: u64

record user_load_plan =
  lp_entry :: u64
  lp_segments :: "user_load_segment list"
  lp_segment_count :: nat
  lp_tls :: "user_tls_segment option"

datatype user_elf_error =
    EE_Truncated | EE_BadMagic | EE_UnsupportedClass | EE_UnsupportedEncoding | EE_UnsupportedVersion
  | EE_UnsupportedType | EE_UnsupportedMachine | EE_InvalidProgramHeaders | EE_NoLoadSegments
  | EE_TooManyLoadSegments | EE_DuplicateTlsSegment | EE_InvalidSegment | EE_SegmentOutOfRange
  | EE_InvalidTlsSegment | EE_TlsSegmentOutOfRange | EE_TlsSegmentTooLarge | EE_WritableExecutable
  | EE_OverlappingSegments | EE_EntryNotExecutable | EE_Panic

definition segment_default :: user_load_segment where
  "segment_default =
     \<lparr>ls_file_offset = 0, ls_virtual_address = 0, ls_file_size = 0, ls_memory_size = 0, ls_flags = 0\<rparr>"

section \<open>Reading integers\<close>

text \<open>The \<open>?\<close> operator.\<close>

definition try_result :: "('e, 'a) result \<Rightarrow> ('a \<Rightarrow> ('e, 'b) result) \<Rightarrow> ('e, 'b) result" where
  "try_result r f = (case r of Inl e \<Rightarrow> Inl e | Inr x \<Rightarrow> f x)"

definition read_u16 :: "u8 list \<Rightarrow> nat \<Rightarrow> (user_elf_error, u16) result" where
  "read_u16 bytes offset =
     (if offset + 2 \<le> length bytes then Inr (from_le_bytes (slice offset (offset + 2) bytes)) else Inl EE_Truncated)"

definition read_u32 :: "u8 list \<Rightarrow> nat \<Rightarrow> (user_elf_error, u32) result" where
  "read_u32 bytes offset =
     (if offset + 4 \<le> length bytes then Inr (from_le_bytes (slice offset (offset + 4) bytes)) else Inl EE_Truncated)"

definition read_u64 :: "u8 list \<Rightarrow> nat \<Rightarrow> (user_elf_error, u64) result" where
  "read_u64 bytes offset =
     (if offset + 8 \<le> length bytes then Inr (from_le_bytes (slice offset (offset + 8) bytes)) else Inl EE_Truncated)"

section \<open>Segments\<close>

text \<open>The loop over the segments that are already in the plan.\<close>

definition overlaps_existing :: "user_load_plan \<Rightarrow> u64 \<Rightarrow> u64 \<Rightarrow> bool" where
  "overlaps_existing plan start memory_end =
     list_ex (\<lambda>existing. start < ls_virtual_address existing + ls_memory_size existing \<and>
         ls_virtual_address existing < memory_end)
       (take (lp_segment_count plan) (lp_segments plan))"

definition validate_segment ::
  "u8 list \<Rightarrow> user_load_plan \<Rightarrow> user_load_segment \<Rightarrow> (user_elf_error, unit) result" where
  "validate_segment bytes plan seg =
     (if ls_memory_size seg = 0 \<or> ls_memory_size seg < ls_file_size seg \<or>
         \<not> is_multiple_of (ls_virtual_address seg) ELF_PAGE_SIZE \<or>
         \<not> is_multiple_of (ls_file_offset seg) ELF_PAGE_SIZE
      then Inl EE_InvalidSegment
      else if ls_flags seg AND (PF_W OR PF_X) = PF_W OR PF_X then Inl EE_WritableExecutable
      else
        (case checked_add (ls_file_offset seg) (ls_file_size seg) of
           None \<Rightarrow> Inl EE_InvalidSegment
         | Some file_end \<Rightarrow>
             if length bytes < unat file_end then Inl EE_InvalidSegment
             else
               (case checked_add (ls_virtual_address seg) (ls_memory_size seg) of
                  None \<Rightarrow> Inl EE_SegmentOutOfRange
                | Some memory_end \<Rightarrow>
                    if ls_virtual_address seg < USER_IMAGE_BASE \<or> USER_IMAGE_LIMIT < memory_end
                    then Inl EE_SegmentOutOfRange
                    else if overlaps_existing plan (ls_virtual_address seg) memory_end
                    then Inl EE_OverlappingSegments
                    else Inr ())))"

definition validate_tls_segment :: "u8 list \<Rightarrow> user_tls_segment \<Rightarrow> (user_elf_error, unit) result" where
  "validate_tls_segment bytes tls =
     (let alignment = max (tl_alignment tls) 1 in
      if tl_memory_size tls = 0 \<or> tl_memory_size tls < tl_file_size tls \<or> ELF_PAGE_SIZE < tl_alignment tls \<or>
         \<not> is_power_of_two alignment \<or>
         tl_virtual_address tls mod alignment \<noteq> tl_file_offset tls mod alignment
      then Inl EE_InvalidTlsSegment
      else
        (case checked_add (tl_virtual_address tls) (tl_memory_size tls) of
           None \<Rightarrow> Inl EE_TlsSegmentOutOfRange
         | Some memory_end \<Rightarrow>
             if tl_virtual_address tls < USER_IMAGE_BASE \<or> USER_IMAGE_LIMIT < memory_end
             then Inl EE_TlsSegmentOutOfRange
             else
               (case checked_add (tl_file_offset tls) (tl_file_size tls) of
                  None \<Rightarrow> Inl EE_TlsSegmentOutOfRange
                | Some file_end \<Rightarrow>
                    if length bytes < unat file_end then Inl EE_TlsSegmentOutOfRange
                    else
                      (case checked_add (tl_memory_size tls) (alignment - 1) of
                         None \<Rightarrow> Inl EE_TlsSegmentTooLarge
                       | Some padded \<Rightarrow>
                           if ELF_PAGE_SIZE < padded AND NOT (alignment - 1) then Inl EE_TlsSegmentTooLarge
                           else Inr ()))))"

definition covers_tls :: "user_load_segment \<Rightarrow> user_tls_segment \<Rightarrow> u64 \<Rightarrow> u64 \<Rightarrow> bool" where
  "covers_tls load tls tls_memory_end tls_file_end =
     (case checked_add (ls_virtual_address load) (ls_memory_size load) of
        None \<Rightarrow> False
      | Some load_memory_end \<Rightarrow>
          if tl_virtual_address tls < ls_virtual_address load \<or> load_memory_end < tls_memory_end then False
          else if tl_file_size tls = 0 then True
          else
            (case checked_add (ls_file_offset load) (ls_file_size load) of
               None \<Rightarrow> False
             | Some load_file_end \<Rightarrow>
                 ls_file_offset load \<le> tl_file_offset tls \<and> tls_file_end \<le> load_file_end \<and>
                 tl_virtual_address tls - ls_virtual_address load = tl_file_offset tls - ls_file_offset load))"

definition validate_tls_load_coverage ::
  "user_load_plan \<Rightarrow> user_tls_segment \<Rightarrow> (user_elf_error, unit) result" where
  "validate_tls_load_coverage plan tls =
     (case checked_add (tl_virtual_address tls) (tl_memory_size tls) of
        None \<Rightarrow> Inl EE_TlsSegmentOutOfRange
      | Some tls_memory_end \<Rightarrow>
          (case checked_add (tl_file_offset tls) (tl_file_size tls) of
             None \<Rightarrow> Inl EE_TlsSegmentOutOfRange
           | Some tls_file_end \<Rightarrow>
               if list_ex (\<lambda>load. covers_tls load tls tls_memory_end tls_file_end)
                    (take (lp_segment_count plan) (lp_segments plan))
               then Inr () else Inl EE_TlsSegmentOutOfRange))"

section \<open>Parsing\<close>

text \<open>The first pass counts the load and TLS headers.\<close>

fun count_headers :: "u8 list \<Rightarrow> nat \<Rightarrow> nat \<Rightarrow> nat \<Rightarrow> nat list \<Rightarrow> (user_elf_error, unit) result" where
  "count_headers bytes ph_offset load_count tls_count [] = Inr ()"
| "count_headers bytes ph_offset load_count tls_count (index # is) =
     try_result (read_u32 bytes (ph_offset + index * PROGRAM_HEADER_SIZE)) (\<lambda>kind.
       if kind = PT_LOAD then
         if MAX_LOAD_SEGMENTS < load_count + 1 then Inl EE_TooManyLoadSegments
         else count_headers bytes ph_offset (load_count + 1) tls_count is
       else if kind = PT_TLS then
         if 1 < tls_count + 1 then Inl EE_DuplicateTlsSegment
         else count_headers bytes ph_offset load_count (tls_count + 1) is
       else count_headers bytes ph_offset load_count tls_count is)"

definition read_load_segment :: "u8 list \<Rightarrow> nat \<Rightarrow> (user_elf_error, user_load_segment) result" where
  "read_load_segment bytes offset =
     try_result (read_u32 bytes (offset + 4)) (\<lambda>flags.
     try_result (read_u64 bytes (offset + 8)) (\<lambda>file_offset.
     try_result (read_u64 bytes (offset + 16)) (\<lambda>virtual_address.
     try_result (read_u64 bytes (offset + 32)) (\<lambda>file_size.
     try_result (read_u64 bytes (offset + 40)) (\<lambda>memory_size.
       Inr \<lparr>ls_file_offset = file_offset, ls_virtual_address = virtual_address, ls_file_size = file_size,
            ls_memory_size = memory_size, ls_flags = flags\<rparr>)))))"

definition read_tls_segment :: "u8 list \<Rightarrow> nat \<Rightarrow> (user_elf_error, user_tls_segment) result" where
  "read_tls_segment bytes offset =
     try_result (read_u64 bytes (offset + 8)) (\<lambda>file_offset.
     try_result (read_u64 bytes (offset + 16)) (\<lambda>virtual_address.
     try_result (read_u64 bytes (offset + 32)) (\<lambda>file_size.
     try_result (read_u64 bytes (offset + 40)) (\<lambda>memory_size.
     try_result (read_u64 bytes (offset + 48)) (\<lambda>alignment.
       Inr \<lparr>tl_file_offset = file_offset, tl_virtual_address = virtual_address, tl_file_size = file_size,
            tl_memory_size = memory_size, tl_alignment = alignment\<rparr>)))))"

text \<open>One header of the second pass.\<close>

definition add_segment :: "user_load_plan \<Rightarrow> user_load_segment \<Rightarrow> (user_elf_error, user_load_plan) result" where
  "add_segment plan seg =
     (if lp_segment_count plan < length (lp_segments plan)
      then Inr (plan\<lparr>lp_segments := (lp_segments plan)[lp_segment_count plan := seg],
                    lp_segment_count := lp_segment_count plan + 1\<rparr>)
      else Inl EE_Panic)"

definition load_header :: "u8 list \<Rightarrow> nat \<Rightarrow> user_load_plan \<Rightarrow> (user_elf_error, user_load_plan) result" where
  "load_header bytes offset plan =
     try_result (read_u32 bytes offset) (\<lambda>kind.
       if kind = PT_LOAD then
         try_result (read_load_segment bytes offset) (\<lambda>seg.
         try_result (validate_segment bytes plan seg) (\<lambda>_. add_segment plan seg))
       else if kind = PT_TLS then
         try_result (read_tls_segment bytes offset) (\<lambda>tls.
           if tl_file_size tls = 0 \<and> tl_memory_size tls = 0 then Inr plan
           else try_result (validate_tls_segment bytes tls) (\<lambda>_. Inr (plan\<lparr>lp_tls := Some tls\<rparr>)))
       else Inr plan)"

fun load_headers :: "u8 list \<Rightarrow> nat \<Rightarrow> user_load_plan \<Rightarrow> nat list \<Rightarrow> (user_elf_error, user_load_plan) result" where
  "load_headers bytes ph_offset plan [] = Inr plan"
| "load_headers bytes ph_offset plan (index # is) =
     try_result (load_header bytes (ph_offset + index * PROGRAM_HEADER_SIZE) plan)
       (\<lambda>plan1. load_headers bytes ph_offset plan1 is)"

definition entry_in_segment :: "u64 \<Rightarrow> user_load_segment \<Rightarrow> bool" where
  "entry_in_segment entry seg =
     (case checked_add (ls_virtual_address seg) (ls_file_size seg) of
        None \<Rightarrow> False
      | Some file_end \<Rightarrow> ls_flags seg AND PF_X \<noteq> 0 \<and> ls_virtual_address seg \<le> entry \<and> entry < file_end)"

definition finish_plan :: "user_load_plan \<Rightarrow> (user_elf_error, user_load_plan) result" where
  "finish_plan plan =
     (if lp_segment_count plan = 0 then Inl EE_NoLoadSegments
      else if \<not> list_ex (entry_in_segment (lp_entry plan)) (take (lp_segment_count plan) (lp_segments plan))
      then Inl EE_EntryNotExecutable
      else
        (case lp_tls plan of
           None \<Rightarrow> Inr plan
         | Some tls \<Rightarrow> try_result (validate_tls_load_coverage plan tls) (\<lambda>_. Inr plan)))"

text \<open>The checks of the ELF header, up to the first pass.\<close>

definition check_header :: "u8 list \<Rightarrow> (user_elf_error, unit) result" where
  "check_header bytes =
     (if length bytes < ELF_HEADER_SIZE then Inl EE_Truncated
      else if slice 0 4 bytes \<noteq> [0x7f, 0x45, 0x4c, 0x46] then Inl EE_BadMagic
      else if bytes ! 4 \<noteq> 2 then Inl EE_UnsupportedClass
      else if bytes ! 5 \<noteq> 1 then Inl EE_UnsupportedEncoding
      else if bytes ! 6 \<noteq> 1 then Inl EE_UnsupportedVersion
      else
        try_result (read_u32 bytes 20) (\<lambda>version.
        if version \<noteq> 1 then Inl EE_UnsupportedVersion
        else try_result (read_u16 bytes 16) (\<lambda>type.
        if type \<noteq> 2 then Inl EE_UnsupportedType
        else try_result (read_u16 bytes 18) (\<lambda>machine.
        if machine \<noteq> 62 then Inl EE_UnsupportedMachine
        else try_result (read_u16 bytes 52) (\<lambda>header_size.
        if unat header_size \<noteq> ELF_HEADER_SIZE then Inl EE_InvalidProgramHeaders
        else try_result (read_u16 bytes 54) (\<lambda>entry_size.
        if unat entry_size \<noteq> PROGRAM_HEADER_SIZE then Inl EE_InvalidProgramHeaders else Inr ()))))))"

definition parse_elf :: "u8 list \<Rightarrow> (user_elf_error, user_load_plan) result" where
  "parse_elf bytes =
     try_result (check_header bytes) (\<lambda>_.
     try_result (read_u64 bytes 24) (\<lambda>entry.
     try_result (read_u64 bytes 32) (\<lambda>ph_offset.
     try_result (read_u16 bytes 56) (\<lambda>ph_count.
       if 2 ^ 64 \<le> unat ph_offset + unat ph_count * PROGRAM_HEADER_SIZE then Inl EE_InvalidProgramHeaders
       else if ph_count = 0 \<or> length bytes < unat ph_offset + unat ph_count * PROGRAM_HEADER_SIZE
       then Inl EE_InvalidProgramHeaders
       else
         try_result (count_headers bytes (unat ph_offset) 0 0 [0..<unat ph_count]) (\<lambda>_.
         try_result (load_headers bytes (unat ph_offset)
             \<lparr>lp_entry = entry, lp_segments = replicate MAX_LOAD_SEGMENTS segment_default,
              lp_segment_count = 0, lp_tls = None\<rparr> [0..<unat ph_count])
           finish_plan)))))"

section \<open>Accepted segments\<close>

lemma try_result_Inr: "try_result r f = Inr y \<longleftrightarrow> (\<exists>x. r = Inr x \<and> f x = Inr y)"
  by (cases r) (simp_all add: try_result_def)

lemma try_result_Inl: "try_result r f = Inl e \<longleftrightarrow> r = Inl e \<or> (\<exists>x. r = Inr x \<and> f x = Inl e)"
  by (cases r) (simp_all add: try_result_def)

definition segment_ok :: "u8 list \<Rightarrow> user_load_segment \<Rightarrow> bool" where
  "segment_ok bytes s \<longleftrightarrow> 0 < unat (ls_memory_size s) \<and> unat (ls_file_size s) \<le> unat (ls_memory_size s) \<and>
     4096 dvd unat (ls_virtual_address s) \<and> 4096 dvd unat (ls_file_offset s) \<and>
     \<not> (ls_flags s AND PF_W \<noteq> 0 \<and> ls_flags s AND PF_X \<noteq> 0) \<and>
     unat (ls_file_offset s) + unat (ls_file_size s) \<le> length bytes \<and>
     unat USER_IMAGE_BASE \<le> unat (ls_virtual_address s) \<and>
     unat (ls_virtual_address s) + unat (ls_memory_size s) \<le> unat USER_IMAGE_LIMIT"

definition in_segment :: "nat \<Rightarrow> user_load_segment \<Rightarrow> bool" where
  "in_segment x s \<longleftrightarrow> unat (ls_virtual_address s) \<le> x \<and> x < unat (ls_virtual_address s) + unat (ls_memory_size s)"

definition apart :: "user_load_segment \<Rightarrow> user_load_segment \<Rightarrow> bool" where
  "apart s t \<longleftrightarrow> unat (ls_virtual_address s) + unat (ls_memory_size s) \<le> unat (ls_virtual_address t) \<or>
     unat (ls_virtual_address t) + unat (ls_memory_size t) \<le> unat (ls_virtual_address s)"

text \<open>Page-aligned starts make disjoint segments disjoint page by page.\<close>

lemma apart_pages:
  assumes "segment_ok bytes s" and "segment_ok bytes t" and "apart s t" and "in_segment x s" and "in_segment y t"
  shows "x div 4096 \<noteq> y div 4096"
proof -
  have below: "x div 4096 < y div 4096" if "x < b" "b \<le> y" "4096 dvd b" for x y b :: nat
  proof -
    have "x div 4096 < b div 4096" using that(1,3) by (metis div_less_iff_less_mult dvd_div_mult_self zero_less_numeral)
    also have "\<dots> \<le> y div 4096" using that(2) by (rule div_le_mono)
    finally show ?thesis .
  qed
  from assms(3) show ?thesis unfolding apart_def
  proof
    assume "unat (ls_virtual_address s) + unat (ls_memory_size s) \<le> unat (ls_virtual_address t)"
    then have "x div 4096 < y div 4096" using assms(2,4,5)
      by (intro below [of _ "unat (ls_virtual_address t)"]) (auto simp: in_segment_def segment_ok_def)
    then show ?thesis by simp
  next
    assume "unat (ls_virtual_address t) + unat (ls_memory_size t) \<le> unat (ls_virtual_address s)"
    then have "y div 4096 < x div 4096" using assms(1,4,5)
      by (intro below [of _ "unat (ls_virtual_address s)"]) (auto simp: in_segment_def segment_ok_def)
    then show ?thesis by simp
  qed
qed

lemma page_multiple: "is_multiple_of w ELF_PAGE_SIZE \<longleftrightarrow> 4096 dvd unat w"
proof -
  have "w mod 4096 = 0 \<longleftrightarrow> unat w mod 4096 = 0" by (simp add: word_unat_eq_iff unat_mod)
  then show ?thesis by (simp add: is_multiple_of_def ELF_PAGE_SIZE_def dvd_eq_mod_eq_0)
qed

lemma write_execute_iff:
  "ls_flags s AND (PF_W OR PF_X) = PF_W OR PF_X \<longleftrightarrow> ls_flags s AND PF_W \<noteq> 0 \<and> ls_flags s AND PF_X \<noteq> 0"
proof -
  let ?f = "ls_flags s"
  have x: "?f AND 1 \<noteq> 0 \<longleftrightarrow> bit ?f 0" by (simp add: and_one_eq bit_0 odd_iff_mod_2_eq_one)
  have w: "?f AND 2 = (if bit ?f 1 then 2 else 0)"
    by (rule bit_word_eqI) (auto simp: bit_simps numeral_2_eq_2 bit_Suc)
  have "?f AND 3 = 3 \<longleftrightarrow> bit ?f 0 \<and> bit ?f 1"
  proof
    assume "?f AND 3 = 3"
    then have "bit (?f AND 3) 0" "bit (?f AND 3) 1" by (simp_all add: bit_simps)
    then show "bit ?f 0 \<and> bit ?f 1" by (simp add: bit_and_iff)
  next
    assume b: "bit ?f 0 \<and> bit ?f 1"
    have "(3 :: u32) = mask 2" by (simp add: mask_eq_exp_minus_1)
    then have "bit (3 :: u32) n \<Longrightarrow> n = 0 \<or> n = 1" for n by (auto simp: bit_mask_iff)
    then show "?f AND 3 = 3" using b by (intro bit_word_eqI) (auto simp: bit_and_iff)
  qed
  then show ?thesis using x w by (simp add: PF_W_def PF_X_def)
qed

lemma checked_add_cases:
  "checked_add a b = None \<and> 2 ^ LENGTH('a) \<le> unat a + unat b \<or>
   (\<exists>c. checked_add a b = Some (c :: 'a::len word) \<and> unat c = unat a + unat b)"
  using checked_add_Some_iff [of a b] checked_add_None_iff [of a b] by (cases "checked_add a b") auto

lemma overlaps_existing_iff:
  assumes "\<forall>t \<in> set (take (lp_segment_count plan) (lp_segments plan)). segment_ok bytes t"
    and "checked_add (ls_virtual_address s) (ls_memory_size s) = Some e"
  shows "overlaps_existing plan (ls_virtual_address s) e \<longleftrightarrow>
    (\<exists>t \<in> set (take (lp_segment_count plan) (lp_segments plan)). \<not> apart t s)"
proof -
  have "ls_virtual_address s < ls_virtual_address t + ls_memory_size t \<and> ls_virtual_address t < e \<longleftrightarrow> \<not> apart t s"
    if "segment_ok bytes t" for t
  proof -
    have "unat (ls_virtual_address t) + unat (ls_memory_size t) < 2 ^ 64"
      using that unsigned_less [of USER_IMAGE_LIMIT, where 'a = nat] by (simp add: segment_ok_def)
    then have "unat (ls_virtual_address t + ls_memory_size t) = unat (ls_virtual_address t) + unat (ls_memory_size t)"
      by (simp add: unat_word_ariths)
    then show ?thesis using assms(2) by (auto simp: apart_def word_less_nat_alt checked_add_Some_iff)
  qed
  then show ?thesis using assms(1) by (auto simp: overlaps_existing_def list_ex_iff)
qed

lemma validate_segment_ok:
  assumes "\<forall>t \<in> set (take (lp_segment_count plan) (lp_segments plan)). segment_ok bytes t"
    and "validate_segment bytes plan s = Inr ()"
  shows "segment_ok bytes s" and "\<forall>t \<in> set (take (lp_segment_count plan) (lp_segments plan)). apart t s"
proof -
  obtain f m where fm: "checked_add (ls_file_offset s) (ls_file_size s) = Some f"
    "checked_add (ls_virtual_address s) (ls_memory_size s) = Some m"
    using assms(2) by (auto simp: validate_segment_def split: if_splits option.splits)
  have v: "ls_memory_size s \<noteq> 0" "\<not> ls_memory_size s < ls_file_size s" "is_multiple_of (ls_virtual_address s) ELF_PAGE_SIZE"
    "is_multiple_of (ls_file_offset s) ELF_PAGE_SIZE" "\<not> (ls_flags s AND (PF_W OR PF_X) = PF_W OR PF_X)"
    "unat f \<le> length bytes" "USER_IMAGE_BASE \<le> ls_virtual_address s" "m \<le> USER_IMAGE_LIMIT"
    "\<not> overlaps_existing plan (ls_virtual_address s) m"
    using assms(2) fm by (auto simp: validate_segment_def not_less split: if_splits)
  show "segment_ok bytes s"
    using v(1-8) fm unfolding segment_ok_def page_multiple write_execute_iff
    by (simp add: checked_add_Some_iff word_le_nat_alt word_less_nat_alt not_less unat_gt_0)
  show "\<forall>t \<in> set (take (lp_segment_count plan) (lp_segments plan)). apart t s"
    using v(9) overlaps_existing_iff [OF assms(1) fm(2)] by blast
qed

section \<open>Accepted plans\<close>

definition plan_segments :: "user_load_plan \<Rightarrow> user_load_segment list" where
  "plan_segments plan = take (lp_segment_count plan) (lp_segments plan)"

definition tls_ok :: "u8 list \<Rightarrow> user_tls_segment \<Rightarrow> bool" where
  "tls_ok bytes t \<longleftrightarrow> 0 < unat (tl_memory_size t) \<and> unat (tl_file_size t) \<le> unat (tl_memory_size t) \<and>
     unat (tl_file_offset t) + unat (tl_file_size t) \<le> length bytes \<and>
     unat USER_IMAGE_BASE \<le> unat (tl_virtual_address t) \<and>
     unat (tl_virtual_address t) + unat (tl_memory_size t) \<le> unat USER_IMAGE_LIMIT"

definition plan_ok :: "u8 list \<Rightarrow> user_load_plan \<Rightarrow> bool" where
  "plan_ok bytes plan \<longleftrightarrow> length (lp_segments plan) = MAX_LOAD_SEGMENTS \<and> lp_segment_count plan \<le> MAX_LOAD_SEGMENTS \<and>
     (\<forall>s \<in> set (plan_segments plan). segment_ok bytes s) \<and> sorted_wrt apart (plan_segments plan) \<and>
     (\<forall>t. lp_tls plan = Some t \<longrightarrow> tls_ok bytes t)"

lemma add_segment_Inr:
  assumes "add_segment plan s = Inr plan'"
  shows "plan_segments plan' = plan_segments plan @ [s]" and "length (lp_segments plan') = length (lp_segments plan)"
    and "lp_segment_count plan' = lp_segment_count plan + 1" and "lp_segment_count plan' \<le> length (lp_segments plan)"
    and "lp_tls plan' = lp_tls plan" and "lp_entry plan' = lp_entry plan"
  using assms by (auto simp: add_segment_def plan_segments_def take_Suc_conv_app_nth split: if_splits)

lemma validate_tls_ok:
  assumes "validate_tls_segment bytes t = Inr ()"
  shows "tls_ok bytes t"
proof -
  obtain f m where fm: "checked_add (tl_file_offset t) (tl_file_size t) = Some f"
    "checked_add (tl_virtual_address t) (tl_memory_size t) = Some m"
    using assms by (auto simp: validate_tls_segment_def Let_def split: if_splits option.splits)
  have "tl_memory_size t \<noteq> 0" "\<not> tl_memory_size t < tl_file_size t" "unat f \<le> length bytes"
    "USER_IMAGE_BASE \<le> tl_virtual_address t" "m \<le> USER_IMAGE_LIMIT"
    using assms fm by (auto simp: validate_tls_segment_def Let_def not_less split: if_splits option.splits)
  then show ?thesis using fm
    by (simp add: tls_ok_def checked_add_Some_iff word_le_nat_alt word_less_nat_alt not_less unat_gt_0)
qed

lemma load_header_ok:
  assumes ok: "plan_ok bytes plan" and l: "load_header bytes offset plan = Inr plan'"
  shows "plan_ok bytes plan'" and "lp_entry plan' = lp_entry plan"
    and "lp_segment_count plan' = lp_segment_count plan + of_bool (read_u32 bytes offset = Inr PT_LOAD)"
proof -
  obtain kind where k: "read_u32 bytes offset = Inr kind" using l by (auto simp: load_header_def try_result_Inr)
  consider (load) s where "kind = PT_LOAD" "validate_segment bytes plan s = Inr ()" "add_segment plan s = Inr plan'"
    | (tls) t where "kind \<noteq> PT_LOAD" "validate_tls_segment bytes t = Inr ()" "plan' = plan\<lparr>lp_tls := Some t\<rparr>"
    | (other) "kind \<noteq> PT_LOAD" "plan' = plan"
    using l k by (auto simp: load_header_def try_result_Inr split: if_splits)
  then have "plan_ok bytes plan' \<and> lp_entry plan' = lp_entry plan \<and>
      lp_segment_count plan' = lp_segment_count plan + of_bool (kind = PT_LOAD)"
  proof cases
    case load
    note a = add_segment_Inr [OF load(3)]
    have v: "segment_ok bytes s" "\<forall>t \<in> set (plan_segments plan). apart t s"
      using validate_segment_ok [OF _ load(2)] ok by (auto simp: plan_ok_def plan_segments_def)
    then show ?thesis using ok a load(1) by (auto simp: plan_ok_def sorted_wrt_append)
  next
    case tls
    then show ?thesis using ok validate_tls_ok [OF tls(2)] by (simp add: plan_ok_def plan_segments_def)
  next
    case other
    then show ?thesis using ok by simp
  qed
  then show "plan_ok bytes plan'" and "lp_entry plan' = lp_entry plan"
    and "lp_segment_count plan' = lp_segment_count plan + of_bool (read_u32 bytes offset = Inr PT_LOAD)"
    using k by simp_all
qed

lemma load_headers_ok:
  assumes "plan_ok bytes plan" and "load_headers bytes ph_offset plan is = Inr plan'"
  shows "plan_ok bytes plan' \<and> lp_entry plan' = lp_entry plan"
  using assms
proof (induction "is" arbitrary: plan)
  case (Cons i "is")
  from Cons.prems(2) obtain plan1 where p: "load_header bytes (ph_offset + i * PROGRAM_HEADER_SIZE) plan = Inr plan1"
    "load_headers bytes ph_offset plan1 is = Inr plan'" by (auto simp: try_result_Inr)
  show ?case using Cons.IH [OF load_header_ok(1) [OF Cons.prems(1) p(1)] p(2)] load_header_ok(2) [OF Cons.prems(1) p(1)]
    by simp
qed simp

text \<open>The first pass bounds the number of load headers, so the second never runs past the array.\<close>

definition load_headers_in :: "u8 list \<Rightarrow> nat \<Rightarrow> nat list \<Rightarrow> nat" where
  "load_headers_in bytes ph_offset is =
     length (filter (\<lambda>i. read_u32 bytes (ph_offset + i * PROGRAM_HEADER_SIZE) = Inr PT_LOAD) is)"

lemma count_headers_bound:
  assumes "count_headers bytes ph_offset n m is = Inr ()" and "n \<le> MAX_LOAD_SEGMENTS"
  shows "n + load_headers_in bytes ph_offset is \<le> MAX_LOAD_SEGMENTS"
  using assms
proof (induction bytes ph_offset n m "is" rule: count_headers.induct)
  case (2 bytes ph_offset n m i "is")
  then show ?case
    by (auto simp: load_headers_in_def try_result_Inr PT_LOAD_def PT_TLS_def split: if_splits)
qed (simp add: load_headers_in_def)

lemma reads_no_panic [simp]:
  "read_u16 bytes n \<noteq> Inl EE_Panic" "read_u32 bytes n \<noteq> Inl EE_Panic" "read_u64 bytes n \<noteq> Inl EE_Panic"
  by (simp_all add: read_u16_def read_u32_def read_u64_def)

lemma checks_no_panic [simp]:
  "read_load_segment bytes n \<noteq> Inl EE_Panic" "read_tls_segment bytes n \<noteq> Inl EE_Panic"
  "validate_segment bytes plan s \<noteq> Inl EE_Panic" "validate_tls_segment bytes t \<noteq> Inl EE_Panic"
  "validate_tls_load_coverage plan t \<noteq> Inl EE_Panic"
  by (auto simp: read_load_segment_def read_tls_segment_def try_result_Inl validate_segment_def
      validate_tls_segment_def validate_tls_load_coverage_def Let_def split: option.splits)

lemma passes_no_panic:
  "check_header bytes \<noteq> Inl EE_Panic" "count_headers bytes ph_offset n m is \<noteq> Inl EE_Panic"
  "finish_plan plan \<noteq> Inl EE_Panic"
proof -
  show "check_header bytes \<noteq> Inl EE_Panic" by (auto simp: check_header_def try_result_Inl)
  show "count_headers bytes ph_offset n m is \<noteq> Inl EE_Panic"
    by (induction bytes ph_offset n m "is" rule: count_headers.induct) (auto simp: try_result_Inl)
  show "finish_plan plan \<noteq> Inl EE_Panic"
    by (auto simp: finish_plan_def try_result_Inl split: option.splits)
qed

lemma load_headers_no_panic:
  assumes "plan_ok bytes plan" and "lp_segment_count plan + load_headers_in bytes ph_offset is \<le> MAX_LOAD_SEGMENTS"
  shows "load_headers bytes ph_offset plan is \<noteq> Inl EE_Panic"
  using assms
proof (induction "is" arbitrary: plan)
  case (Cons i "is")
  let ?o = "ph_offset + i * PROGRAM_HEADER_SIZE"
  show ?case
  proof (cases "load_header bytes ?o plan")
    case (Inl e)
    have "e \<noteq> EE_Panic"
      using Inl Cons.prems
      by (auto simp: load_header_def try_result_Inl add_segment_def plan_ok_def load_headers_in_def split: if_splits)
    then show ?thesis using Inl by (auto simp: try_result_Inl)
  next
    case (Inr plan1)
    note l = load_header_ok [OF Cons.prems(1) Inr]
    have "lp_segment_count plan1 + load_headers_in bytes ph_offset is \<le> MAX_LOAD_SEGMENTS"
      using l(3) Cons.prems(2) by (auto simp: load_headers_in_def split: if_splits)
    then show ?thesis using Cons.IH [OF l(1)] Inr by (auto simp: try_result_Inl)
  qed
qed simp

lemma finish_plan_Inr:
  assumes "finish_plan plan = Inr plan'"
  shows "plan' = plan" and "lp_segment_count plan \<noteq> 0" and "\<exists>s \<in> set (plan_segments plan). entry_in_segment (lp_entry plan) s"
    and "\<And>t. lp_tls plan = Some t \<Longrightarrow> validate_tls_load_coverage plan t = Inr ()"
  using assms by (auto simp: finish_plan_def plan_segments_def try_result_Inr list_ex_iff split: if_splits option.splits)

lemma tls_covered:
  assumes "validate_tls_load_coverage plan t = Inr ()"
  shows "\<exists>s \<in> set (plan_segments plan). unat (ls_virtual_address s) \<le> unat (tl_virtual_address t) \<and>
    unat (tl_virtual_address t) + unat (tl_memory_size t) \<le> unat (ls_virtual_address s) + unat (ls_memory_size s)"
proof -
  obtain m f s where m: "checked_add (tl_virtual_address t) (tl_memory_size t) = Some m"
    and s: "s \<in> set (plan_segments plan)" "covers_tls s t m f"
    using assms by (auto simp: validate_tls_load_coverage_def plan_segments_def list_ex_iff split: option.splits if_splits)
  obtain e where "checked_add (ls_virtual_address s) (ls_memory_size s) = Some e"
    "\<not> tl_virtual_address t < ls_virtual_address s" "\<not> e < m"
    using s(2) by (auto simp: covers_tls_def split: option.splits if_splits)
  then show ?thesis using m s(1) by (auto simp: checked_add_Some_iff not_less word_le_nat_alt word_less_nat_alt)
qed

definition empty_plan :: "u64 \<Rightarrow> user_load_plan" where
  "empty_plan entry = \<lparr>lp_entry = entry, lp_segments = replicate MAX_LOAD_SEGMENTS segment_default,
     lp_segment_count = 0, lp_tls = None\<rparr>"

lemma empty_plan_ok: "plan_ok bytes (empty_plan entry)" "lp_segment_count (empty_plan entry) = 0"
  by (simp_all add: plan_ok_def plan_segments_def empty_plan_def)

lemma parse_elf_plan:
  assumes "parse_elf bytes = Inr plan"
  shows "plan_ok bytes plan" and "finish_plan plan = Inr plan"
proof -
  obtain entry ph n p0 where l: "load_headers bytes ph (empty_plan entry) [0..<n] = Inr p0"
    and f: "finish_plan p0 = Inr plan"
    using assms unfolding parse_elf_def empty_plan_def [symmetric] by (auto simp: try_result_Inr split: if_splits)
  have "plan_ok bytes p0" using load_headers_ok [OF empty_plan_ok(1) l] by simp
  then show "plan_ok bytes plan" and "finish_plan plan = Inr plan" using f finish_plan_Inr(1) [OF f] by auto
qed

lemma parse_elf_no_panic: "parse_elf bytes \<noteq> Inl EE_Panic"
proof
  assume "parse_elf bytes = Inl EE_Panic"
  then obtain entry ph n where c: "count_headers bytes ph 0 0 [0..<n] = Inr ()"
    and l: "load_headers bytes ph (empty_plan entry) [0..<n] = Inl EE_Panic"
    unfolding parse_elf_def empty_plan_def [symmetric]
    by (auto simp: try_result_Inl passes_no_panic split: if_splits)
  have "load_headers_in bytes ph [0..<n] \<le> MAX_LOAD_SEGMENTS" using count_headers_bound [OF c] by simp
  then show False using load_headers_no_panic [OF empty_plan_ok(1)] l by (simp add: empty_plan_ok(2))
qed

section \<open>Properties\<close>

text \<open>C17. The parser is total and an accepted image is safe to map. No image runs the parser past the
  plan's array. An accepted plan has between one and sixteen segments; each lies inside the user image
  window, takes its bytes from inside the file, starts on a page boundary and is not both writable
  and executable; no page holds bytes of two segments; the entry point lies in the file part of an
  executable segment; and a TLS template lies inside the file, the window and a load segment.\<close>

theorem elf_plan_is_safe:
  "parse_elf bytes \<noteq> Inl EE_Panic \<and>
   (\<forall>plan. parse_elf bytes = Inr plan \<longrightarrow>
      0 < length (plan_segments plan) \<and> length (plan_segments plan) \<le> MAX_LOAD_SEGMENTS \<and>
      (\<forall>s \<in> set (plan_segments plan). segment_ok bytes s) \<and>
      (\<forall>i < length (plan_segments plan). \<forall>j < length (plan_segments plan). \<forall>x y.
         i \<noteq> j \<and> in_segment x (plan_segments plan ! i) \<and> in_segment y (plan_segments plan ! j) \<longrightarrow>
         x div 4096 \<noteq> y div 4096) \<and>
      (\<exists>s \<in> set (plan_segments plan). ls_flags s AND PF_X \<noteq> 0 \<and> unat (ls_virtual_address s) \<le> unat (lp_entry plan) \<and>
         unat (lp_entry plan) < unat (ls_virtual_address s) + unat (ls_file_size s)) \<and>
      (\<forall>t. lp_tls plan = Some t \<longrightarrow> tls_ok bytes t \<and>
         (\<exists>s \<in> set (plan_segments plan). unat (ls_virtual_address s) \<le> unat (tl_virtual_address t) \<and>
            unat (tl_virtual_address t) + unat (tl_memory_size t) \<le>
              unat (ls_virtual_address s) + unat (ls_memory_size s))))"
proof (intro conjI allI impI)
  show "parse_elf bytes \<noteq> Inl EE_Panic" by (rule parse_elf_no_panic)
  fix plan assume p: "parse_elf bytes = Inr plan"
  note ok = parse_elf_plan(1) [OF p] and f = finish_plan_Inr [OF parse_elf_plan(2) [OF p]]
  have len: "length (plan_segments plan) = lp_segment_count plan" using ok by (simp add: plan_ok_def plan_segments_def)
  show "0 < length (plan_segments plan)" using len f(2) by simp
  show "length (plan_segments plan) \<le> MAX_LOAD_SEGMENTS" using len ok by (simp add: plan_ok_def)
  show seg: "\<forall>s \<in> set (plan_segments plan). segment_ok bytes s" using ok by (simp add: plan_ok_def)
  have sw: "sorted_wrt apart (plan_segments plan)" using ok by (simp add: plan_ok_def)
  show "x div 4096 \<noteq> y div 4096" if "i < length (plan_segments plan)" "j < length (plan_segments plan)"
    "i \<noteq> j \<and> in_segment x (plan_segments plan ! i) \<and> in_segment y (plan_segments plan ! j)" for i j x y
  proof -
    have "apart (plan_segments plan ! i) (plan_segments plan ! j)"
      using sorted_wrt_nth_less [OF sw, of i j] sorted_wrt_nth_less [OF sw, of j i] that
      by (cases "i < j") (auto simp: apart_def)
    then show ?thesis using apart_pages seg that nth_mem by blast
  qed
  show "\<exists>s \<in> set (plan_segments plan). ls_flags s AND PF_X \<noteq> 0 \<and> unat (ls_virtual_address s) \<le> unat (lp_entry plan) \<and>
      unat (lp_entry plan) < unat (ls_virtual_address s) + unat (ls_file_size s)"
    using f(3) by (auto simp: entry_in_segment_def checked_add_Some_iff word_le_nat_alt word_less_nat_alt split: option.splits)
  show "tls_ok bytes t" if "lp_tls plan = Some t" for t using ok that by (simp add: plan_ok_def)
  show "\<exists>s \<in> set (plan_segments plan). unat (ls_virtual_address s) \<le> unat (tl_virtual_address t) \<and>
      unat (tl_virtual_address t) + unat (tl_memory_size t) \<le> unat (ls_virtual_address s) + unat (ls_memory_size s)"
    if "lp_tls plan = Some t" for t using f(4) [OF that] by (rule tls_covered)
qed

text \<open>A small image: its headers and the bytes after them are mapped readable and executable as the one
  segment.\<close>

definition sample_image :: "u8 list" where
  "sample_image =
     [127, 69, 76, 70, 2, 1, 1, 0, 0, 0, 0, 0, 0, 0, 0, 0, 2, 0, 62, 0, 1, 0, 0, 0,
      16, 0, 0, 0, 0, 64, 0, 0, 64, 0, 0, 0, 0, 0, 0, 0, 0, 0, 0, 0, 0, 0, 0, 0,
      0, 0, 0, 0, 64, 0, 56, 0, 1, 0, 0, 0, 0, 0, 0, 0, 1, 0, 0, 0, 5, 0, 0, 0,
      0, 0, 0, 0, 0, 0, 0, 0, 0, 0, 0, 0, 0, 64, 0, 0, 0, 0, 0, 0, 0, 0, 0, 0,
      120, 0, 0, 0, 0, 0, 0, 0, 136, 19, 0, 0, 0, 0, 0, 0, 0, 0, 0, 0, 0, 0, 0, 0]"

lemma sample_image_reads:
  "length sample_image = 120" "check_header sample_image = Inr ()"
  "read_u64 sample_image 24 = Inr 70368744177680" "read_u64 sample_image 32 = Inr 64" "read_u16 sample_image 56 = Inr 1"
  "read_u32 sample_image 64 = Inr PT_LOAD" "read_u32 sample_image 68 = Inr 5" "read_u64 sample_image 72 = Inr 0"
  "read_u64 sample_image 80 = Inr 70368744177664" "read_u64 sample_image 96 = Inr 120" "read_u64 sample_image 104 = Inr 5000"
  by code_simp+

lemma sample_image_parses: "\<exists>plan. parse_elf sample_image = Inr plan"
proof -
  have f: "(5 :: u32) AND 3 \<noteq> 3" "(5 :: u32) AND 1 \<noteq> 0" "(2 :: u32) OR 1 = 3" by code_simp+
  have first: "take (Suc 0) ((replicate 16 segment_default)[0 := s]) = [s]" for s
    using take_Suc_conv_app_nth [of 0 "(replicate 16 segment_default)[0 := s]"] by simp
  show ?thesis
    by (simp add: parse_elf_def sample_image_reads try_result_def load_header_def read_load_segment_def
        validate_segment_def is_multiple_of_def ELF_PAGE_SIZE_def checked_add_def PF_W_def PF_X_def f first
        overlaps_existing_def add_segment_def finish_plan_def entry_in_segment_def PROGRAM_HEADER_SIZE_def
        MAX_LOAD_SEGMENTS_def USER_IMAGE_BASE_def USER_IMAGE_LIMIT_def)
qed

theorem elf_plan_is_safe_witness:
  "\<exists>plan. parse_elf sample_image = Inr plan \<and> plan_segments plan \<noteq> [] \<and>
     (\<forall>s \<in> set (plan_segments plan). segment_ok sample_image s)"
proof -
  obtain plan where p: "parse_elf sample_image = Inr plan" using sample_image_parses by blast
  then have "0 < length (plan_segments plan)" "\<forall>s \<in> set (plan_segments plan). segment_ok sample_image s"
    using elf_plan_is_safe [of sample_image] by blast+
  then show ?thesis using p by auto
qed

end
