(* ===== verification/Memory.thy ===== *)
theory Memory
  imports Boot_Info "HOL-Library.Multiset"
begin

text \<open>
  The physical memory of the kernel, \<open>src/kernel/src/memory.rs\<close>: the page allocator that is filled
  from the firmware's memory map, page tables and their entries, the check that a range is identity
  mapped, and the bump-pointer kernel heap. Memory that the code reads through a raw pointer (the
  descriptors of the map, the entries of the active page tables) is a parameter.
\<close>

section \<open>The page allocator\<close>

definition MEM_PAGE_SIZE :: u64 where "MEM_PAGE_SIZE = 4096"
definition PAGE_TABLE_ENTRIES :: nat where "PAGE_TABLE_ENTRIES = 512"
definition PAGE_TABLE_ADDRESS_MASK :: u64 where "PAGE_TABLE_ADDRESS_MASK = 0x000ffffffffff000"
definition HUGE_PAGE_FLAG :: u64 where "HUGE_PAGE_FLAG = push_bit 7 1"
definition CONVENTIONAL_MEMORY_TYPE :: u32 where "CONVENTIONAL_MEMORY_TYPE = 7"
definition MAX_RANGES :: nat where "MAX_RANGES = 128"
definition MAX_FREED_PAGES :: nat where "MAX_FREED_PAGES = 128"

record page_range =
  pr_start :: u64
  pr_next :: u64
  pr_end :: u64

datatype allocator_error = AE_InvalidBootInfo | AE_InvalidMemoryMap | AE_AddressOverflow | AE_TooManyRanges

record page_allocator =
  pa_ranges :: "page_range list"
  pa_range_count :: nat
  pa_freed :: "u64 list"
  pa_freed_count :: nat

definition allocator_empty :: page_allocator where
  "allocator_empty =
     \<lparr>pa_ranges = replicate MAX_RANGES \<lparr>pr_start = 0, pr_next = 0, pr_end = 0\<rparr>, pa_range_count = 0,
      pa_freed = replicate MAX_FREED_PAGES 0, pa_freed_count = 0\<rparr>"

text \<open>One descriptor of the map. The guard on the range count keeps the store inside the array.\<close>

definition add_descriptor :: "memory_map_entry \<Rightarrow> page_allocator \<Rightarrow> (allocator_error, page_allocator) result" where
  "add_descriptor entry a =
     (if me_memory_type entry \<noteq> CONVENTIONAL_MEMORY_TYPE \<or> me_page_count entry = 0 then Inr a
      else if me_physical_start entry mod MEM_PAGE_SIZE \<noteq> 0 then Inl AE_InvalidMemoryMap
      else
        (case checked_mul (me_page_count entry) MEM_PAGE_SIZE of
           None \<Rightarrow> Inl AE_AddressOverflow
         | Some bytes \<Rightarrow>
             (case checked_add (me_physical_start entry) bytes of
                None \<Rightarrow> Inl AE_AddressOverflow
              | Some end_address \<Rightarrow>
                  if pa_range_count a = MAX_RANGES then Inl AE_TooManyRanges
                  else Inr (a\<lparr>pa_ranges := (pa_ranges a)[pa_range_count a :=
                                \<lparr>pr_start = me_physical_start entry, pr_next = me_physical_start entry, pr_end = end_address\<rparr>],
                              pa_range_count := pa_range_count a + 1\<rparr>))))"

text \<open>The loop over the descriptors; \<open>read_entry\<close> is the descriptor at an address.\<close>

fun add_descriptors ::
  "(u64 \<Rightarrow> memory_map_entry) \<Rightarrow> u64 \<Rightarrow> u64 \<Rightarrow> nat list \<Rightarrow> page_allocator \<Rightarrow> (allocator_error, page_allocator) result" where
  "add_descriptors read_entry base entry_size [] a = Inr a"
| "add_descriptors read_entry base entry_size (index # is) a =
     (case checked_mul (word_of_nat index) entry_size of
        None \<Rightarrow> Inl AE_AddressOverflow
      | Some offset \<Rightarrow>
          (case add_descriptor (read_entry (base + offset)) a of
             Inl e \<Rightarrow> Inl e
           | Inr a1 \<Rightarrow> add_descriptors read_entry base entry_size is a1))"

definition from_boot_info ::
  "(u64 \<Rightarrow> memory_map_entry) \<Rightarrow> boot_info \<Rightarrow> (allocator_error, page_allocator) result" where
  "from_boot_info read_entry info =
     (case boot_info_validate info of
        Inl _ \<Rightarrow> Inl AE_InvalidBootInfo
      | Inr _ \<Rightarrow>
          (let mm = bi_memory_map info in
           if mm_entry_size mm < word_of_nat MEMORY_MAP_ENTRY_BYTES \<or> \<not> is_multiple_of (mm_entry_size mm) 8
           then Inl AE_InvalidMemoryMap
           else
             (case add_descriptors read_entry (mm_address mm) (mm_entry_size mm) [0..<unat (mm_entry_count mm)]
                     allocator_empty of
                Inl e \<Rightarrow> Inl e
              | Inr a \<Rightarrow> if pa_range_count a = 0 then Inl AE_InvalidMemoryMap else Inr a)))"

definition from_single_range :: "u64 \<Rightarrow> u64 \<Rightarrow> page_allocator option" where
  "from_single_range start page_count =
     (case checked_mul page_count MEM_PAGE_SIZE of
        None \<Rightarrow> None
      | Some bytes \<Rightarrow>
          (case checked_add start bytes of
             None \<Rightarrow> None
           | Some end_address \<Rightarrow>
               if page_count = 0 \<or> \<not> is_multiple_of start MEM_PAGE_SIZE then None
               else Some (allocator_empty\<lparr>
                 pa_ranges := (pa_ranges allocator_empty)[0 := \<lparr>pr_start = start, pr_next = start, pr_end = end_address\<rparr>],
                 pa_range_count := 1\<rparr>)))"

text \<open>The loop that takes the next page of the first range that satisfies the condition.\<close>

definition take_from_ranges :: "(page_range \<Rightarrow> bool) \<Rightarrow> page_allocator \<Rightarrow> u64 option \<times> page_allocator" where
  "take_from_ranges usable a =
     (case position usable (take (pa_range_count a) (pa_ranges a)) of
        None \<Rightarrow> (None, a)
      | Some i \<Rightarrow>
          (let range = pa_ranges a ! i in
           (Some (pr_next range),
            a\<lparr>pa_ranges := (pa_ranges a)[i := range\<lparr>pr_next := pr_next range + MEM_PAGE_SIZE\<rparr>]\<rparr>)))"

definition allocate_page :: "page_allocator \<Rightarrow> u64 option \<times> page_allocator" where
  "allocate_page a =
     (if pa_freed_count a \<noteq> 0
      then (Some (pa_freed a ! (pa_freed_count a - 1)), a\<lparr>pa_freed_count := pa_freed_count a - 1\<rparr>)
      else take_from_ranges (\<lambda>range. pr_next range < pr_end range) a)"

definition allocate_page_below :: "u64 \<Rightarrow> page_allocator \<Rightarrow> u64 option \<times> page_allocator" where
  "allocate_page_below upper_exclusive a =
     (case (if pa_freed_count a \<noteq> 0
            then position (\<lambda>page. page < upper_exclusive) (take (pa_freed_count a) (pa_freed a)) else None) of
        Some i \<Rightarrow>
          (let last = pa_freed_count a - 1 in
           (Some (pa_freed a ! i), a\<lparr>pa_freed := (pa_freed a)[i := pa_freed a ! last], pa_freed_count := last\<rparr>))
      | None \<Rightarrow>
          take_from_ranges (\<lambda>range. pr_next range < pr_end range \<and> pr_next range < upper_exclusive) a)"

definition free_page :: "u64 \<Rightarrow> page_allocator \<Rightarrow> bool \<times> page_allocator" where
  "free_page page a =
     (if \<not> is_multiple_of page MEM_PAGE_SIZE \<or>
         \<not> list_ex (\<lambda>range. pr_start range \<le> page \<and> page < pr_next range) (take (pa_range_count a) (pa_ranges a))
      then (False, a)
      else if page \<in> set (take (pa_freed_count a) (pa_freed a)) \<or> pa_freed_count a = MAX_FREED_PAGES then (False, a)
      else (True, a\<lparr>pa_freed := (pa_freed a)[pa_freed_count a := page], pa_freed_count := pa_freed_count a + 1\<rparr>))"

section \<open>Identity mappings\<close>

text \<open>\<open>mem\<close> is the quadword that a volatile read at an address returns.\<close>

definition read_page_table_entry :: "(u64 \<Rightarrow> u64) \<Rightarrow> u64 \<Rightarrow> u64 \<Rightarrow> u64" where
  "read_page_table_entry mem table index = mem (table + index * 8)"

definition page_is_identity_mapped :: "(u64 \<Rightarrow> u64) \<Rightarrow> u64 \<Rightarrow> u64 \<Rightarrow> bool" where
  "page_is_identity_mapped mem cr3 virtual_address =
     (let pml4 = read_page_table_entry mem cr3 (drop_bit 39 virtual_address AND 0x1ff) in
      if pml4 AND 1 = 0 then False
      else let pdpt = read_page_table_entry mem (pml4 AND PAGE_TABLE_ADDRESS_MASK) (drop_bit 30 virtual_address AND 0x1ff) in
      if pdpt AND 1 = 0 then False
      else if pdpt AND HUGE_PAGE_FLAG \<noteq> 0
      then (pdpt AND 0x000fffffc0000000) + (virtual_address AND 0x3fffffff) = virtual_address
      else let pd = read_page_table_entry mem (pdpt AND PAGE_TABLE_ADDRESS_MASK) (drop_bit 21 virtual_address AND 0x1ff) in
      if pd AND 1 = 0 then False
      else if pd AND HUGE_PAGE_FLAG \<noteq> 0
      then (pd AND 0x000fffffffe00000) + (virtual_address AND 0x1fffff) = virtual_address
      else let pt = read_page_table_entry mem (pd AND PAGE_TABLE_ADDRESS_MASK) (drop_bit 12 virtual_address AND 0x1ff) in
      if pt AND 1 = 0 then False
      else (pt AND PAGE_TABLE_ADDRESS_MASK) + (virtual_address AND (MEM_PAGE_SIZE - 1)) = virtual_address)"

text \<open>The loop over the pages. It ends because the address grows until it is the last page or overflows.\<close>

function identity_loop :: "(u64 \<Rightarrow> u64) \<Rightarrow> u64 \<Rightarrow> u64 \<Rightarrow> u64 \<Rightarrow> bool" where
  "identity_loop mem cr3 last_page page =
     (if \<not> page_is_identity_mapped mem cr3 page then False
      else if page = last_page then True
      else
        (case checked_add page MEM_PAGE_SIZE of
           None \<Rightarrow> False
         | Some page1 \<Rightarrow> identity_loop mem cr3 last_page page1))"
  by pat_completeness auto

termination identity_loop
proof (relation "measure (\<lambda>(mem, cr3, last_page, page). 2 ^ 64 - unat page)")
  fix mem cr3 and last_page page page1 :: u64
  assume "checked_add page MEM_PAGE_SIZE = Some page1"
  then have "unat page1 = unat page + 4096" by (simp add: checked_add_Some_iff MEM_PAGE_SIZE_def)
  moreover have "unat page1 < 2 ^ 64" using unsigned_less [of page1] by simp
  ultimately show "((mem, cr3, last_page, page1), (mem, cr3, last_page, page))
      \<in> measure (\<lambda>(mem, cr3, last_page, page). 2 ^ 64 - unat page)" by simp
qed simp

declare identity_loop.simps [simp del]

definition identity_mapped :: "(u64 \<Rightarrow> u64) \<Rightarrow> u64 \<Rightarrow> u64 \<Rightarrow> u64 \<Rightarrow> bool" where
  "identity_mapped mem cr3 address len =
     (if cr3 AND (MEM_PAGE_SIZE - 1) \<noteq> 0 \<or> push_bit 52 1 \<le> cr3 \<or> len = 0 then False
      else
        (case checked_add address len of
           None \<Rightarrow> False
         | Some end_address \<Rightarrow>
             identity_loop mem cr3 ((end_address - 1) AND NOT (MEM_PAGE_SIZE - 1)) (address AND NOT (MEM_PAGE_SIZE - 1))))"

section \<open>Page tables\<close>

definition PTE_PRESENT :: u64 where "PTE_PRESENT = push_bit 0 1"
definition PTE_WRITABLE :: u64 where "PTE_WRITABLE = push_bit 1 1"
definition PTE_USER :: u64 where "PTE_USER = push_bit 2 1"
definition PTE_NO_EXECUTE :: u64 where "PTE_NO_EXECUTE = push_bit 63 1"

definition pte_new :: "u64 \<Rightarrow> u64 \<Rightarrow> u64 option" where
  "pte_new physical_address flags =
     (if physical_address AND (MEM_PAGE_SIZE - 1) \<noteq> 0 \<or> push_bit 52 1 \<le> physical_address then None
      else Some (physical_address OR flags))"

definition pte_is_present :: "u64 \<Rightarrow> bool" where
  "pte_is_present raw \<longleftrightarrow> raw AND PTE_PRESENT \<noteq> 0"

type_synonym page_table = "u64 list"

definition page_table_empty :: page_table where
  "page_table_empty = replicate PAGE_TABLE_ENTRIES 0"

definition pt_replace_empty :: "nat \<Rightarrow> u64 \<Rightarrow> page_table \<Rightarrow> bool \<times> page_table" where
  "pt_replace_empty index raw t =
     (case array_get t index of
        None \<Rightarrow> (False, t)
      | Some slot \<Rightarrow> if slot \<noteq> 0 \<or> raw = 0 then (False, t) else (True, t[index := raw]))"

definition pt_map :: "nat \<Rightarrow> u64 \<Rightarrow> page_table \<Rightarrow> bool \<times> page_table" where
  "pt_map index entry t = pt_replace_empty index entry t"

definition pt_raw_entry :: "nat \<Rightarrow> page_table \<Rightarrow> u64 option" where
  "pt_raw_entry index t =
     (case array_get t index of None \<Rightarrow> None | Some raw \<Rightarrow> if raw \<noteq> 0 then Some raw else None)"

definition pt_replace :: "nat \<Rightarrow> u64 \<Rightarrow> page_table \<Rightarrow> bool \<times> page_table" where
  "pt_replace index raw t =
     (case array_get t index of
        None \<Rightarrow> (False, t)
      | Some slot \<Rightarrow> if raw = 0 \<or> slot = 0 then (False, t) else (True, t[index := raw]))"

definition pt_clear :: "page_table \<Rightarrow> page_table" where
  "pt_clear t = replicate (length t) 0"

definition pt_entry :: "nat \<Rightarrow> page_table \<Rightarrow> u64 option" where
  "pt_entry index t =
     (case array_get t index of None \<Rightarrow> None | Some raw \<Rightarrow> if raw \<noteq> 0 then Some raw else None)"

definition pt_unmap :: "nat \<Rightarrow> page_table \<Rightarrow> u64 option \<times> page_table" where
  "pt_unmap index t =
     (case array_get t index of
        None \<Rightarrow> (None, t)
      | Some raw \<Rightarrow> if raw = 0 then (None, t) else (Some raw, t[index := 0]))"

section \<open>The kernel heap\<close>

record kernel_heap =
  kh_start :: u64
  kh_next :: u64
  kh_end :: u64

definition heap_new :: "u64 \<Rightarrow> u64 \<Rightarrow> kernel_heap option" where
  "heap_new start bytes =
     (if \<not> is_multiple_of start MEM_PAGE_SIZE then None
      else
        (case checked_add start bytes of
           None \<Rightarrow> None
         | Some end_address \<Rightarrow>
             if bytes \<noteq> 0 then Some \<lparr>kh_start = start, kh_next = start, kh_end = end_address\<rparr> else None))"

definition heap_allocate :: "u64 \<Rightarrow> u64 \<Rightarrow> kernel_heap \<Rightarrow> u64 option \<times> kernel_heap" where
  "heap_allocate bytes alignment h =
     (if bytes = 0 \<or> \<not> is_power_of_two alignment then (None, h)
      else
        (case checked_add (kh_next h) (alignment - 1) of
           None \<Rightarrow> (None, h)
         | Some padded \<Rightarrow>
             (let aligned = padded AND NOT (alignment - 1) in
              case checked_add aligned bytes of
                None \<Rightarrow> (None, h)
              | Some end_address \<Rightarrow> if kh_end h < end_address then (None, h) else (Some aligned, h\<lparr>kh_next := end_address\<rparr>))))"

definition heap_reset :: "kernel_heap \<Rightarrow> kernel_heap" where
  "heap_reset h = h\<lparr>kh_next := kh_start h\<rparr>"

section \<open>Every page has one owner\<close>

text \<open>The pages of a span of addresses, the pages that an allocator has handed out, the pages that its
  clients hold and the pages that it manages.\<close>

definition span_pages :: "nat \<Rightarrow> nat \<Rightarrow> u64 set" where
  "span_pages lo hi = {p. 4096 dvd unat p \<and> lo \<le> unat p \<and> unat p < hi}"

definition active_ranges :: "page_allocator \<Rightarrow> page_range list" where
  "active_ranges a = take (pa_range_count a) (pa_ranges a)"

definition freed_pages :: "page_allocator \<Rightarrow> u64 list" where
  "freed_pages a = take (pa_freed_count a) (pa_freed a)"

definition handed_out :: "page_allocator \<Rightarrow> u64 set" where
  "handed_out a = (\<Union>r \<in> set (active_ranges a). span_pages (unat (pr_start r)) (unat (pr_next r)))"

definition managed :: "page_allocator \<Rightarrow> u64 set" where
  "managed a = (\<Union>r \<in> set (active_ranges a). span_pages (unat (pr_start r)) (unat (pr_end r)))"

definition held :: "page_allocator \<Rightarrow> u64 set" where
  "held a = handed_out a - set (freed_pages a)"

definition range_ok :: "page_range \<Rightarrow> bool" where
  "range_ok r \<longleftrightarrow> 4096 dvd unat (pr_start r) \<and> 4096 dvd unat (pr_next r) \<and> 4096 dvd unat (pr_end r) \<and>
     unat (pr_start r) \<le> unat (pr_next r) \<and> unat (pr_next r) \<le> unat (pr_end r)"

definition range_span :: "page_range \<Rightarrow> nat \<times> nat" where
  "range_span r = (unat (pr_start r), unat (pr_end r))"

definition spans_apart :: "nat \<times> nat \<Rightarrow> nat \<times> nat \<Rightarrow> bool" where
  "spans_apart s t \<longleftrightarrow> snd s \<le> fst t \<or> snd t \<le> fst s"

definition allocator_ok :: "page_allocator \<Rightarrow> bool" where
  "allocator_ok a \<longleftrightarrow> length (pa_ranges a) = MAX_RANGES \<and> pa_range_count a \<le> MAX_RANGES \<and>
     length (pa_freed a) = MAX_FREED_PAGES \<and> pa_freed_count a \<le> MAX_FREED_PAGES \<and>
     (\<forall>r \<in> set (active_ranges a). range_ok r) \<and> sorted_wrt spans_apart (map range_span (active_ranges a)) \<and>
     distinct (freed_pages a) \<and> set (freed_pages a) \<subseteq> handed_out a"

lemma span_pages_step:
  assumes "range_ok r" and "pr_next r < pr_end r"
  shows "unat (pr_next r + MEM_PAGE_SIZE) = unat (pr_next r) + 4096" and "unat (pr_next r) + 4096 \<le> unat (pr_end r)"
    and "span_pages (unat (pr_start r)) (unat (pr_next r + MEM_PAGE_SIZE)) =
      insert (pr_next r) (span_pages (unat (pr_start r)) (unat (pr_next r)))"
proof -
  have lt: "unat (pr_next r) < unat (pr_end r)" using assms(2) by (simp add: word_less_nat_alt)
  obtain j k where jk: "unat (pr_next r) = 4096 * j" "unat (pr_end r) = 4096 * k"
    using assms(1) by (auto simp: range_ok_def dvd_def)
  then have "j + 1 \<le> k" using lt by simp
  then show le: "unat (pr_next r) + 4096 \<le> unat (pr_end r)" using jk by simp
  have "unat (pr_end r) < 2 ^ 64" using unsigned_less [of "pr_end r"] by simp
  then show u: "unat (pr_next r + MEM_PAGE_SIZE) = unat (pr_next r) + 4096"
    using le by (simp add: unat_word_ariths MEM_PAGE_SIZE_def)
  have s: "unat (pr_start r) \<le> 4096 * j" using assms(1) jk(1) by (simp add: range_ok_def)
  have "p \<in> span_pages (unat (pr_start r)) (4096 * j + 4096) \<longleftrightarrow>
      p = pr_next r \<or> p \<in> span_pages (unat (pr_start r)) (4096 * j)" for p
  proof (cases "4096 dvd unat p")
    case True
    then obtain q where q: "unat p = 4096 * q" by (auto simp: dvd_def)
    have "p = pr_next r \<longleftrightarrow> q = j" using q jk(1) by (simp add: word_unat_eq_iff)
    then show ?thesis using q s by (auto simp: span_pages_def)
  next
    case False
    then have "p \<noteq> pr_next r" using jk(1) by auto
    then show ?thesis using False by (simp add: span_pages_def)
  qed
  then show "span_pages (unat (pr_start r)) (unat (pr_next r + MEM_PAGE_SIZE)) =
      insert (pr_next r) (span_pages (unat (pr_start r)) (unat (pr_next r)))"
    unfolding u jk(1) by blast
qed

lemma UN_update_insert:
  assumes "i < length xs" and "f y = insert p (f (xs ! i))"
  shows "(\<Union>x \<in> set (xs[i := y]). f x) = insert p (\<Union>x \<in> set xs. f x)"
  using assms
proof (induction xs arbitrary: i)
  case (Cons x xs)
  then show ?case by (cases i) auto
qed simp

lemma handed_out_managed:
  assumes "allocator_ok a"
  shows "handed_out a \<subseteq> managed a"
proof -
  have "span_pages (unat (pr_start r)) (unat (pr_next r)) \<subseteq> span_pages (unat (pr_start r)) (unat (pr_end r))"
    if "r \<in> set (active_ranges a)" for r
    using assms that by (auto simp: allocator_ok_def range_ok_def span_pages_def)
  then show ?thesis by (auto simp: handed_out_def managed_def)
qed

text \<open>The next page of a range belongs to no other range, and is not handed out.\<close>

lemma next_page_fresh:
  assumes ok: "allocator_ok a" and i: "i < length (active_ranges a)"
    and lt: "pr_next (active_ranges a ! i) < pr_end (active_ranges a ! i)"
  shows "pr_next (active_ranges a ! i) \<in> managed a" and "pr_next (active_ranges a ! i) \<notin> handed_out a"
proof -
  let ?rs = "active_ranges a" and ?p = "pr_next (active_ranges a ! i)"
  have r: "range_ok (?rs ! i)" using ok i by (simp add: allocator_ok_def)
  then have p: "unat (pr_start (?rs ! i)) \<le> unat ?p" "unat ?p < unat (pr_end (?rs ! i))" "4096 dvd unat ?p"
    using lt by (auto simp: range_ok_def word_less_nat_alt)
  then show "?p \<in> managed a" using i by (auto simp: managed_def span_pages_def intro!: bexI [of _ "?rs ! i"])
  have "?p \<notin> span_pages (unat (pr_start (?rs ! j))) (unat (pr_next (?rs ! j)))" if j: "j < length ?rs" for j
  proof (cases "j = i")
    case False
    have "sorted_wrt spans_apart (map range_span ?rs)" using ok by (simp add: allocator_ok_def)
    then have "spans_apart (range_span (?rs ! i)) (range_span (?rs ! j)) \<or> spans_apart (range_span (?rs ! j)) (range_span (?rs ! i))"
      using False i j by (cases i j rule: linorder_cases) (simp_all add: sorted_wrt_iff_nth_less)
    moreover have "unat (pr_next (?rs ! j)) \<le> unat (pr_end (?rs ! j))"
      using ok j by (simp add: allocator_ok_def range_ok_def)
    ultimately show ?thesis using p by (auto simp: span_pages_def spans_apart_def range_span_def)
  qed (simp add: span_pages_def)
  then show "?p \<notin> handed_out a" by (auto simp: handed_out_def in_set_conv_nth)
qed

lemma managed_spans: "managed a = (\<Union>s \<in> set (map range_span (active_ranges a)). span_pages (fst s) (snd s))"
  by (simp add: managed_def range_span_def)

lemma take_from_ranges_Some:
  assumes ok: "allocator_ok a" and usable: "\<And>r. usable r \<Longrightarrow> pr_next r < pr_end r"
    and t: "take_from_ranges usable a = (Some p, a')"
  shows "\<exists>r. usable r \<and> p = pr_next r" and "p \<in> managed a" and "p \<notin> handed_out a"
    and "handed_out a' = insert p (handed_out a)" and "managed a' = managed a"
    and "freed_pages a' = freed_pages a" and "allocator_ok a'" and "pa_freed_count a' = pa_freed_count a"
proof -
  let ?rs = "active_ranges a"
  obtain i where i: "position usable ?rs = Some i" "p = pr_next (pa_ranges a ! i)"
    "a' = a\<lparr>pa_ranges := (pa_ranges a)[i := (pa_ranges a ! i)\<lparr>pr_next := pr_next (pa_ranges a ! i) + MEM_PAGE_SIZE\<rparr>]\<rparr>"
    using t by (auto simp: take_from_ranges_def active_ranges_def Let_def split: option.splits)
  have il: "i < length ?rs" "usable (?rs ! i)" using position_SomeD(1,2) [OF i(1)] by auto
  have nth: "pa_ranges a ! i = ?rs ! i" using il(1) by (simp add: active_ranges_def)
  have lt: "pr_next (?rs ! i) < pr_end (?rs ! i)" using usable [OF il(2)] .
  have r: "range_ok (?rs ! i)" using ok il(1) by (simp add: allocator_ok_def)
  note step = span_pages_step [OF r lt]
  have act: "active_ranges a' = ?rs[i := (?rs ! i)\<lparr>pr_next := pr_next (?rs ! i) + MEM_PAGE_SIZE\<rparr>]"
    using i(3) nth by (simp add: active_ranges_def take_update_swap)
  have spans: "map range_span (active_ranges a') = map range_span ?rs"
    unfolding act map_update by (simp add: range_span_def list_update_same_conv il(1))
  show "\<exists>r. usable r \<and> p = pr_next r" using il(2) i(2) nth by auto
  show "p \<in> managed a" and fresh: "p \<notin> handed_out a" using next_page_fresh [OF ok il(1) lt] i(2) nth by simp_all
  show ho: "handed_out a' = insert p (handed_out a)"
    unfolding handed_out_def act using il(1) step(3) i(2) nth by (intro UN_update_insert) simp_all
  show "managed a' = managed a" by (simp only: managed_spans spans)
  show freed: "freed_pages a' = freed_pages a" "pa_freed_count a' = pa_freed_count a" using i(3) by (simp_all add: freed_pages_def)
  have "range_ok ((?rs ! i)\<lparr>pr_next := pr_next (?rs ! i) + MEM_PAGE_SIZE\<rparr>)"
    using r step(1,2) by (simp add: range_ok_def)
  then have "\<forall>r \<in> set (active_ranges a'). range_ok r"
    using ok set_update_subset_insert [of ?rs i] unfolding act by (auto simp: allocator_ok_def)
  then show "allocator_ok a'" using ok i(3) spans freed ho by (auto simp: allocator_ok_def)
qed

lemma take_from_ranges_None:
  assumes "take_from_ranges usable a = (None, a')"
  shows "a' = a" and "\<forall>r \<in> set (active_ranges a). \<not> usable r"
  using assms by (auto simp: take_from_ranges_def active_ranges_def Let_def array_simps split: option.splits)

lemma no_range_left:
  assumes ok: "allocator_ok a" and none: "\<forall>r \<in> set (active_ranges a). \<not> (pr_next r < pr_end r \<and> pr_next r \<le> p)"
    and p: "p \<in> managed a"
  shows "p \<in> handed_out a"
proof -
  obtain r where r: "r \<in> set (active_ranges a)" "p \<in> span_pages (unat (pr_start r)) (unat (pr_end r))"
    using p by (auto simp: managed_def)
  then have "unat p < unat (pr_next r)" using none by (auto simp: span_pages_def word_less_nat_alt word_le_nat_alt)
  then show ?thesis using r by (auto simp: handed_out_def span_pages_def)
qed

text \<open>What allocation and release do to the set of pages that the clients hold.\<close>

lemma allocate_page_spec:
  assumes ok: "allocator_ok a"
  shows "allocate_page a = (Some p, a') \<Longrightarrow>
      allocator_ok a' \<and> managed a' = managed a \<and> p \<in> managed a - held a \<and> held a' = insert p (held a)"
    and "allocate_page a = (None, a') \<Longrightarrow> a' = a \<and> managed a = held a"
proof -
  have sub: "set (freed_pages a) \<subseteq> handed_out a" using ok by (simp add: allocator_ok_def)
  assume s: "allocate_page a = (Some p, a')"
  show "allocator_ok a' \<and> managed a' = managed a \<and> p \<in> managed a - held a \<and> held a' = insert p (held a)"
  proof (cases "pa_freed_count a = 0")
    case True
    then have t: "take_from_ranges (\<lambda>r. pr_next r < pr_end r) a = (Some p, a')" using s by (simp add: allocate_page_def)
    show ?thesis using take_from_ranges_Some [OF ok _ t] sub by (auto simp: held_def)
  next
    case False
    then obtain n where n: "pa_freed_count a = Suc n" by (cases "pa_freed_count a") auto
    then have a': "p = pa_freed a ! n" "a' = a\<lparr>pa_freed_count := n\<rparr>" using s by (auto simp: allocate_page_def)
    have len: "n < length (pa_freed a)" using ok n by (simp add: allocator_ok_def)
    have fp: "freed_pages a = freed_pages a' @ [p]" using n a' len by (simp add: freed_pages_def take_Suc_conv_app_nth)
    have same: "handed_out a' = handed_out a" "managed a' = managed a" "active_ranges a' = active_ranges a"
      using a'(2) by (simp_all add: handed_out_def managed_def active_ranges_def)
    have d: "distinct (freed_pages a' @ [p])" using ok fp by (simp add: allocator_ok_def)
    have "p \<in> handed_out a" using sub fp by auto
    then show ?thesis using handed_out_managed [OF ok] same fp d ok n a'(2) sub by (auto simp: held_def allocator_ok_def)
  qed
next
  assume s: "allocate_page a = (None, a')"
  then have z: "pa_freed_count a = 0" and t: "take_from_ranges (\<lambda>r. pr_next r < pr_end r) a = (None, a')"
    by (auto simp: allocate_page_def split: if_splits)
  have "managed a \<subseteq> handed_out a" using no_range_left [OF ok] take_from_ranges_None(2) [OF t] by blast
  then show "a' = a \<and> managed a = held a"
    using take_from_ranges_None(1) [OF t] handed_out_managed [OF ok] z by (auto simp: held_def freed_pages_def)
qed

lemma distinct_swap_remove:
  assumes "i < Suc n" and "n < length xs"
  shows "mset (take n (xs[i := xs ! n])) = mset (take (Suc n) xs) - {#xs ! i#}"
proof -
  have "xs[i := xs ! n] ! n = xs ! n" using assms by (cases "i = n") simp_all
  then have "mset (take n (xs[i := xs ! n])) + {#xs ! n#} = mset (take (Suc n) (xs[i := xs ! n]))"
    using assms by (simp add: take_Suc_conv_app_nth)
  also have "\<dots> = add_mset (xs ! n) (mset (take (Suc n) xs) - {#take (Suc n) xs ! i#})"
    using assms by (simp only: take_update_swap) (simp add: mset_update)
  finally show ?thesis using assms by simp
qed

lemma allocate_page_below_alt:
  "allocate_page_below upper a =
     (case position (\<lambda>page. page < upper) (freed_pages a) of
        Some i \<Rightarrow>
          (Some (pa_freed a ! i), a\<lparr>pa_freed := (pa_freed a)[i := pa_freed a ! (pa_freed_count a - 1)],
             pa_freed_count := pa_freed_count a - 1\<rparr>)
      | None \<Rightarrow> take_from_ranges (\<lambda>r. pr_next r < pr_end r \<and> pr_next r < upper) a)"
  by (cases "pa_freed_count a = 0") (simp_all add: allocate_page_below_def freed_pages_def Let_def split: option.split)

lemma allocate_page_below_spec:
  assumes ok: "allocator_ok a"
  shows "allocate_page_below upper a = (Some p, a') \<Longrightarrow> p < upper \<and>
      allocator_ok a' \<and> managed a' = managed a \<and> p \<in> managed a - held a \<and> held a' = insert p (held a)"
    and "allocate_page_below upper a = (None, a') \<Longrightarrow> a' = a \<and> (\<forall>p \<in> managed a. p < upper \<longrightarrow> p \<in> held a)"
proof -
  have sub: "set (freed_pages a) \<subseteq> handed_out a" using ok by (simp add: allocator_ok_def)
  let ?pos = "position (\<lambda>page. page < upper) (freed_pages a)" and ?u = "\<lambda>r. pr_next r < pr_end r \<and> pr_next r < upper"
  have none: "pa_freed_count a = 0 \<Longrightarrow> ?pos = None" by (simp add: freed_pages_def)
  assume s: "allocate_page_below upper a = (Some p, a')"
  show "p < upper \<and> allocator_ok a' \<and> managed a' = managed a \<and> p \<in> managed a - held a \<and> held a' = insert p (held a)"
  proof (cases ?pos)
    case None
    then have t: "take_from_ranges ?u a = (Some p, a')" using s by (simp add: allocate_page_below_alt)
    show ?thesis using take_from_ranges_Some [OF ok _ t] sub by (auto simp: held_def)
  next
    case (Some i)
    then obtain n where n: "pa_freed_count a = Suc n" using none by (cases "pa_freed_count a") auto
    then have a': "p = pa_freed a ! i" "a' = a\<lparr>pa_freed := (pa_freed a)[i := pa_freed a ! n], pa_freed_count := n\<rparr>"
      using s Some by (auto simp: allocate_page_below_alt)
    have len: "i < Suc n" "n < length (pa_freed a)" using ok n position_SomeD(1) [OF Some] by (auto simp: allocator_ok_def freed_pages_def)
    have lt: "p < upper" using position_SomeD(2) [OF Some] a'(1) len n by (simp add: freed_pages_def)
    have m: "mset (freed_pages a') = mset (remove1 p (freed_pages a))"
      using distinct_swap_remove [OF len] a' n by (simp add: freed_pages_def)
    have pin: "p \<in> set (freed_pages a)" using a'(1) len n by (auto simp: freed_pages_def in_set_conv_nth)
    have d: "distinct (freed_pages a)" using ok by (simp add: allocator_ok_def)
    have "set (freed_pages a') = set (freed_pages a) - {p}" and "distinct (freed_pages a')"
      using mset_eq_setD [OF m] mset_eq_imp_distinct_iff [OF m] d by simp_all
    moreover have same: "handed_out a' = handed_out a" "managed a' = managed a" "active_ranges a' = active_ranges a"
      using a'(2) by (simp_all add: handed_out_def managed_def active_ranges_def)
    ultimately show ?thesis using lt handed_out_managed [OF ok] pin ok n a'(2) sub
      by (auto simp: held_def allocator_ok_def)
  qed
next
  assume s: "allocate_page_below upper a = (None, a')"
  have none: "\<forall>p \<in> set (freed_pages a). \<not> p < upper"
    and t: "take_from_ranges (\<lambda>r. pr_next r < pr_end r \<and> pr_next r < upper) a = (None, a')"
    using s by (auto simp: allocate_page_below_alt array_simps split: option.splits)
  have "p \<in> handed_out a" if "p \<in> managed a" "p < upper" for p
    using take_from_ranges_None(2) [OF t] that by (intro no_range_left [OF ok]) auto
  then show "a' = a \<and> (\<forall>p \<in> managed a. p < upper \<longrightarrow> p \<in> held a)"
    using take_from_ranges_None(1) [OF t] none by (auto simp: held_def)
qed

lemma free_page_spec:
  assumes ok: "allocator_ok a" and f: "free_page p a = (freed, a')"
  shows "freed \<longleftrightarrow> p \<in> held a \<and> pa_freed_count a < MAX_FREED_PAGES"
    and "held a' = (if freed then held a - {p} else held a)" and "managed a' = managed a" and "allocator_ok a'"
proof -
  have ho: "p \<in> handed_out a \<longleftrightarrow> is_multiple_of p MEM_PAGE_SIZE \<and>
      list_ex (\<lambda>r. pr_start r \<le> p \<and> p < pr_next r) (take (pa_range_count a) (pa_ranges a))"
    by (auto simp: handed_out_def span_pages_def active_ranges_def list_ex_iff is_multiple_of_iff MEM_PAGE_SIZE_def
        word_le_nat_alt word_less_nat_alt)
  have "pa_freed_count a = MAX_FREED_PAGES \<longleftrightarrow> \<not> pa_freed_count a < MAX_FREED_PAGES"
    using ok by (auto simp: allocator_ok_def)
  then show fr: "freed \<longleftrightarrow> p \<in> held a \<and> pa_freed_count a < MAX_FREED_PAGES"
    using f ho by (auto simp: free_page_def held_def freed_pages_def split: if_splits)
  have "held a' = (if freed then held a - {p} else held a) \<and> managed a' = managed a \<and> allocator_ok a'"
  proof (cases freed)
    case True
    then have a': "a' = a\<lparr>pa_freed := (pa_freed a)[pa_freed_count a := p], pa_freed_count := pa_freed_count a + 1\<rparr>"
      using f by (auto simp: free_page_def split: if_splits)
    have "freed_pages a' = freed_pages a @ [p]" using a' fr True ok
      by (simp add: freed_pages_def take_Suc_conv_app_nth allocator_ok_def)
    moreover have "handed_out a' = handed_out a" "managed a' = managed a" "active_ranges a' = active_ranges a"
      using a' by (simp_all add: handed_out_def managed_def active_ranges_def)
    ultimately show ?thesis using True fr ok a' by (auto simp: held_def allocator_ok_def)
  next
    case False
    then show ?thesis using f ok by (auto simp: free_page_def split: if_splits)
  qed
  then show "held a' = (if freed then held a - {p} else held a)" "managed a' = managed a" "allocator_ok a'" by simp_all
qed

text \<open>The conventional memory of the firmware's map: the entries the code reads and the spans they describe.\<close>

definition usable_entry :: "memory_map_entry \<Rightarrow> bool" where
  "usable_entry e \<longleftrightarrow> me_memory_type e = CONVENTIONAL_MEMORY_TYPE \<and> me_page_count e \<noteq> 0"

definition entry_span :: "memory_map_entry \<Rightarrow> nat \<times> nat" where
  "entry_span e = (unat (me_physical_start e), unat (me_physical_start e) + unat (me_page_count e) * 4096)"

definition conventional_entries :: "(u64 \<Rightarrow> memory_map_entry) \<Rightarrow> u64 \<Rightarrow> u64 \<Rightarrow> nat list \<Rightarrow> memory_map_entry list" where
  "conventional_entries read_entry base entry_size is =
     filter usable_entry (map (\<lambda>i. read_entry (base + word_of_nat i * entry_size)) is)"

definition conventional_spans :: "(u64 \<Rightarrow> memory_map_entry) \<Rightarrow> boot_info \<Rightarrow> (nat \<times> nat) list" where
  "conventional_spans read_entry info =
     (let mm = bi_memory_map info in
      map entry_span (conventional_entries read_entry (mm_address mm) (mm_entry_size mm) [0..<unat (mm_entry_count mm)]))"

definition memory_map_disjoint :: "(u64 \<Rightarrow> memory_map_entry) \<Rightarrow> boot_info \<Rightarrow> bool" where
  "memory_map_disjoint read_entry info \<longleftrightarrow> sorted_wrt spans_apart (conventional_spans read_entry info)"

definition conventional_pages :: "(u64 \<Rightarrow> memory_map_entry) \<Rightarrow> boot_info \<Rightarrow> u64 set" where
  "conventional_pages read_entry info = (\<Union>s \<in> set (conventional_spans read_entry info). span_pages (fst s) (snd s))"

definition allocator_fresh :: "page_allocator \<Rightarrow> bool" where
  "allocator_fresh a \<longleftrightarrow> length (pa_ranges a) = MAX_RANGES \<and> pa_range_count a \<le> MAX_RANGES \<and>
     length (pa_freed a) = MAX_FREED_PAGES \<and> pa_freed_count a = 0 \<and>
     (\<forall>r \<in> set (active_ranges a). range_ok r \<and> pr_next r = pr_start r)"

lemma add_descriptor_Inr:
  assumes d: "add_descriptor e a = Inr a'" and f: "allocator_fresh a"
  shows "allocator_fresh a'"
    and "map range_span (active_ranges a') = map range_span (active_ranges a) @ (if usable_entry e then [entry_span e] else [])"
proof -
  have "allocator_fresh a' \<and>
      map range_span (active_ranges a') = map range_span (active_ranges a) @ (if usable_entry e then [entry_span e] else [])"
  proof (cases "usable_entry e")
    case False
    then have "a' = a" using d by (simp add: add_descriptor_def usable_entry_def)
    then show ?thesis using f False by simp
  next
    case True
    then obtain bytes end_address where b: "checked_mul (me_page_count e) MEM_PAGE_SIZE = Some bytes"
      "checked_add (me_physical_start e) bytes = Some end_address" "pa_range_count a \<noteq> MAX_RANGES"
      "me_physical_start e mod MEM_PAGE_SIZE = 0"
      and a': "a' = a\<lparr>pa_ranges := (pa_ranges a)[pa_range_count a := \<lparr>pr_start = me_physical_start e,
          pr_next = me_physical_start e, pr_end = end_address\<rparr>], pa_range_count := pa_range_count a + 1\<rparr>"
      using d by (auto simp: add_descriptor_def usable_entry_def split: option.splits if_splits)
    have e: "unat end_address = unat (me_physical_start e) + unat (me_page_count e) * 4096"
      using b(1,2) by (simp add: checked_simps MEM_PAGE_SIZE_def)
    have s: "4096 dvd unat (me_physical_start e)"
      using b(4) is_multiple_of_iff [of "me_physical_start e" MEM_PAGE_SIZE] by (simp add: is_multiple_of_def MEM_PAGE_SIZE_def)
    have "pa_range_count a < length (pa_ranges a)" using b(3) f by (simp add: allocator_fresh_def)
    then have act: "active_ranges a' = active_ranges a @ [\<lparr>pr_start = me_physical_start e, pr_next = me_physical_start e,
        pr_end = end_address\<rparr>]" using a' by (simp add: active_ranges_def take_Suc_conv_app_nth)
    have "range_ok \<lparr>pr_start = me_physical_start e, pr_next = me_physical_start e, pr_end = end_address\<rparr>"
      using e s by (simp add: range_ok_def)
    then show ?thesis using True f b(3) a' e unfolding allocator_fresh_def act
      by (auto simp: range_span_def entry_span_def)
  qed
  then show "allocator_fresh a'"
    and "map range_span (active_ranges a') = map range_span (active_ranges a) @ (if usable_entry e then [entry_span e] else [])"
    by simp_all
qed

lemma add_descriptors_Inr:
  assumes "add_descriptors read_entry base entry_size is a = Inr a'" and "allocator_fresh a"
  shows "allocator_fresh a' \<and> map range_span (active_ranges a') =
    map range_span (active_ranges a) @ map entry_span (conventional_entries read_entry base entry_size is)"
  using assms
proof (induction "is" arbitrary: a)
  case (Cons i "is")
  from Cons.prems(1) obtain offset a1 where o: "checked_mul (word_of_nat i) entry_size = Some offset"
    "add_descriptor (read_entry (base + offset)) a = Inr a1" "add_descriptors read_entry base entry_size is a1 = Inr a'"
    by (auto split: option.splits sum.splits)
  have "offset = word_of_nat i * entry_size" using o(1) by (simp add: checked_mul_def split: if_splits)
  then show ?case using Cons.IH [OF o(3) add_descriptor_Inr(1) [OF o(2) Cons.prems(2)]] add_descriptor_Inr(2) [OF o(2) Cons.prems(2)]
    by (simp add: conventional_entries_def)
qed (simp add: conventional_entries_def)

definition allocator_booted :: "(u64 \<Rightarrow> memory_map_entry) \<Rightarrow> boot_info \<Rightarrow> page_allocator \<Rightarrow> bool" where
  "allocator_booted read_entry info a \<longleftrightarrow> from_boot_info read_entry info = Inr a \<and> memory_map_disjoint read_entry info"

definition allocator_inv :: "(u64 \<Rightarrow> memory_map_entry) \<Rightarrow> boot_info \<Rightarrow> page_allocator \<Rightarrow> bool" where
  "allocator_inv read_entry info a \<longleftrightarrow> allocator_ok a \<and> managed a = conventional_pages read_entry info"

lemma from_boot_info_inv:
  assumes "allocator_booted read_entry info a"
  shows "allocator_inv read_entry info a" and "held a = {}"
proof -
  have "allocator_fresh allocator_empty" "active_ranges allocator_empty = []"
    by (simp_all add: allocator_fresh_def allocator_empty_def active_ranges_def)
  then have f: "allocator_fresh a" and s: "map range_span (active_ranges a) = conventional_spans read_entry info"
    using assms add_descriptors_Inr [of read_entry _ _ _ allocator_empty a]
    by (auto simp: allocator_booted_def from_boot_info_def conventional_spans_def Let_def split: sum.splits if_splits)
  have ho: "handed_out a = {}" using f by (auto simp: handed_out_def span_pages_def allocator_fresh_def)
  then show "held a = {}" by (simp add: held_def)
  have "allocator_ok a" using f s assms ho
    by (simp add: allocator_ok_def allocator_fresh_def allocator_booted_def memory_map_disjoint_def freed_pages_def)
  then show "allocator_inv read_entry info a" using s by (simp add: allocator_inv_def managed_spans conventional_pages_def)
qed

text \<open>One call of a client.\<close>

inductive page_step :: "page_allocator \<Rightarrow> page_allocator \<Rightarrow> bool" where
  step_allocate: "page_step a (snd (allocate_page a))"
| step_allocate_below: "page_step a (snd (allocate_page_below upper a))"
| step_free: "page_step a (snd (free_page page a))"

lemma page_step_inv:
  assumes s: "page_step a a'" and i: "allocator_inv read_entry info a"
  shows "allocator_inv read_entry info a'"
proof -
  have ok: "allocator_ok a" using i by (simp add: allocator_inv_def)
  from s have "allocator_ok a' \<and> managed a' = managed a"
  proof cases
    case step_allocate
    then show ?thesis using allocate_page_spec [OF ok] ok by (cases "allocate_page a"; cases "fst (allocate_page a)") auto
  next
    case (step_allocate_below upper)
    then show ?thesis using allocate_page_below_spec [OF ok, of upper] ok
      by (cases "allocate_page_below upper a"; cases "fst (allocate_page_below upper a)") auto
  next
    case (step_free page)
    then show ?thesis using free_page_spec(3,4) [OF ok, of page] by (cases "free_page page a") auto
  qed
  then show ?thesis using i by (simp add: allocator_inv_def)
qed

interpretation page_runs: invariant_system "allocator_booted read_entry info" page_step "allocator_inv read_entry info"
  for read_entry info
  by unfold_locales (auto intro: from_boot_info_inv page_step_inv)

section \<open>Translation\<close>

text \<open>The four-level walk of the processor: a leaf of level \<open>n\<close> maps \<open>2 ^ n\<close> bytes, bit 0 of an entry is
  its present bit and bit 7 of an upper entry makes it a leaf.\<close>

definition leaf_address :: "nat \<Rightarrow> u64 \<Rightarrow> u64 \<Rightarrow> u64" where
  "leaf_address n entry va = push_bit n (take_bit (52 - n) (drop_bit n entry)) OR take_bit n va"

definition table_entry :: "(u64 \<Rightarrow> u64) \<Rightarrow> u64 \<Rightarrow> nat \<Rightarrow> u64 \<Rightarrow> u64 option" where
  "table_entry mem table n va =
     (let entry = mem (table + 8 * take_bit 9 (drop_bit n va)) in if bit entry 0 then Some entry else None)"

definition table_address :: "u64 \<Rightarrow> u64" where
  "table_address entry = push_bit 12 (take_bit 40 (drop_bit 12 entry))"

definition translate :: "(u64 \<Rightarrow> u64) \<Rightarrow> u64 \<Rightarrow> u64 \<Rightarrow> u64 option" where
  "translate mem cr3 va =
     (case table_entry mem cr3 39 va of
        None \<Rightarrow> None
      | Some pml4 \<Rightarrow>
          (case table_entry mem (table_address pml4) 30 va of
             None \<Rightarrow> None
           | Some pdpt \<Rightarrow>
               if bit pdpt 7 then Some (leaf_address 30 pdpt va)
               else
                 (case table_entry mem (table_address pdpt) 21 va of
                    None \<Rightarrow> None
                  | Some pd \<Rightarrow>
                      if bit pd 7 then Some (leaf_address 21 pd va)
                      else map_option (\<lambda>pt. leaf_address 12 pt va) (table_entry mem (table_address pd) 12 va))))"

lemma and_bit_iff:
  fixes w :: "'a::len word"
  shows "w AND 1 = 0 \<longleftrightarrow> \<not> bit w 0" and "n < LENGTH('a) \<Longrightarrow> w AND push_bit n 1 = 0 \<longleftrightarrow> \<not> bit w n"
  by (auto simp: bit_eq_iff [where 'a = "'a word"] bit_simps intro: gr0I)

lemma and_mask_field:
  fixes w :: u64
  shows "w AND 0x1ff = take_bit 9 w" and "w AND 0xfff = take_bit 12 w" and "w AND 0x1fffff = take_bit 21 w"
    and "w AND 0x3fffffff = take_bit 30 w"
    and "w AND 0x000ffffffffff000 = push_bit 12 (take_bit 40 (drop_bit 12 w))"
    and "w AND 0x000fffffffe00000 = push_bit 21 (take_bit 31 (drop_bit 21 w))"
    and "w AND 0x000fffffc0000000 = push_bit 30 (take_bit 22 (drop_bit 30 w))"
proof -
  have m: "(0x1ff :: u64) = mask 9" "(0xfff :: u64) = mask 12" "(0x1fffff :: u64) = mask 21" "(0x3fffffff :: u64) = mask 30"
    "(0x000ffffffffff000 :: u64) = push_bit 12 (mask 40)" "(0x000fffffffe00000 :: u64) = push_bit 21 (mask 31)"
    "(0x000fffffc0000000 :: u64) = push_bit 30 (mask 22)" by code_simp+
  show "w AND 0x1ff = take_bit 9 w" "w AND 0xfff = take_bit 12 w" "w AND 0x1fffff = take_bit 21 w"
    "w AND 0x3fffffff = take_bit 30 w" by (simp_all only: m take_bit_eq_mask)
  show "w AND 0x000ffffffffff000 = push_bit 12 (take_bit 40 (drop_bit 12 w))"
    "w AND 0x000fffffffe00000 = push_bit 21 (take_bit 31 (drop_bit 21 w))"
    "w AND 0x000fffffc0000000 = push_bit 30 (take_bit 22 (drop_bit 30 w))"
    unfolding m by (auto simp: bit_eq_iff [where 'a = u64] bit_simps)
qed

lemma leaf_sum:
  fixes e va :: u64
  assumes "n \<le> 52"
  shows "push_bit n (take_bit (52 - n) (drop_bit n e)) + take_bit n va = leaf_address n e va"
  unfolding leaf_address_def
  by (rule disjunctive_add_eq_or) (auto simp: bit_eq_iff [where 'a = u64] bit_simps)

lemma leaf_identity_iff:
  assumes "12 \<le> n" and "n \<le> 52"
  shows "leaf_address n e va = va \<longleftrightarrow> drop_bit (n - 12) (drop_bit 12 va) = take_bit (52 - n) (drop_bit n e)"
proof
  assume "leaf_address n e va = va"
  then have "drop_bit n (leaf_address n e va) = drop_bit n va" by simp
  moreover have "drop_bit n (leaf_address n e va) = take_bit (52 - n) (drop_bit n e)"
    using assms by (auto simp: leaf_address_def bit_eq_iff [where 'a = u64] bit_simps)
  ultimately show "drop_bit (n - 12) (drop_bit 12 va) = take_bit (52 - n) (drop_bit n e)" using assms by simp
next
  assume "drop_bit (n - 12) (drop_bit 12 va) = take_bit (52 - n) (drop_bit n e)"
  then have d: "take_bit (52 - n) (drop_bit n e) = drop_bit n va" using assms by simp
  show "leaf_address n e va = va" unfolding leaf_address_def d
    by (auto simp: bit_eq_iff [where 'a = u64] bit_simps)
qed

lemma table_entry_page: "12 \<le> n \<Longrightarrow> table_entry mem table n va =
    (let entry = mem (table + 8 * take_bit 9 (drop_bit (n - 12) (drop_bit 12 va))) in if bit entry 0 then Some entry else None)"
  by (simp add: table_entry_def)

text \<open>Whether an address is translated to itself depends on its page only, and is what the code checks.\<close>

lemma translate_identity_page:
  assumes "drop_bit 12 a = drop_bit 12 b"
  shows "translate mem cr3 a = Some a \<longleftrightarrow> translate mem cr3 b = Some b"
  using assms by (simp add: translate_def table_entry_page leaf_identity_iff split: option.split)

lemma page_is_identity_mapped_iff: "page_is_identity_mapped mem cr3 va \<longleftrightarrow> translate mem cr3 va = Some va"
proof -
  have h: "w AND HUGE_PAGE_FLAG = 0 \<longleftrightarrow> \<not> bit w 7" for w :: u64
    unfolding HUGE_PAGE_FLAG_def by (rule and_bit_iff(2)) simp
  note sums = leaf_sum [of 30, simplified] leaf_sum [of 21, simplified] leaf_sum [of 12, simplified]
  show ?thesis
    by (simp add: page_is_identity_mapped_def translate_def table_entry_def table_address_def read_page_table_entry_def h
        and_bit_iff(1) PAGE_TABLE_ADDRESS_MASK_def MEM_PAGE_SIZE_def and_mask_field sums Let_def mult.commute
        split: option.split)
qed

lemma unat_drop_12: "unat (drop_bit 12 (w :: u64)) = unat w div 4096"
  by (simp add: drop_bit_eq_div unat_div_distrib)

lemma unat_page_of: "unat (w AND NOT (MEM_PAGE_SIZE - 1)) = 4096 * (unat w div 4096)"
proof -
  have m: "MEM_PAGE_SIZE - 1 = mask 12" by code_simp
  have "w AND NOT (mask 12) = push_bit 12 (drop_bit 12 w)" by (auto simp: bit_eq_iff [where 'a = u64] bit_simps)
  moreover have "unat (push_bit 12 (drop_bit 12 w)) = 4096 * (unat w div 4096)"
  proof -
    have "unat w < 2 ^ 64" using unsigned_less [of w] by simp
    then have "4096 * (unat w div 4096) < 2 ^ 64" by (rule le_less_trans [rotated]) simp
    then show ?thesis by (simp add: push_bit_eq_mult unat_word_ariths unat_drop_12 mult.commute)
  qed
  ultimately show ?thesis by (simp only: m)
qed

lemma identity_loop_iff:
  assumes "unat page = 4096 * j" and "unat last_page = 4096 * k" and "j \<le> k"
  shows "identity_loop mem cr3 last_page page \<longleftrightarrow>
    (\<forall>a :: u64. j \<le> unat a div 4096 \<and> unat a div 4096 \<le> k \<longrightarrow> translate mem cr3 a = Some a)"
  using assms
proof (induction mem cr3 last_page page arbitrary: j rule: identity_loop.induct)
  case (1 mem cr3 last_page page)
  have same: "translate mem cr3 a = Some a \<longleftrightarrow> page_is_identity_mapped mem cr3 page" if "unat a div 4096 = j" for a
  proof -
    have "unat (drop_bit 12 a) = unat (drop_bit 12 page)" using that 1(2) by (simp add: unat_drop_12)
    then have "drop_bit 12 a = drop_bit 12 page" by (simp only: word_unat_eq_iff)
    then show ?thesis unfolding page_is_identity_mapped_iff by (rule translate_identity_page)
  qed
  have own: "unat page div 4096 = j" using 1(2) by simp
  show ?case
  proof (cases "page = last_page")
    case True
    then have "j = k" using 1(2,3) by simp
    then have "(\<forall>a :: u64. j \<le> unat a div 4096 \<and> unat a div 4096 \<le> k \<longrightarrow> translate mem cr3 a = Some a) \<longleftrightarrow>
        page_is_identity_mapped mem cr3 page"
      using same own by (metis order_antisym order_refl)
    then show ?thesis using True identity_loop.simps [of mem cr3 last_page page] by simp
  next
    case False
    then have jk: "Suc j \<le> k" using 1(2,3,4) by (auto simp: word_unat_eq_iff)
    have "unat last_page < 2 ^ 64" using unsigned_less [of last_page] by simp
    then have "4096 * j + 4096 < 2 ^ 64" using 1(3) jk by simp
    then have "checked_add page MEM_PAGE_SIZE \<noteq> None" using 1(2) by (simp add: checked_simps MEM_PAGE_SIZE_def)
    then obtain page1 where p1: "checked_add page MEM_PAGE_SIZE = Some page1" by blast
    then have p2: "unat page1 = 4096 * Suc j" using 1(2) by (simp add: checked_simps MEM_PAGE_SIZE_def)
    have "identity_loop mem cr3 last_page page \<longleftrightarrow>
        page_is_identity_mapped mem cr3 page \<and> identity_loop mem cr3 last_page page1"
      using False p1 identity_loop.simps [of mem cr3 last_page page] by simp
    also have "\<dots> \<longleftrightarrow> page_is_identity_mapped mem cr3 page \<and>
        (\<forall>a :: u64. Suc j \<le> unat a div 4096 \<and> unat a div 4096 \<le> k \<longrightarrow> translate mem cr3 a = Some a)"
      using 1(1) [OF _ False p1 p2 1(3) jk] by (rule conj_cong [OF refl]) simp
    also have "\<dots> \<longleftrightarrow> (\<forall>a :: u64. j \<le> unat a div 4096 \<and> unat a div 4096 \<le> k \<longrightarrow> translate mem cr3 a = Some a)"
    proof (intro iffI allI impI conjI)
      fix a :: u64
      assume all: "page_is_identity_mapped mem cr3 page \<and>
          (\<forall>a :: u64. Suc j \<le> unat a div 4096 \<and> unat a div 4096 \<le> k \<longrightarrow> translate mem cr3 a = Some a)"
        and a: "j \<le> unat a div 4096 \<and> unat a div 4096 \<le> k"
      then show "translate mem cr3 a = Some a" using same [of a] by (cases "unat a div 4096 = j") simp_all
    next
      assume all: "\<forall>a :: u64. j \<le> unat a div 4096 \<and> unat a div 4096 \<le> k \<longrightarrow> translate mem cr3 a = Some a"
      then show "page_is_identity_mapped mem cr3 page" using same [OF own] own jk by simp
      show "translate mem cr3 a = Some a" if "Suc j \<le> unat a div 4096 \<and> unat a div 4096 \<le> k" for a
        using all that by simp
    qed
    finally show ?thesis .
  qed
qed

text \<open>Blocks of the heap: aligned, inside the heap, and above everything that was allocated before.\<close>

definition heap_ok :: "kernel_heap \<Rightarrow> bool" where
  "heap_ok h \<longleftrightarrow> kh_start h \<le> kh_next h \<and> kh_next h \<le> kh_end h"

lemma is_power_of_two_mask:
  fixes w :: "'a::len word"
  assumes "is_power_of_two w"
  obtains n where "n < LENGTH('a)" and "unat w = 2 ^ n" and "w - 1 = mask n"
proof -
  have w: "w \<noteq> 0" "w AND (w - 1) = 0" using assms by (simp_all add: is_power_of_two_def)
  then have "1 \<le> unat w" by (simp add: Suc_le_eq unat_gt_0)
  then obtain n where n: "2 ^ n \<le> unat w" "unat w < 2 ^ (n + 1)" using ex_power_ivl1 [of 2 "unat w"] by auto
  have len: "n < LENGTH('a)" using n(1) unsigned_less [of w] by (meson leI le_less_trans not_less one_less_numeral_iff
        power_increasing_iff semiring_norm(76))
  have top: "bit v n" if "2 ^ n \<le> unat v" "unat v < 2 ^ (n + 1)" for v :: "'a word"
  proof -
    have "unat v div 2 ^ n = 1" using that by (simp add: div_nat_eqI)
    then have "bit (unat v) n" by (simp add: bit_iff_odd)
    then show ?thesis by (simp add: bit_unsigned_iff)
  qed
  have eq: "unat w = 2 ^ n"
  proof (rule ccontr)
    assume "unat w \<noteq> 2 ^ n"
    then have "bit (w - 1) n" using n w(1) by (intro top) (simp_all add: unat_minus_one)
    moreover have "bit w n" using n by (rule top)
    ultimately have "bit (w AND (w - 1)) n" by (simp add: bit_simps)
    then show False using w(2) by simp
  qed
  have "w = word_of_nat (unat w)" by simp
  also have "\<dots> = push_bit n 1" by (simp add: eq)
  finally have "w = push_bit n 1" .
  then show thesis using that [of n] len eq by (simp add: mask_eq_exp_minus_1)
qed

lemma heap_allocate_Some:
  assumes ok: "heap_ok h" and al: "heap_allocate bytes alignment h = (Some p, h')"
  shows "heap_ok h'" and "is_multiple_of p alignment" and "kh_next h \<le> p" and "0 < unat bytes"
    and "unat p + unat bytes = unat (kh_next h')" and "kh_next h' \<le> kh_end h"
    and "kh_end h' = kh_end h" and "kh_start h' = kh_start h"
proof -
  obtain padded end_address where b: "bytes \<noteq> 0" "is_power_of_two alignment"
    "checked_add (kh_next h) (alignment - 1) = Some padded" "p = padded AND NOT (alignment - 1)"
    "checked_add p bytes = Some end_address" "\<not> kh_end h < end_address" "h' = h\<lparr>kh_next := end_address\<rparr>"
    using al by (auto simp: heap_allocate_def Let_def split: if_splits option.splits)
  obtain n where n: "n < 64" and an: "unat alignment = 2 ^ n" and m: "alignment - 1 = mask n"
    using is_power_of_two_mask [OF b(2)] by auto
  have pe: "p = push_bit n (drop_bit n padded)" unfolding b(4) m by (auto simp: bit_eq_iff [where 'a = u64] bit_simps)
  have "unat padded < 2 ^ 64" using unsigned_less [of padded] by simp
  then have "2 ^ n * (unat padded div 2 ^ n) < 2 ^ 64" by (rule le_less_trans [rotated]) simp
  then have pu: "unat p = 2 ^ n * (unat padded div 2 ^ n)"
  proof -
    have "unat p = take_bit 64 (push_bit n (drop_bit n (unat padded)))" unfolding pe
      using \<open>unat padded < 2 ^ 64\<close> by (simp add: unsigned_push_bit_eq unsigned_drop_bit_eq take_bit_nat_eq_self)
    then show ?thesis using \<open>2 ^ n * (unat padded div 2 ^ n) < 2 ^ 64\<close>
      by (simp add: push_bit_eq_mult drop_bit_eq_div take_bit_eq_mod mult.commute)
  qed
  have "unat (alignment - 1) = 2 ^ n - 1" using an b(2) by (simp add: unat_minus_one is_power_of_two_def)
  then have "unat padded = unat (kh_next h) + 2 ^ n - 1" using b(3) by (simp add: checked_simps)
  moreover have "unat p + unat padded mod 2 ^ n = unat padded" using pu by simp
  moreover have "unat padded mod 2 ^ n < 2 ^ n" by simp
  ultimately have le: "unat (kh_next h) \<le> unat p" by linarith
  show "kh_end h' = kh_end h" "kh_start h' = kh_start h" "0 < unat bytes" "unat p + unat bytes = unat (kh_next h')" "kh_next h' \<le> kh_end h"
    using b by (simp_all add: checked_simps unat_gt_0 not_less)
  show "is_multiple_of p alignment" using an pu by (simp add: is_multiple_of_iff)
  show "kh_next h \<le> p" using le by (simp add: word_le_nat_alt)
  show "heap_ok h'" using ok b le by (simp add: heap_ok_def checked_simps word_le_nat_alt word_less_nat_alt)
qed

text \<open>Identity mapping of a range, by the processor's walk.\<close>

lemma range_pages_iff:
  fixes address end_address :: u64
  assumes "address < end_address"
  shows "(\<forall>a. unat address div 4096 \<le> unat a div 4096 \<and> unat a div 4096 \<le> (unat end_address - 1) div 4096 \<longrightarrow>
      translate mem cr3 a = Some a) \<longleftrightarrow> (\<forall>a. address \<le> a \<and> a < end_address \<longrightarrow> translate mem cr3 a = Some a)"
proof (intro iffI allI impI)
  fix a assume all: "\<forall>a. unat address div 4096 \<le> unat a div 4096 \<and> unat a div 4096 \<le> (unat end_address - 1) div 4096 \<longrightarrow>
      translate mem cr3 a = Some a" and a: "address \<le> a \<and> a < end_address"
  have "unat address \<le> unat a" "unat a \<le> unat end_address - 1" using a by (auto simp: word_le_nat_alt word_less_nat_alt)
  then show "translate mem cr3 a = Some a" using all by (simp add: div_le_mono)
next
  fix a :: u64 assume all: "\<forall>a. address \<le> a \<and> a < end_address \<longrightarrow> translate mem cr3 a = Some a"
    and a: "unat address div 4096 \<le> unat a div 4096 \<and> unat a div 4096 \<le> (unat end_address - 1) div 4096"
  define m where "m = max (unat address) (4096 * (unat a div 4096))"
  have lt: "unat address < unat end_address" using assms by (simp add: word_less_nat_alt)
  have m: "unat address \<le> m" "m < unat end_address" "m div 4096 = unat a div 4096"
  proof -
    show "unat address \<le> m" by (simp add: m_def)
    have "4096 * (unat a div 4096) \<le> 4096 * ((unat end_address - 1) div 4096)" using a by simp
    also have "\<dots> \<le> unat end_address - 1" by simp
    finally have "4096 * (unat a div 4096) \<le> unat end_address - 1" .
    then show "m < unat end_address" using lt by (simp add: m_def)
    show "m div 4096 = unat a div 4096" 
      using a div_le_mono [of "4096 * (unat a div 4096)" "unat address" 4096] by (auto simp: m_def max_def)
  qed
  have "unat end_address < 2 ^ 64" using unsigned_less [of end_address] by simp
  then have "m < 2 ^ 64" using m(2) by simp
  then have u: "unat (word_of_nat m :: u64) = m" by (simp add: unat_word_of_nat)
  then have "translate mem cr3 (word_of_nat m) = Some (word_of_nat m)"
    using all m(1,2) by (simp add: word_le_nat_alt word_less_nat_alt)
  moreover have "drop_bit 12 (word_of_nat m :: u64) = drop_bit 12 a" using u m(3) by (simp add: word_unat_eq_iff unat_drop_12)
  ultimately show "translate mem cr3 a = Some a" using translate_identity_page by blast
qed

text \<open>The blocks that a sequence of requests is served with.\<close>

fun heap_serve :: "(u64 \<times> u64) list \<Rightarrow> kernel_heap \<Rightarrow> (nat \<times> nat) list" where
  "heap_serve [] h = []"
| "heap_serve ((bytes, alignment) # reqs) h =
     (case heap_allocate bytes alignment h of
        (Some p, h1) \<Rightarrow> (unat p, unat p + unat bytes) # heap_serve reqs h1
      | (None, h1) \<Rightarrow> heap_serve reqs h1)"

lemma heap_allocate_None: "heap_allocate bytes alignment h = (None, h') \<Longrightarrow> h' = h"
  by (auto simp: heap_allocate_def Let_def split: if_splits option.splits)

lemma heap_serve_disjoint:
  assumes "heap_ok h"
  shows "sorted_wrt spans_apart (heap_serve reqs h) \<and>
    (\<forall>b \<in> set (heap_serve reqs h). unat (kh_next h) \<le> fst b \<and> fst b < snd b \<and> snd b \<le> unat (kh_end h))"
  using assms
proof (induction reqs h rule: heap_serve.induct)
  case (2 bytes alignment reqs h)
  show ?case
  proof (cases "heap_allocate bytes alignment h")
    case (Pair r h1)
    show ?thesis
    proof (cases r)
      case None
      then show ?thesis using Pair 2 heap_allocate_None [of bytes alignment h h1] by simp
    next
      case (Some p)
      then have al: "heap_allocate bytes alignment h = (Some p, h1)" using Pair by simp
      note a = heap_allocate_Some [OF \<open>heap_ok h\<close> al]
      have "unat (kh_next h) \<le> unat p" "unat (kh_next h1) \<le> unat (kh_end h)" using a(3,6) by (simp_all add: word_le_nat_alt)
      then show ?thesis using 2(2) [OF al [symmetric] refl a(1)] al a(4,5,7) by (fastforce simp: spans_apart_def)
    qed
  qed
qed simp

text \<open>Page tables: what an update makes of the entries, and that an entry's address survives its flags.\<close>

lemma pt_map_entries:
  assumes "pt_map i raw t = (done, t')"
  shows "done \<longleftrightarrow> i < length t \<and> pt_entry i t = None \<and> raw \<noteq> 0"
    and "pt_entry j t' = (if done \<and> j = i then Some raw else pt_entry j t)"
  using assms by (auto simp: pt_map_def pt_replace_empty_def pt_entry_def array_get_def nth_list_update split: if_splits)

lemma pt_replace_entries:
  assumes "pt_replace i raw t = (done, t')"
  shows "done \<longleftrightarrow> pt_entry i t \<noteq> None \<and> raw \<noteq> 0"
    and "pt_entry j t' = (if done \<and> j = i then Some raw else pt_entry j t)"
  using assms by (auto simp: pt_replace_def pt_entry_def array_get_def nth_list_update split: if_splits)

lemma pt_unmap_entries:
  assumes "pt_unmap i t = (r, t')"
  shows "r = pt_entry i t" and "pt_entry j t' = (if j = i then None else pt_entry j t)"
  using assms by (auto simp: pt_unmap_def pt_entry_def array_get_def nth_list_update split: if_splits)

lemma pt_clear_entries: "pt_entry j (pt_clear t) = None"
  by (simp add: pt_clear_def pt_entry_def array_get_def)

lemma pte_new_address:
  assumes n: "pte_new physical_address flags = Some raw" and f: "flags AND PAGE_TABLE_ADDRESS_MASK = 0"
  shows "table_address raw = physical_address" and "pte_is_present raw \<longleftrightarrow> bit flags 0"
proof -
  have m: "MEM_PAGE_SIZE - 1 = mask 12" by code_simp
  have r: "raw = physical_address OR flags" and low: "physical_address AND mask 12 = 0" and lim: "\<not> push_bit 52 1 \<le> physical_address"
    using n by (auto simp: pte_new_def m split: if_splits)
  have "unat physical_address < 2 ^ 52" using lim by (simp add: word_le_nat_alt not_le)
  then have hi: "take_bit 52 physical_address = physical_address" by (simp add: word_unat_eq_iff unsigned_take_bit_eq take_bit_nat_eq_self)
  have pos: "bit physical_address k \<Longrightarrow> 12 \<le> k \<and> k < 52 \<and> k - 12 < 40" for k
  proof -
    assume b: "bit physical_address k"
    have "bit (take_bit 52 physical_address) k" using b hi by simp
    moreover have "\<not> bit (physical_address AND mask 12) k" using low by simp
    ultimately show ?thesis using b by (auto simp: bit_simps)
  qed
  then have pa: "table_address physical_address = physical_address"
    by (auto simp: table_address_def bit_eq_iff [where 'a = u64] bit_simps dest: bit_imp_le_length)
  have fl: "table_address flags = 0" using f by (simp add: table_address_def PAGE_TABLE_ADDRESS_MASK_def and_mask_field)
  have "table_address (x OR y) = table_address x OR table_address y" for x y
    by (auto simp: table_address_def bit_eq_iff [where 'a = u64] bit_simps)
  then show "table_address raw = physical_address" using r pa fl by simp
  have "\<not> bit physical_address 0" using pos [of 0] by auto
  then show "pte_is_present raw \<longleftrightarrow> bit flags 0" using r by (simp add: pte_is_present_def PTE_PRESENT_def and_bit_iff(1) bit_simps)
qed

section \<open>Properties\<close>

text \<open>C12. Every page has at most one owner. Suppose the allocator is built from a firmware memory map whose
  conventional descriptors do not overlap, as UEFI specifies, and has served any number of calls. At first
  no page is held. After the calls every page that clients hold is a page of conventional memory. An allocation returns a page that
  nobody holds, and fails only when every page (below the bound, if there is one) is held. A page
  can be freed exactly when it is held and the list of freed pages has room; in particular a page is
  never freed twice.\<close>

theorem pages_have_one_owner:
  assumes "allocator_booted read_entry info a0" and "page_step\<^sup>*\<^sup>* a0 a"
  shows "held a0 = {} \<and> held a \<subseteq> conventional_pages read_entry info \<and>
    (case allocate_page a of
       (Some p, a') \<Rightarrow> p \<in> conventional_pages read_entry info - held a \<and> held a' = insert p (held a)
     | (None, a') \<Rightarrow> a' = a \<and> held a = conventional_pages read_entry info) \<and>
    (\<forall>upper. case allocate_page_below upper a of
       (Some p, a') \<Rightarrow> p < upper \<and> p \<in> conventional_pages read_entry info - held a \<and> held a' = insert p (held a)
     | (None, a') \<Rightarrow> a' = a \<and> (\<forall>p \<in> conventional_pages read_entry info. p < upper \<longrightarrow> p \<in> held a)) \<and>
    (\<forall>page. case free_page page a of
       (freed, a') \<Rightarrow> (freed \<longleftrightarrow> page \<in> held a \<and> pa_freed_count a < MAX_FREED_PAGES) \<and>
         held a' = (if freed then held a - {page} else held a))"
proof -
  have inv: "allocator_inv read_entry info a" using page_runs.reachable_inv [OF assms] .
  then have ok: "allocator_ok a" and m: "managed a = conventional_pages read_entry info" by (simp_all add: allocator_inv_def)
  have "held a0 = {}" by (rule from_boot_info_inv(2) [OF assms(1)])
  moreover have "held a \<subseteq> conventional_pages read_entry info" using handed_out_managed [OF ok] m by (auto simp: held_def)
  moreover have "case allocate_page a of
      (Some p, a') \<Rightarrow> p \<in> conventional_pages read_entry info - held a \<and> held a' = insert p (held a)
    | (None, a') \<Rightarrow> a' = a \<and> held a = conventional_pages read_entry info"
    using allocate_page_spec [OF ok] m by (auto split: prod.split option.split)
  moreover have "case allocate_page_below upper a of
      (Some p, a') \<Rightarrow> p < upper \<and> p \<in> conventional_pages read_entry info - held a \<and> held a' = insert p (held a)
    | (None, a') \<Rightarrow> a' = a \<and> (\<forall>p \<in> conventional_pages read_entry info. p < upper \<longrightarrow> p \<in> held a)" for upper
    using allocate_page_below_spec [OF ok, of upper] m by (auto split: prod.split option.split)
  moreover have "case free_page page a of
      (freed, a') \<Rightarrow> (freed \<longleftrightarrow> page \<in> held a \<and> pa_freed_count a < MAX_FREED_PAGES) \<and>
        held a' = (if freed then held a - {page} else held a)" for page
    using free_page_spec(1,2) [OF ok, of page] by (auto split: prod.split)
  ultimately show ?thesis by blast
qed

text \<open>A map with two descriptors, one of them conventional memory of two pages.\<close>

definition sample_descriptor :: "u64 \<Rightarrow> memory_map_entry" where
  "sample_descriptor address =
     \<lparr>me_memory_type = (if address = 0x1028 then CONVENTIONAL_MEMORY_TYPE else EFI_RUNTIME_SERVICES_CODE), me_reserved = 0,
      me_physical_start = 0x100000, me_virtual_start = 0, me_page_count = 2, me_attributes = 0\<rparr>"

definition sample_boot_info :: boot_info where
  "sample_boot_info = boot_info_new\<lparr>
     bi_memory_map := \<lparr>mm_address = 0x1000, mm_entry_count = 2, mm_entry_size = 40, mm_entry_version = 1, mm_reserved = 0\<rparr>,
     bi_framebuffer := \<lparr>fb_address = 0x200000, fb_byte_size = 4096, fb_width = 32, fb_height = 32,
       fb_pixels_per_scanline = 32, fb_pixel_format = 0\<rparr>,
     bi_acpi_rsdp := 0x300000\<rparr>"

lemma sample_allocator:
  "\<exists>a. allocator_booted sample_descriptor sample_boot_info a \<and> pa_range_count a = 1 \<and> pa_freed_count a = 0 \<and>
     pa_ranges a ! 0 = \<lparr>pr_start = 0x100000, pr_next = 0x100000, pr_end = 0x102000\<rparr>"
proof -
  have v: "boot_info_validate sample_boot_info = Inr ()" by code_simp
  have up: "[0..<2] = [0, Suc 0]" by (simp add: upt_rec)
  have mm: "bi_memory_map sample_boot_info =
      \<lparr>mm_address = 0x1000, mm_entry_count = 2, mm_entry_size = 40, mm_entry_version = 1, mm_reserved = 0\<rparr>"
    by (simp add: sample_boot_info_def)
  show ?thesis
    by (simp add: v mm allocator_booted_def from_boot_info_def memory_map_disjoint_def conventional_spans_def
        conventional_entries_def usable_entry_def sample_descriptor_def add_descriptor_def checked_mul_def
        checked_add_def is_multiple_of_def MEMORY_MAP_ENTRY_BYTES_def CONVENTIONAL_MEMORY_TYPE_def EFI_RUNTIME_SERVICES_CODE_def
        MEM_PAGE_SIZE_def allocator_empty_def MAX_RANGES_def up)
qed

theorem pages_have_one_owner_witness:
  "\<exists>a p a'. allocator_booted sample_descriptor sample_boot_info a \<and> allocate_page a = (Some p, a') \<and>
     p \<in> conventional_pages sample_descriptor sample_boot_info \<and> p \<in> held a' \<and> \<not> fst (free_page 0x200000 a')"
proof -
  obtain a where a: "allocator_booted sample_descriptor sample_boot_info a" "pa_range_count a = 1" "pa_freed_count a = 0"
    "pa_ranges a ! 0 = \<lparr>pr_start = 0x100000, pr_next = 0x100000, pr_end = 0x102000\<rparr>" using sample_allocator by blast
  have "length (pa_ranges a) = MAX_RANGES" using from_boot_info_inv(1) [OF a(1)] by (simp add: allocator_inv_def allocator_ok_def)
  then have t: "take 1 (pa_ranges a) = [\<lparr>pr_start = 0x100000, pr_next = 0x100000, pr_end = 0x102000\<rparr>]"
    using a(4) by (cases "pa_ranges a") (simp_all add: MAX_RANGES_def)
  have al: "allocate_page a = (Some 0x100000, snd (allocate_page a))"
    using a t by (simp add: allocate_page_def take_from_ranges_def Let_def)
  note now = pages_have_one_owner [OF a(1) rtranclp.rtrancl_refl]
    and then1 = pages_have_one_owner [OF a(1) r_into_rtranclp [of page_step a, OF step_allocate]]
  have h: "held (snd (allocate_page a)) = insert 0x100000 (held a)" "0x100000 \<in> conventional_pages sample_descriptor sample_boot_info"
    using now al by (auto split: prod.splits option.splits)
  have "held a = {}" using now by blast
  moreover have "case free_page 0x200000 (snd (allocate_page a)) of (freed, a') \<Rightarrow> freed \<longrightarrow> 0x200000 \<in> held (snd (allocate_page a))"
    using conjunct2 [OF conjunct2 [OF conjunct2 [OF conjunct2 [OF then1]]], THEN spec [where x = "0x200000"]] by (simp split: prod.splits)
  ultimately have "\<not> fst (free_page 0x200000 (snd (allocate_page a)))" using h(1) by (simp split: prod.splits)
  then show ?thesis using a(1) al h by blast
qed

text \<open>C18. The identity check is exact. It accepts a range exactly when the table base is a page below
  \<open>2 ^ 52\<close>, the range is not empty and does not reach the end of the address space, and the
  processor's page walk, with 1 GiB, 2 MiB and 4 KiB leaves, translates every single address of the
  range to itself; the loop over the pages ends on every input.\<close>

theorem identity_mapped_exact:
  "identity_mapped mem cr3 address len \<longleftrightarrow>
     4096 dvd unat cr3 \<and> unat cr3 < 2 ^ 52 \<and> 0 < unat len \<and> unat address + unat len < 2 ^ 64 \<and>
     (\<forall>a. unat address \<le> unat a \<and> unat a < unat address + unat len \<longrightarrow> translate mem cr3 a = Some a)"
proof -
  have base: "cr3 AND (MEM_PAGE_SIZE - 1) = 0 \<longleftrightarrow> 4096 dvd unat cr3"
  proof -
    have m: "MEM_PAGE_SIZE - 1 = 0xfff" by code_simp
    have "unat (take_bit 12 cr3) = unat cr3 mod 4096" by (simp add: take_bit_eq_mod unat_mod_distrib)
    then show ?thesis unfolding m and_mask_field by (simp add: unat_eq_0 [symmetric] dvd_eq_mod_eq_0)
  qed
  have limit: "push_bit 52 1 \<le> cr3 \<longleftrightarrow> \<not> unat cr3 < 2 ^ 52" by (simp add: word_le_nat_alt not_less)
  show ?thesis
  proof (cases "unat len = 0 \<or> 2 ^ 64 \<le> unat address + unat len")
    case True
    then have "len = 0 \<or> checked_add address len = None" by (auto simp: unat_eq_0 checked_add_None_iff)
    then have "\<not> identity_mapped mem cr3 address len" by (auto simp: identity_mapped_def)
    then show ?thesis using True by auto
  next
    case False
    then obtain e where e: "checked_add address len = Some e" "unat e = unat address + unat len"
      by (cases "checked_add address len") (auto simp: checked_simps)
    have lt: "address < e" using e False by (simp add: word_less_nat_alt)
    have "e \<noteq> 0" using lt by auto
    then have e1: "unat (e - 1) = unat e - 1" by (simp add: unat_minus_one)
    have "unat address div 4096 \<le> (unat e - 1) div 4096" using lt by (intro div_le_mono) (simp add: word_less_nat_alt)
    then have "identity_loop mem cr3 ((e - 1) AND NOT (MEM_PAGE_SIZE - 1)) (address AND NOT (MEM_PAGE_SIZE - 1)) \<longleftrightarrow>
        (\<forall>a. address \<le> a \<and> a < e \<longrightarrow> translate mem cr3 a = Some a)"
      using identity_loop_iff [OF unat_page_of unat_page_of, of address "e - 1" mem cr3] range_pages_iff [OF lt] e1 by simp
    moreover have "len \<noteq> 0" using False by auto
    ultimately show ?thesis
      using e False base limit by (auto simp: identity_mapped_def word_le_nat_alt word_less_nat_alt not_le)
  qed
qed

definition sample_tables :: "u64 \<Rightarrow> u64" where
  "sample_tables address = (if address = 0x1000 then 0x2003 else if address = 0x2000 then 0x83 else 0)"

theorem identity_mapped_exact_witness:
  "identity_mapped sample_tables 0x1000 0x5ff0 0x20 \<and> translate sample_tables 0x1000 0x6001 = Some 0x6001 \<and>
   \<not> identity_mapped sample_tables 0x1000 0x3ffffff0 0x20"
proof -
  have t: "identity_mapped sample_tables 0x1000 0x5ff0 0x20" by code_simp
  have n: "translate sample_tables 0x1000 0x40000000 \<noteq> Some 0x40000000" by code_simp
  have "translate sample_tables 0x1000 0x6001 = Some 0x6001"
    using t identity_mapped_exact [of sample_tables "0x1000" "0x5ff0" "0x20"] by simp
  moreover have "\<not> identity_mapped sample_tables 0x1000 0x3ffffff0 0x20"
    using n identity_mapped_exact [of sample_tables "0x1000" "0x3ffffff0" "0x20"] by force
  ultimately show ?thesis using t by blast
qed

end
