(* ===== verification/Rust_Text.thy ===== *)
theory Rust_Text
  imports Prelude
begin

text \<open>
  The string functions of the Rust standard library that the permission policy uses. A string is the list
  of its Unicode scalar values; its length is the number of bytes of its UTF-8 encoding.
\<close>

type_synonym str = "nat list"

text \<open>An ASCII literal.\<close>

definition lit :: "string \<Rightarrow> str" where
  "lit s = map of_char s"

definition char_len_utf8 :: "nat \<Rightarrow> nat" where
  "char_len_utf8 c = (if c < 0x80 then 1 else if c < 0x800 then 2 else if c < 0x10000 then 3 else 4)"

definition text_len :: "str \<Rightarrow> nat" where
  "text_len s = sum_list (map char_len_utf8 s)"

section \<open>Characters\<close>

definition is_control :: "nat \<Rightarrow> bool" where
  "is_control c \<longleftrightarrow> c < 0x20 \<or> 0x7f \<le> c \<and> c < 0xa0"

definition is_whitespace :: "nat \<Rightarrow> bool" where
  "is_whitespace c \<longleftrightarrow> 0x9 \<le> c \<and> c \<le> 0xd \<or> c = 0x20 \<or> c = 0x85 \<or> c = 0xa0 \<or> c = 0x1680 \<or>
     0x2000 \<le> c \<and> c \<le> 0x200a \<or> c = 0x2028 \<or> c = 0x2029 \<or> c = 0x202f \<or> c = 0x205f \<or> c = 0x3000"

definition is_ascii_lowercase :: "nat \<Rightarrow> bool" where
  "is_ascii_lowercase c \<longleftrightarrow> 0x61 \<le> c \<and> c \<le> 0x7a"

definition is_ascii_digit :: "nat \<Rightarrow> bool" where
  "is_ascii_digit c \<longleftrightarrow> 0x30 \<le> c \<and> c \<le> 0x39"

definition is_ascii_alphanumeric :: "nat \<Rightarrow> bool" where
  "is_ascii_alphanumeric c \<longleftrightarrow> is_ascii_lowercase c \<or> is_ascii_digit c \<or> 0x41 \<le> c \<and> c \<le> 0x5a"

text \<open>\<open>char::to_digit\<close> for radix 10 and 16.\<close>

definition to_digit :: "nat \<Rightarrow> nat \<Rightarrow> nat option" where
  "to_digit radix c =
     (if is_ascii_digit c then Some (c - 0x30)
      else if radix = 16 \<and> 0x61 \<le> c \<and> c \<le> 0x66 then Some (c - 0x61 + 10)
      else if radix = 16 \<and> 0x41 \<le> c \<and> c \<le> 0x46 then Some (c - 0x41 + 10)
      else None)"

section \<open>Searching and splitting\<close>

definition starts_with :: "str \<Rightarrow> str \<Rightarrow> bool" where
  "starts_with pat s \<longleftrightarrow> take (length pat) s = pat"

definition ends_with :: "str \<Rightarrow> str \<Rightarrow> bool" where
  "ends_with pat s \<longleftrightarrow> starts_with (rev pat) (rev s)"

definition strip_prefix :: "str \<Rightarrow> str \<Rightarrow> str option" where
  "strip_prefix pat s = (if starts_with pat s then Some (drop (length pat) s) else None)"

text \<open>\<open>split_once\<close> with a non-empty pattern, and \<open>contains\<close>.\<close>

fun split_once :: "str \<Rightarrow> str \<Rightarrow> (str \<times> str) option" where
  "split_once pat [] = None"
| "split_once pat (c # s) =
     (if starts_with pat (c # s) then Some ([], drop (length pat) (c # s))
      else map_option (\<lambda>(before, after). (c # before, after)) (split_once pat s))"

definition contains_text :: "str \<Rightarrow> str \<Rightarrow> bool" where
  "contains_text pat s \<longleftrightarrow> split_once pat s \<noteq> None"

text \<open>\<open>split\<close> at a character: one more segment than there are separators.\<close>

fun split_at_char :: "nat \<Rightarrow> str \<Rightarrow> str list" where
  "split_at_char sep [] = [[]]"
| "split_at_char sep (c # s) =
     (if c = sep then [] # split_at_char sep s
      else (case split_at_char sep s of [] \<Rightarrow> [[c]] | seg # segs \<Rightarrow> (c # seg) # segs))"

section \<open>Numbers\<close>

text \<open>\<open>to_string\<close> of an unsigned integer.\<close>

fun decimal :: "nat \<Rightarrow> str" where
  "decimal n = (if n < 10 then [0x30 + n] else decimal (n div 10) @ [0x30 + n mod 10])"

declare decimal.simps [simp del]

definition digits_value :: "nat \<Rightarrow> nat list \<Rightarrow> nat" where
  "digits_value radix ds = foldl (\<lambda>acc d. acc * radix + d) 0 ds"

text \<open>\<open>parse::<u16>\<close>: an optional plus sign, at least one digit, no overflow.\<close>

definition parse_u16 :: "str \<Rightarrow> nat option" where
  "parse_u16 s =
     (let ds = (case s of [] \<Rightarrow> [] | c # cs \<Rightarrow> if c = 0x2b \<and> cs \<noteq> [] then cs else s) in
      if ds = [] \<or> \<not> list_all is_ascii_digit ds then None
      else let n = digits_value 10 (map (\<lambda>c. c - 0x30) ds) in if n < 2 ^ 16 then Some n else None)"

section \<open>IPv6 addresses\<close>

text \<open>The address parser, as an acceptor: each reader returns what it leaves unread.\<close>

fun read_digits :: "nat \<Rightarrow> str \<Rightarrow> nat list \<times> str" where
  "read_digits radix [] = ([], [])"
| "read_digits radix (c # s) =
     (case to_digit radix c of
        None \<Rightarrow> ([], c # s)
      | Some d \<Rightarrow> (let (ds, rest) = read_digits radix s in (d # ds, rest)))"

definition read_number :: "nat \<Rightarrow> nat \<Rightarrow> bool \<Rightarrow> nat \<Rightarrow> str \<Rightarrow> str option" where
  "read_number radix max_digits allow_zero_prefix limit s =
     (let (ds, rest) = read_digits radix s in
      if ds = [] \<or> max_digits < length ds \<or> \<not> allow_zero_prefix \<and> hd ds = 0 \<and> 1 < length ds \<or>
         limit < digits_value radix ds
      then None else Some rest)"

definition read_separator :: "nat \<Rightarrow> nat \<Rightarrow> (str \<Rightarrow> str option) \<Rightarrow> str \<Rightarrow> str option" where
  "read_separator sep index inner s =
     (if index = 0 then inner s
      else (case s of [] \<Rightarrow> None | c # rest \<Rightarrow> if c = sep then inner rest else None))"

fun read_ipv4_from :: "nat list \<Rightarrow> str \<Rightarrow> str option" where
  "read_ipv4_from [] s = Some s"
| "read_ipv4_from (i # is) s =
     (case read_separator 0x2e i (read_number 10 3 False 255) s of
        None \<Rightarrow> None
      | Some rest \<Rightarrow> read_ipv4_from is rest)"

definition read_ipv4_addr :: "str \<Rightarrow> str option" where
  "read_ipv4_addr s = read_ipv4_from [0, 1, 2, 3] s"

text \<open>Up to \<open>limit\<close> groups: how many were read, whether the last two were an IPv4 address, and the rest.\<close>

function read_groups :: "nat \<Rightarrow> nat \<Rightarrow> str \<Rightarrow> nat \<times> bool \<times> str" where
  "read_groups limit i s =
     (if limit \<le> i then (limit, False, s)
      else
        (case (if i < limit - 1 then read_separator 0x3a i read_ipv4_addr s else None) of
           Some rest \<Rightarrow> (i + 2, True, rest)
         | None \<Rightarrow>
             (case read_separator 0x3a i (read_number 16 4 True 0xffff) s of
                None \<Rightarrow> (i, False, s)
              | Some rest \<Rightarrow> read_groups limit (i + 1) rest)))"
  by pat_completeness auto

termination read_groups
  by (relation "measure (\<lambda>(limit, i, s). limit - i)") auto

declare read_groups.simps [simp del]

definition is_ipv6_addr :: "str \<Rightarrow> bool" where
  "is_ipv6_addr s =
     (let (head_size, head_ipv4, rest) = read_groups 8 0 s in
      if head_size = 8 then rest = []
      else if head_ipv4 then False
      else
        (case rest of
           c # d # tail \<Rightarrow>
             if c = 0x3a \<and> d = 0x3a
             then (let (n, v4, left) = read_groups (8 - (head_size + 1)) 0 tail in left = [])
             else False
         | _ \<Rightarrow> False))"

section \<open>Segments\<close>

lemma split_at_char_nonempty [simp]: "split_at_char sep s \<noteq> []"
  by (induction s) (auto split: list.splits)

text \<open>Joining is the inverse of splitting.\<close>

fun join_with :: "nat \<Rightarrow> str list \<Rightarrow> str" where
  "join_with sep [] = []"
| "join_with sep [seg] = seg"
| "join_with sep (seg # segs) = seg @ sep # join_with sep segs"

lemma join_split [simp]: "join_with sep (split_at_char sep s) = s"
proof (induction s)
  case (Cons c s)
  then show ?case
  proof (cases "split_at_char sep s")
    case (Cons seg segs)
    then show ?thesis using Cons.IH by (cases segs) auto
  qed simp
qed simp

lemma split_append: "split_at_char sep (s @ sep # t) = split_at_char sep s @ split_at_char sep t"
  by (induction s) (auto split: list.split simp: append_eq_Cons_conv)

lemma split_no_sep: "seg \<in> set (split_at_char sep s) \<Longrightarrow> sep \<notin> set seg"
  by (induction s arbitrary: seg) (auto split: list.splits if_splits)

end
