(* ===== verification/Capability.thy ===== *)
theory Capability
  imports Rust_Text "HOL-Library.Sublist"
begin

text \<open>
  The data of the permission policy, \<open>src/crates/nagi-capability/src/ids.rs\<close> and \<open>model.rs\<close>:
  validated identifiers, resource scopes and when one covers another, principals, and grants with their
  lifetimes and their validity.
\<close>

section \<open>Identifiers\<close>

definition MAX_IDENTIFIER_BYTES :: nat where "MAX_IDENTIFIER_BYTES = 128"

datatype identifier_error = ID_Empty | ID_TooLong | ID_InvalidNamespace | ID_InvalidCharacter

type_synonym capability_id = str
type_synonym principal_id = str
type_synonym session_id = str

definition validate_length :: "str \<Rightarrow> (identifier_error, unit) result" where
  "validate_length s =
     (if s = [] then Inl ID_Empty else if MAX_IDENTIFIER_BYTES < text_len s then Inl ID_TooLong else Inr ())"

definition valid_namespace_segment :: "str \<Rightarrow> bool" where
  "valid_namespace_segment segment =
     (case segment of
        [] \<Rightarrow> False
      | c # cs \<Rightarrow> is_ascii_lowercase c \<and> list_all (\<lambda>d. is_ascii_lowercase d \<or> is_ascii_digit d \<or> d = 0x2d) cs)"

definition validate_capability_id :: "str \<Rightarrow> (identifier_error, unit) result" where
  "validate_capability_id s =
     (case validate_length s of
        Inl e \<Rightarrow> Inl e
      | Inr _ \<Rightarrow>
          (case split_at_char 0x2e s of
             [] \<Rightarrow> Inl ID_InvalidNamespace
           | first # segments \<Rightarrow>
               if \<not> valid_namespace_segment first \<or> segments = [] then Inl ID_InvalidNamespace
               else if list_ex (\<lambda>segment. \<not> valid_namespace_segment segment) segments then Inl ID_InvalidNamespace
               else Inr ()))"

definition validate_principal_id :: "str \<Rightarrow> (identifier_error, unit) result" where
  "validate_principal_id s =
     (case validate_length s of
        Inl e \<Rightarrow> Inl e
      | Inr _ \<Rightarrow>
          (case s of
             [] \<Rightarrow> Inl ID_Empty
           | c # cs \<Rightarrow>
               if \<not> is_ascii_lowercase c \<and> \<not> is_ascii_digit c then Inl ID_InvalidCharacter
               else if list_ex (\<lambda>d. \<not> (is_ascii_lowercase d \<or> is_ascii_digit d \<or> d \<in> set (lit ''._:/-''))) cs
               then Inl ID_InvalidCharacter
               else Inr ()))"

definition validate_session_id :: "str \<Rightarrow> (identifier_error, unit) result" where
  "validate_session_id s =
     (case validate_length s of
        Inl e \<Rightarrow> Inl e
      | Inr _ \<Rightarrow>
          (case s of
             [] \<Rightarrow> Inl ID_Empty
           | c # cs \<Rightarrow>
               if \<not> is_ascii_alphanumeric c \<or>
                  list_ex (\<lambda>d. \<not> (is_ascii_alphanumeric d \<or> d \<in> set (lit ''._:-''))) cs
               then Inl ID_InvalidCharacter
               else Inr ()))"

text \<open>The constructor that \<open>validated_string_id!\<close> generates, for one of the three validators.\<close>

definition validated_string_id :: "(str \<Rightarrow> (identifier_error, unit) result) \<Rightarrow> str \<Rightarrow> (identifier_error, str) result" where
  "validated_string_id validator value = (case validator value of Inl e \<Rightarrow> Inl e | Inr _ \<Rightarrow> Inr value)"

section \<open>Scopes\<close>

datatype capability_scope =
    Unscoped
  | Filesystem str
  | NetworkOrigin str
  | DeviceClass str
  | ModelProvider str
  | AutomationTarget str
  | Opaque capability_id str

datatype scope_error = SE_InvalidFilesystemPath | SE_InvalidNetworkOrigin | SE_InvalidScopeToken

definition scope_error_message :: "scope_error \<Rightarrow> str" where
  "scope_error_message e =
     (case e of
        SE_InvalidFilesystemPath \<Rightarrow> lit ''filesystem paths must be normalized absolute logical paths without dot segments''
      | SE_InvalidNetworkOrigin \<Rightarrow> lit ''network origins must be canonical lowercase HTTP(S) origins without credentials or path''
      | SE_InvalidScopeToken \<Rightarrow> lit ''scope values must be non-empty, bounded, and contain no wildcard or control characters'')"

definition valid_logical_path :: "str \<Rightarrow> bool" where
  "valid_logical_path path =
     (if path = [] \<or> 1024 < text_len path \<or> \<not> starts_with (lit ''/'') path \<or> 0x5c \<in> set path then False
      else if path \<noteq> lit ''/'' \<and> ends_with (lit ''/'') path then False
      else if list_ex is_control path then False
      else path = lit ''/'' \<or>
        list_all (\<lambda>segment. segment \<noteq> [] \<and> segment \<noteq> lit ''.'' \<and> segment \<noteq> lit ''..'') (drop 1 (split_at_char 0x2f path)))"

definition valid_port :: "str \<Rightarrow> bool" where
  "valid_port port = (case parse_u16 port of None \<Rightarrow> False | Some number \<Rightarrow> 0 < number \<and> port = decimal number)"

definition valid_host_label :: "str \<Rightarrow> bool" where
  "valid_host_label label \<longleftrightarrow> label \<noteq> [] \<and> \<not> starts_with (lit ''-'') label \<and> \<not> ends_with (lit ''-'') label \<and>
     list_all (\<lambda>c. is_ascii_lowercase c \<or> is_ascii_digit c \<or> c = 0x2d) label"

text \<open>The authority of an origin: a bracketed IPv6 address or a host name, each with an optional port.\<close>

definition valid_bracketed :: "str \<Rightarrow> bool" where
  "valid_bracketed authority =
     (case position (\<lambda>c. c = 0x5d) authority of
        None \<Rightarrow> False
      | Some i \<Rightarrow>
          (let address = drop 1 (take i authority); remainder = drop (i + 1) authority in
           if \<not> is_ipv6_addr address then False
           else remainder = [] \<or> (case strip_prefix (lit '':'') remainder of None \<Rightarrow> False | Some port \<Rightarrow> valid_port port)))"

definition valid_host_port :: "str \<Rightarrow> bool" where
  "valid_host_port authority =
     (case (case split_once (lit '':'') authority of
              Some (host, port) \<Rightarrow> if 0x3a \<notin> set port then Some (host, Some port) else None
            | None \<Rightarrow> Some (authority, None)) of
        None \<Rightarrow> False
      | Some (host, port) \<Rightarrow>
          if host = [] \<or> starts_with (lit ''.'') host \<or> ends_with (lit ''.'') host \<or> contains_text (lit ''..'') host
          then False
          else list_all valid_host_label (split_at_char 0x2e host) \<and>
            (case port of None \<Rightarrow> True | Some p \<Rightarrow> valid_port p))"

definition valid_canonical_origin :: "str \<Rightarrow> bool" where
  "valid_canonical_origin origin =
     (case split_once (lit ''://'') origin of
        None \<Rightarrow> False
      | Some (scheme, authority) \<Rightarrow>
          if \<not> (scheme = lit ''http'' \<or> scheme = lit ''https'') \<or> authority = [] \<or> 512 < text_len authority \<or>
             list_ex (\<lambda>c. c \<in> set (lit ''/?#@'')) authority
          then False
          else if starts_with (lit ''['') authority then valid_bracketed authority
          else valid_host_port authority)"

definition validate_scope_token :: "str \<Rightarrow> (scope_error, unit) result" where
  "validate_scope_token s =
     (if s = [] \<or> 256 < text_len s \<or> list_ex (\<lambda>c. is_control c \<or> is_whitespace c \<or> c \<in> set (lit ''*?'')) s
      then Inl SE_InvalidScopeToken else Inr ())"

fun scope_validate :: "capability_scope \<Rightarrow> (scope_error, unit) result" where
  "scope_validate Unscoped = Inr ()"
| "scope_validate (Filesystem path) = (if valid_logical_path path then Inr () else Inl SE_InvalidFilesystemPath)"
| "scope_validate (NetworkOrigin origin) = (if valid_canonical_origin origin then Inr () else Inl SE_InvalidNetworkOrigin)"
| "scope_validate (DeviceClass class) = validate_scope_token class"
| "scope_validate (ModelProvider provider) = validate_scope_token provider"
| "scope_validate (AutomationTarget target) = validate_scope_token target"
| "scope_validate (Opaque namespace resource) = validate_scope_token resource"

fun scope_covers :: "capability_scope \<Rightarrow> capability_scope \<Rightarrow> bool" where
  "scope_covers (Filesystem granted) (Filesystem request) =
     (granted = request \<or> granted = lit ''/'' \<or>
      (case strip_prefix granted request of None \<Rightarrow> False | Some remainder \<Rightarrow> starts_with (lit ''/'') remainder))"
| "scope_covers scope requested = (scope = requested)"

definition USIZE_MAX :: nat where "USIZE_MAX = 2 ^ 64 - 1"

fun scope_specificity :: "capability_scope \<Rightarrow> nat" where
  "scope_specificity (Filesystem path) = text_len path"
| "scope_specificity Unscoped = 0"
| "scope_specificity _ = USIZE_MAX"

section \<open>Principals\<close>

datatype principal_kind = FirstPartyApp | ThirdPartyApp | SystemService | AiMediatedAction | Automation

record principal =
  pn_id :: principal_id
  pn_kind :: principal_kind
  pn_publisher_id :: "str option"
  pn_package_id :: "str option"
  pn_display_name :: "str option"

datatype principal_error = PN_InvalidMetadata

definition validate_optional_metadata :: "str option \<Rightarrow> (principal_error, unit) result" where
  "validate_optional_metadata m =
     (case m of
        None \<Rightarrow> Inr ()
      | Some s \<Rightarrow> if s = [] \<or> 256 < text_len s \<or> list_ex is_control s then Inl PN_InvalidMetadata else Inr ())"

definition principal_validate :: "principal \<Rightarrow> (principal_error, unit) result" where
  "principal_validate p =
     (case validate_optional_metadata (pn_publisher_id p) of
        Inl e \<Rightarrow> Inl e
      | Inr _ \<Rightarrow>
          (case validate_optional_metadata (pn_package_id p) of
             Inl e \<Rightarrow> Inl e
           | Inr _ \<Rightarrow>
               (case validate_optional_metadata (pn_display_name p) of Inl e \<Rightarrow> Inl e | Inr _ \<Rightarrow> Inr ())))"

section \<open>Grants\<close>

datatype grant_lifetime = OneShot | Session session_id | Persistent
datatype grant_effect = Allow | Deny
datatype grant_source = User_Source | System_Source | Policy_Source

type_synonym grant_id = u64
type_synonym unix_timestamp = u64

record grant =
  gr_id :: grant_id
  gr_principal :: principal_id
  gr_capability :: capability_id
  gr_effect :: grant_effect
  gr_scope :: capability_scope
  gr_lifetime :: grant_lifetime
  gr_source :: grant_source
  gr_reason :: "str option"
  gr_granted_at :: unix_timestamp
  gr_expires_at :: "unix_timestamp option"
  gr_revoked_at :: "unix_timestamp option"
  gr_consumed_at :: "unix_timestamp option"

record evaluation_context =
  ec_now :: unix_timestamp
  ec_session_id :: "session_id option"

datatype grant_validation_error =
    GV_InvalidScope scope_error | GV_ExpiryNotAfterGrant | GV_RevocationBeforeGrant
  | GV_ConsumptionBeforeGrant | GV_UnexpectedConsumption | GV_InvalidReason

text \<open>\<open>is_some_and\<close>.\<close>

definition is_some_and :: "('a \<Rightarrow> bool) \<Rightarrow> 'a option \<Rightarrow> bool" where
  "is_some_and P x = (case x of None \<Rightarrow> False | Some y \<Rightarrow> P y)"

definition grant_validate :: "grant \<Rightarrow> (grant_validation_error, unit) result" where
  "grant_validate g =
     (case scope_validate (gr_scope g) of
        Inl e \<Rightarrow> Inl (GV_InvalidScope e)
      | Inr _ \<Rightarrow>
          if is_some_and (\<lambda>expiry. expiry \<le> gr_granted_at g) (gr_expires_at g) then Inl GV_ExpiryNotAfterGrant
          else if is_some_and (\<lambda>revoked. revoked < gr_granted_at g) (gr_revoked_at g) then Inl GV_RevocationBeforeGrant
          else if is_some_and (\<lambda>consumed. consumed < gr_granted_at g) (gr_consumed_at g) then Inl GV_ConsumptionBeforeGrant
          else if gr_consumed_at g \<noteq> None \<and> (gr_effect g \<noteq> Allow \<or> gr_lifetime g \<noteq> OneShot)
          then Inl GV_UnexpectedConsumption
          else if is_some_and (\<lambda>reason. reason = [] \<or> 512 < text_len reason \<or> list_ex is_control reason) (gr_reason g)
          then Inl GV_InvalidReason
          else Inr ())"

datatype active_grant = AG_Active | AG_Revoked | AG_Expired | AG_NotYetValid | AG_Consumed | AG_WrongSession

definition is_active_at :: "grant \<Rightarrow> evaluation_context \<Rightarrow> active_grant" where
  "is_active_at g context =
     (if gr_revoked_at g \<noteq> None then AG_Revoked
      else if ec_now context < gr_granted_at g then AG_NotYetValid
      else if is_some_and (\<lambda>expiry. expiry \<le> ec_now context) (gr_expires_at g) then AG_Expired
      else
        (case gr_lifetime g of
           OneShot \<Rightarrow> if gr_consumed_at g \<noteq> None then AG_Consumed else AG_Active
         | Persistent \<Rightarrow> AG_Active
         | Session session_id \<Rightarrow> if ec_session_id context = Some session_id then AG_Active else AG_WrongSession))"

section \<open>Coverage\<close>

text \<open>The segments of a valid path; a path scope covers another exactly when its segments are a prefix.\<close>

definition path_segments :: "str \<Rightarrow> str list" where
  "path_segments path = (if path = lit ''/'' then [] else drop 1 (split_at_char 0x2f path))"

lemma lit_slash [simp]: "lit ''/'' = [0x2f]"
  by code_simp

lemma strip_prefix_Some_iff: "strip_prefix p s = Some t \<longleftrightarrow> s = p @ t"
proof -
  have "s = p @ t" if "take (length p) s = p" "t = drop (length p) s" using that by (metis append_take_drop_id)
  then show ?thesis by (auto simp: strip_prefix_def starts_with_def)
qed

lemma covers_path_iff:
  "scope_covers (Filesystem p) (Filesystem q) \<longleftrightarrow> p = q \<or> p = [0x2f] \<or> (\<exists>t. q = p @ 0x2f # t)"
proof -
  have "starts_with [0x2f] t \<longleftrightarrow> (\<exists>u. t = 0x2f # u)" for t by (cases t) (auto simp: starts_with_def)
  then have "(case strip_prefix p q of None \<Rightarrow> False | Some t \<Rightarrow> starts_with [0x2f] t) \<longleftrightarrow> (\<exists>t. q = p @ 0x2f # t)"
    using strip_prefix_Some_iff [of p q] by (cases "strip_prefix p q") auto
  then show ?thesis by (simp only: scope_covers.simps(1) lit_slash)
qed

declare scope_covers.simps(1) [simp del]

lemma valid_path_cases:
  assumes "valid_logical_path p"
  shows "p = [0x2f] \<or> (\<exists>s. p = 0x2f # s \<and> s \<noteq> [])"
  using assms by (cases p) (auto simp: valid_logical_path_def starts_with_def split: if_splits)

lemma path_segments_Cons: "s \<noteq> [] \<Longrightarrow> path_segments (0x2f # s) = split_at_char 0x2f s"
  by (simp add: path_segments_def)

lemma split_prefix_iff: "prefix (split_at_char c s) (split_at_char c t) \<longleftrightarrow> s = t \<or> (\<exists>u. t = s @ c # u)"
proof
  assume "prefix (split_at_char c s) (split_at_char c t)"
  then obtain us where us: "split_at_char c t = split_at_char c s @ us" by (auto simp: prefix_def)
  have join: "join_with c (xs @ ys) = (if ys = [] then join_with c xs else join_with c xs @ c # join_with c ys)" if "xs \<noteq> []" for xs ys
    using that by (induction c xs rule: join_with.induct) (auto simp: neq_Nil_conv)
  have "t = join_with c (split_at_char c s @ us)" using us by (metis join_split)
  then show "s = t \<or> (\<exists>u. t = s @ c # u)" using join [of "split_at_char c s" us] by (auto split: if_splits)
next
  assume "s = t \<or> (\<exists>u. t = s @ c # u)"
  then show "prefix (split_at_char c s) (split_at_char c t)" by (auto simp: split_append)
qed

lemma covers_segments:
  assumes p: "valid_logical_path p" and q: "valid_logical_path q"
  shows "scope_covers (Filesystem p) (Filesystem q) \<longleftrightarrow> prefix (path_segments p) (path_segments q)"
proof -
  have root: "path_segments [0x2f] = []" by (simp add: path_segments_def)
  consider "p = [0x2f]" | s where "p = 0x2f # s" "s \<noteq> []" "q = [0x2f]"
    | s t where "p = 0x2f # s" "s \<noteq> []" "q = 0x2f # t" "t \<noteq> []"
    using valid_path_cases [OF p] valid_path_cases [OF q] by blast
  then show ?thesis
  proof cases
    case 1
    then show ?thesis by (simp add: covers_path_iff root)
  next
    case (2 s)
    then show ?thesis by (auto simp: covers_path_iff root path_segments_Cons append_eq_Cons_conv)
  next
    case (3 s t)
    then show ?thesis by (simp add: covers_path_iff path_segments_Cons split_prefix_iff)
  qed
qed

end
