(* ===== verification/Policy.thy ===== *)
theory Policy
  imports Capability "HOL-Library.Product_Lexorder"
begin

text \<open>
  The permission policy, \<open>src/crates/nagi-capability/src/registry.rs\<close>, \<open>store.rs\<close>, \<open>evaluator.rs\<close> and
  \<open>declaration.rs\<close>: the registry of capabilities, the policy document and its stores, the evaluator
  that grants, denies, revokes and checks, and the binding of package declarations to a principal. The
  evaluator is generic in its store, so its operations take the store's \<open>transact\<close> or \<open>snapshot\<close> as an
  argument; JSON parsing and printing belong to another package and are arguments too.
\<close>

section \<open>The registry\<close>

record capability_definition =
  cd_id :: capability_id
  cd_description :: str

type_synonym capability_registry = "capability_id \<rightharpoonup> capability_definition"

datatype registry_error = RE_DuplicateCapability | RE_InvalidDescription

definition capability_registry_new :: capability_registry where
  "capability_registry_new = Map.empty"

definition capability_register ::
  "capability_definition \<Rightarrow> capability_registry \<Rightarrow> (registry_error, unit) result \<times> capability_registry" where
  "capability_register d r =
     (if cd_description d = [] \<or> 512 < text_len (cd_description d) \<or> list_ex is_control (cd_description d)
      then (Inl RE_InvalidDescription, r)
      else if r (cd_id d) \<noteq> None then (Inl RE_DuplicateCapability, r)
      else (Inr (), r(cd_id d \<mapsto> d)))"

definition registry_contains :: "capability_registry \<Rightarrow> capability_id \<Rightarrow> bool" where
  "registry_contains r c \<longleftrightarrow> r c \<noteq> None"

section \<open>The policy document\<close>

definition POLICY_SCHEMA_VERSION :: u32 where "POLICY_SCHEMA_VERSION = 1"

record policy_document =
  pd_schema_version :: u32
  pd_next_grant_id :: u64
  pd_grants :: "grant list"

datatype policy_store_error =
    PE_Malformed str | PE_UnsupportedSchemaVersion u32 | PE_InvalidGrant grant_validation_error
  | PE_Unavailable str | PE_GrantIdExhausted

definition policy_document_new :: policy_document where
  "policy_document_new = \<lparr>pd_schema_version = POLICY_SCHEMA_VERSION, pd_next_grant_id = 1, pd_grants = []\<rparr>"

text \<open>The loop over the grants, with the set of identifiers seen so far and their maximum.\<close>

fun validate_grants :: "grant list \<Rightarrow> grant_id list \<Rightarrow> u64 \<Rightarrow> (policy_store_error, u64) result" where
  "validate_grants [] ids maximum_id = Inr maximum_id"
| "validate_grants (g # gs) ids maximum_id =
     (case grant_validate g of
        Inl e \<Rightarrow> Inl (PE_InvalidGrant e)
      | Inr _ \<Rightarrow>
          if gr_id g \<in> set ids then Inl (PE_Malformed (lit ''persisted policy contains duplicate grant IDs''))
          else validate_grants gs (gr_id g # ids) (max maximum_id (gr_id g)))"

definition document_validate :: "policy_document \<Rightarrow> (policy_store_error, unit) result" where
  "document_validate d =
     (if pd_schema_version d \<noteq> POLICY_SCHEMA_VERSION then Inl (PE_UnsupportedSchemaVersion (pd_schema_version d))
      else if pd_next_grant_id d = 0 then Inl (PE_Malformed (lit ''next_grant_id must be positive''))
      else
        (case validate_grants (pd_grants d) [] 0 of
           Inl e \<Rightarrow> Inl e
         | Inr maximum_id \<Rightarrow>
             if pd_next_grant_id d \<le> maximum_id
             then Inl (PE_Malformed (lit ''next_grant_id must be greater than every stored grant ID''))
             else Inr ()))"

definition document_from_json ::
  "(u8 list \<Rightarrow> (str, policy_document) result) \<Rightarrow> u8 list \<Rightarrow> (policy_store_error, policy_document) result" where
  "document_from_json from_slice bytes =
     (case from_slice bytes of
        Inl message \<Rightarrow> Inl (PE_Malformed message)
      | Inr d \<Rightarrow> (case document_validate d of Inl e \<Rightarrow> Inl e | Inr _ \<Rightarrow> Inr d))"

definition document_to_json ::
  "(policy_document \<Rightarrow> (str, str) result) \<Rightarrow> policy_document \<Rightarrow> (policy_store_error, str) result" where
  "document_to_json to_string_pretty d =
     (case document_validate d of
        Inl e \<Rightarrow> Inl e
      | Inr _ \<Rightarrow> (case to_string_pretty d of Inl message \<Rightarrow> Inl (PE_Malformed message) | Inr s \<Rightarrow> Inr s))"

definition allocate_grant_id :: "policy_document \<Rightarrow> (policy_store_error, grant_id) result \<times> policy_document" where
  "allocate_grant_id d =
     (case checked_add (pd_next_grant_id d) 1 of
        None \<Rightarrow> (Inl PE_GrantIdExhausted, d)
      | Some next \<Rightarrow> (Inr (pd_next_grant_id d), d\<lparr>pd_next_grant_id := next\<rparr>))"

definition push_grant :: "grant \<Rightarrow> policy_document \<Rightarrow> policy_document" where
  "push_grant g d = d\<lparr>pd_grants := pd_grants d @ [g]\<rparr>"

text \<open>The index of the grant that \<open>grant_mut\<close> returns a reference to.\<close>

definition grant_mut :: "grant_id \<Rightarrow> policy_document \<Rightarrow> nat option" where
  "grant_mut i d = position (\<lambda>g. gr_id g = i) (pd_grants d)"

definition consume_one_shot ::
  "grant_id \<Rightarrow> unix_timestamp \<Rightarrow> policy_document \<Rightarrow> (policy_store_error, unit) result \<times> policy_document" where
  "consume_one_shot i at d =
     (case grant_mut i d of
        None \<Rightarrow> (Inl (PE_Malformed (lit ''selected grant disappeared during policy transaction'')), d)
      | Some k \<Rightarrow> (Inr (), d\<lparr>pd_grants := (pd_grants d)[k := (pd_grants d ! k)\<lparr>gr_consumed_at := Some at\<rparr>]\<rparr>))"

section \<open>Stores\<close>

type_synonym 't operation = "policy_document \<Rightarrow> (policy_store_error, 't) result \<times> policy_document"

record in_memory_policy_store =
  ms_document :: policy_document

definition in_memory_new :: in_memory_policy_store where
  "in_memory_new = \<lparr>ms_document = policy_document_new\<rparr>"

definition in_memory_transact ::
  "'t operation \<Rightarrow> in_memory_policy_store \<Rightarrow> (policy_store_error, 't) result \<times> in_memory_policy_store" where
  "in_memory_transact operation s =
     (case operation (ms_document s) of
        (Inl e, _) \<Rightarrow> (Inl e, s)
      | (Inr x, candidate) \<Rightarrow>
          (case document_validate candidate of
             Inl e \<Rightarrow> (Inl e, s)
           | Inr _ \<Rightarrow> (Inr x, s\<lparr>ms_document := candidate\<rparr>)))"

definition in_memory_snapshot :: "in_memory_policy_store \<Rightarrow> (policy_store_error, policy_document) result" where
  "in_memory_snapshot s =
     (case document_validate (ms_document s) of Inl e \<Rightarrow> Inl e | Inr _ \<Rightarrow> Inr (ms_document s))"

definition in_memory_from_json ::
  "(u8 list \<Rightarrow> (str, policy_document) result) \<Rightarrow> u8 list \<Rightarrow> (policy_store_error, in_memory_policy_store) result" where
  "in_memory_from_json from_slice bytes =
     (case document_from_json from_slice bytes of Inl e \<Rightarrow> Inl e | Inr d \<Rightarrow> Inr \<lparr>ms_document = d\<rparr>)"

definition in_memory_to_json ::
  "(policy_document \<Rightarrow> (str, str) result) \<Rightarrow> in_memory_policy_store \<Rightarrow> (policy_store_error, str) result" where
  "in_memory_to_json to_string_pretty s = document_to_json to_string_pretty (ms_document s)"

text \<open>The store of the failure tests has no state.\<close>

definition failing_transact :: "'t operation \<Rightarrow> unit \<Rightarrow> (policy_store_error, 't) result \<times> unit" where
  "failing_transact operation s = (Inl (PE_Unavailable (lit ''test storage failure'')), s)"

definition failing_snapshot :: "unit \<Rightarrow> (policy_store_error, policy_document) result" where
  "failing_snapshot s = Inl (PE_Unavailable (lit ''test storage failure''))"

section \<open>Requests and decisions\<close>

record grant_parameters =
  gp_effect :: grant_effect
  gp_lifetime :: grant_lifetime
  gp_source :: grant_source
  gp_reason :: "str option"
  gp_granted_at :: unix_timestamp
  gp_expires_at :: "unix_timestamp option"

record access_request =
  ar_principal :: principal_id
  ar_capability :: capability_id
  ar_scope :: capability_scope

datatype decision_effect = Allow_Effect | Deny_Effect

datatype decision_reason =
    AuthorizedByGrant | ExplicitlyDenied | UnknownCapability | InvalidRequest | NoGrant | ScopeMismatch
  | Revoked | NotYetValid | Expired | WrongSession | OneShotConsumed | PolicyStoreUnavailable

record decision =
  dc_effect :: decision_effect
  dc_reason :: decision_reason
  dc_grant_id :: "grant_id option"
  dc_explanation :: str

definition is_allowed :: "decision \<Rightarrow> bool" where
  "is_allowed d \<longleftrightarrow> dc_effect d = Allow_Effect"

text \<open>The debug representation of a source.\<close>

definition source_name :: "grant_source \<Rightarrow> str" where
  "source_name s =
     (case s of User_Source \<Rightarrow> lit ''User'' | System_Source \<Rightarrow> lit ''System'' | Policy_Source \<Rightarrow> lit ''Policy'')"

definition decision_allow :: "grant \<Rightarrow> decision" where
  "decision_allow g =
     \<lparr>dc_effect = Allow_Effect, dc_reason = AuthorizedByGrant, dc_grant_id = Some (gr_id g),
      dc_explanation = lit ''Allowed by active '' @ source_name (gr_source g) @ lit '' grant '' @
        decimal (unat (gr_id g)) @ lit '' for capability '' @ gr_capability g @ lit ''.''\<rparr>"

definition decision_deny :: "decision_reason \<Rightarrow> str \<Rightarrow> decision" where
  "decision_deny reason explanation =
     \<lparr>dc_effect = Deny_Effect, dc_reason = reason, dc_grant_id = None, dc_explanation = explanation\<rparr>"

definition decision_deny_by_grant :: "grant \<Rightarrow> decision" where
  "decision_deny_by_grant g =
     \<lparr>dc_effect = Deny_Effect, dc_reason = ExplicitlyDenied, dc_grant_id = Some (gr_id g),
      dc_explanation = lit ''Denied by active '' @ source_name (gr_source g) @ lit '' policy grant '' @
        decimal (unat (gr_id g)) @ lit '' for capability '' @ gr_capability g @ lit ''.''\<rparr>"

definition store_failure :: "policy_store_error \<Rightarrow> decision" where
  "store_failure e = decision_deny PolicyStoreUnavailable
     (lit ''Denied because the policy store could not be read safely; no permission was granted.'')"

section \<open>Evaluation\<close>

definition lifetime_preference :: "grant_lifetime \<Rightarrow> nat" where
  "lifetime_preference l = (case l of Persistent \<Rightarrow> 0 | Session _ \<Rightarrow> 1 | OneShot \<Rightarrow> 2)"

definition unregistered_explanation :: "access_request \<Rightarrow> str" where
  "unregistered_explanation request =
     lit ''Denied because capability '' @ ar_capability request @ lit '' is not registered.''"

text \<open>Why no allow grant in scope is active.\<close>

definition inactive_reason :: "active_grant list \<Rightarrow> decision_reason" where
  "inactive_reason inactive =
     (if AG_Revoked \<in> set inactive then Revoked
      else if AG_NotYetValid \<in> set inactive then NotYetValid
      else if AG_Expired \<in> set inactive then Expired
      else if AG_WrongSession \<in> set inactive then WrongSession
      else if AG_Consumed \<in> set inactive then OneShotConsumed
      else NoGrant)"

definition inactive_explanation :: "decision_reason \<Rightarrow> str" where
  "inactive_explanation reason =
     (case reason of
        Revoked \<Rightarrow> lit ''Denied because the matching grant was revoked.''
      | NotYetValid \<Rightarrow> lit ''Denied because the matching grant is not valid yet.''
      | Expired \<Rightarrow> lit ''Denied because the matching grant has expired.''
      | WrongSession \<Rightarrow> lit ''Denied because the session grant belongs to a different session.''
      | OneShotConsumed \<Rightarrow> lit ''Denied because the matching one-shot grant was already consumed.''
      | _ \<Rightarrow> lit ''Denied by default because no active allow grant applies.'')"

definition evaluate ::
  "capability_registry \<Rightarrow> policy_document \<Rightarrow> access_request \<Rightarrow> evaluation_context \<Rightarrow> decision \<times> grant_id option" where
  "evaluate registry document request context =
     (if \<not> registry_contains registry (ar_capability request)
      then (decision_deny UnknownCapability (unregistered_explanation request), None)
      else
        (let relevant = filter (\<lambda>g. gr_principal g = ar_principal request \<and> gr_capability g = ar_capability request)
               (pd_grants document) in
         if relevant = []
         then (decision_deny NoGrant (lit ''Denied by default because this principal has no grant for the capability.''), None)
         else
           (let scoped = filter (\<lambda>g. scope_covers (gr_scope g) (ar_scope request)) relevant in
            if scoped = []
            then (decision_deny ScopeMismatch (lit ''Denied because no grant covers the requested resource scope.''), None)
            else
              (case find (\<lambda>g. gr_effect g = Deny \<and> is_active_at g context = AG_Active) scoped of
                 Some denial \<Rightarrow> (decision_deny_by_grant denial, None)
               | None \<Rightarrow>
                   (let allows = sort_key (\<lambda>g. (scope_specificity (gr_scope g), lifetime_preference (gr_lifetime g), gr_id g))
                          (filter (\<lambda>g. gr_effect g = Allow \<and> is_active_at g context = AG_Active) scoped) in
                    case allows of
                      allow # _ \<Rightarrow> (decision_allow allow, if gr_lifetime allow = OneShot then Some (gr_id allow) else None)
                    | [] \<Rightarrow>
                        (let inactive = map (\<lambda>g. is_active_at g context) (filter (\<lambda>g. gr_effect g = Allow) scoped);
                             reason = inactive_reason inactive in
                         (decision_deny reason (inactive_explanation reason), None)))))))"

definition validate_request :: "capability_registry \<Rightarrow> access_request \<Rightarrow> decision option" where
  "validate_request registry request =
     (case scope_validate (ar_scope request) of
        Inl _ \<Rightarrow> Some (decision_deny InvalidRequest (lit ''Denied because the requested resource scope is malformed.''))
      | Inr _ \<Rightarrow>
          if \<not> registry_contains registry (ar_capability request)
          then Some (decision_deny UnknownCapability (unregistered_explanation request))
          else None)"

section \<open>The evaluator\<close>

definition insert_operation :: "access_request \<Rightarrow> grant_parameters \<Rightarrow> grant_id operation" where
  "insert_operation request parameters d =
     (case allocate_grant_id d of
        (Inl e, d1) \<Rightarrow> (Inl e, d1)
      | (Inr i, d1) \<Rightarrow>
          (let g = \<lparr>gr_id = i, gr_principal = ar_principal request, gr_capability = ar_capability request,
                 gr_effect = gp_effect parameters, gr_scope = ar_scope request, gr_lifetime = gp_lifetime parameters,
                 gr_source = gp_source parameters, gr_reason = gp_reason parameters,
                 gr_granted_at = gp_granted_at parameters, gr_expires_at = gp_expires_at parameters,
                 gr_revoked_at = None, gr_consumed_at = None\<rparr> in
           case grant_validate g of
             Inl e \<Rightarrow> (Inl (PE_InvalidGrant e), d1)
           | Inr _ \<Rightarrow> (Inr i, push_grant g d1)))"

definition insert_grant ::
  "(grant_id operation \<Rightarrow> 's \<Rightarrow> (policy_store_error, grant_id) result \<times> 's) \<Rightarrow> capability_registry \<Rightarrow> access_request \<Rightarrow>
   grant_parameters \<Rightarrow> 's \<Rightarrow> (policy_store_error, grant_id) result \<times> 's" where
  "insert_grant transact registry request parameters s =
     (case scope_validate (ar_scope request) of
        Inl e \<Rightarrow> (Inl (PE_Malformed (scope_error_message e)), s)
      | Inr _ \<Rightarrow>
          if \<not> registry_contains registry (ar_capability request)
          then (Inl (PE_Malformed (lit ''cannot grant an unregistered capability'')), s)
          else if gp_effect parameters = Deny \<and> gp_lifetime parameters = OneShot
          then (Inl (PE_Malformed (lit ''one-shot lifetime is reserved for allow grants'')), s)
          else transact (insert_operation request parameters) s)"

definition policy_grant where
  "policy_grant transact registry request lifetime source reason granted_at expires_at s =
     insert_grant transact registry request
       \<lparr>gp_effect = Allow, gp_lifetime = lifetime, gp_source = source, gp_reason = reason,
        gp_granted_at = granted_at, gp_expires_at = expires_at\<rparr> s"

definition policy_deny where
  "policy_deny transact registry request lifetime source reason granted_at expires_at s =
     insert_grant transact registry request
       \<lparr>gp_effect = Deny, gp_lifetime = lifetime, gp_source = source, gp_reason = reason,
        gp_granted_at = granted_at, gp_expires_at = expires_at\<rparr> s"

definition revoke_operation :: "grant_id \<Rightarrow> unix_timestamp \<Rightarrow> bool operation" where
  "revoke_operation i revoked_at d =
     (case grant_mut i d of
        None \<Rightarrow> (Inr False, d)
      | Some k \<Rightarrow>
          if gr_revoked_at (pd_grants d ! k) \<noteq> None \<or> revoked_at < gr_granted_at (pd_grants d ! k) then (Inr False, d)
          else (Inr True, d\<lparr>pd_grants := (pd_grants d)[k := (pd_grants d ! k)\<lparr>gr_revoked_at := Some revoked_at\<rparr>]\<rparr>))"

definition policy_revoke ::
  "(bool operation \<Rightarrow> 's \<Rightarrow> (policy_store_error, bool) result \<times> 's) \<Rightarrow> grant_id \<Rightarrow> unix_timestamp \<Rightarrow> 's \<Rightarrow>
   (policy_store_error, bool) result \<times> 's" where
  "policy_revoke transact i revoked_at s = transact (revoke_operation i revoked_at) s"

definition check_operation :: "capability_registry \<Rightarrow> access_request \<Rightarrow> evaluation_context \<Rightarrow> decision operation" where
  "check_operation registry request context d =
     (case document_validate d of
        Inl e \<Rightarrow> (Inl e, d)
      | Inr _ \<Rightarrow>
          (case evaluate registry d request context of
             (decision, None) \<Rightarrow> (Inr decision, d)
           | (decision, Some i) \<Rightarrow>
               (case consume_one_shot i (ec_now context) d of
                  (Inl e, d1) \<Rightarrow> (Inl e, d1)
                | (Inr _, d1) \<Rightarrow> (Inr decision, d1))))"

definition policy_check ::
  "(decision operation \<Rightarrow> 's \<Rightarrow> (policy_store_error, decision) result \<times> 's) \<Rightarrow> capability_registry \<Rightarrow> access_request \<Rightarrow>
   evaluation_context \<Rightarrow> 's \<Rightarrow> decision \<times> 's" where
  "policy_check transact registry request context s =
     (case validate_request registry request of
        Some decision \<Rightarrow> (decision, s)
      | None \<Rightarrow>
          (case transact (check_operation registry request context) s of
             (Inl e, s1) \<Rightarrow> (store_failure e, s1)
           | (Inr decision, s1) \<Rightarrow> (decision, s1)))"

definition policy_explain ::
  "('s \<Rightarrow> (policy_store_error, policy_document) result) \<Rightarrow> capability_registry \<Rightarrow> access_request \<Rightarrow> evaluation_context \<Rightarrow>
   's \<Rightarrow> decision" where
  "policy_explain snapshot registry request context s =
     (case validate_request registry request of
        Some decision \<Rightarrow> decision
      | None \<Rightarrow>
          (case snapshot s of
             Inl e \<Rightarrow> store_failure e
           | Inr d \<Rightarrow>
               (case document_validate d of
                  Inl e \<Rightarrow> store_failure e
                | Inr _ \<Rightarrow> fst (evaluate registry d request context))))"

definition list_effective_grants ::
  "('s \<Rightarrow> (policy_store_error, policy_document) result) \<Rightarrow> capability_registry \<Rightarrow> principal_id \<Rightarrow> evaluation_context \<Rightarrow>
   's \<Rightarrow> (policy_store_error, grant list) result" where
  "list_effective_grants snapshot registry owner context s =
     (case snapshot s of
        Inl e \<Rightarrow> Inl e
      | Inr d \<Rightarrow>
          (case document_validate d of
             Inl e \<Rightarrow> Inl e
           | Inr _ \<Rightarrow> Inr (filter (\<lambda>g. gr_principal g = owner \<and> registry_contains registry (gr_capability g) \<and>
                        is_active_at g context = AG_Active) (pd_grants d))))"

section \<open>Declarations\<close>

definition DECLARATION_SCHEMA_VERSION :: u32 where "DECLARATION_SCHEMA_VERSION = 1"
definition MAX_PURPOSE_BYTES :: nat where "MAX_PURPOSE_BYTES = 512"

record declared_capability =
  de_capability :: capability_id
  de_scope :: "capability_scope option"
  de_purpose :: "str option"

record capability_declaration =
  dl_schema_version :: u32
  dl_requested_capabilities :: "declared_capability list"

datatype declaration_error =
    DE_Malformed str | DE_UnsupportedVersion u32 | DE_InvalidScope str | DE_InvalidPurpose | DE_InvalidIdentifier identifier_error

definition declared_validate :: "declared_capability \<Rightarrow> (declaration_error, unit) result" where
  "declared_validate c =
     (case (case de_scope c of None \<Rightarrow> Inr () | Some scope \<Rightarrow> scope_validate scope) of
        Inl e \<Rightarrow> Inl (DE_InvalidScope (scope_error_message e))
      | Inr _ \<Rightarrow>
          if is_some_and (\<lambda>p. p = [] \<or> MAX_PURPOSE_BYTES < text_len p \<or> list_ex is_control p) (de_purpose c)
          then Inl DE_InvalidPurpose else Inr ())"

fun validate_requested :: "declared_capability list \<Rightarrow> (declaration_error, unit) result" where
  "validate_requested [] = Inr ()"
| "validate_requested (c # cs) = (case declared_validate c of Inl e \<Rightarrow> Inl e | Inr _ \<Rightarrow> validate_requested cs)"

definition declaration_validate :: "capability_declaration \<Rightarrow> (declaration_error, unit) result" where
  "declaration_validate d =
     (if dl_schema_version d \<noteq> DECLARATION_SCHEMA_VERSION then Inl (DE_UnsupportedVersion (dl_schema_version d))
      else validate_requested (dl_requested_capabilities d))"

definition declaration_parse_json ::
  "(u8 list \<Rightarrow> (str, capability_declaration) result) \<Rightarrow> u8 list \<Rightarrow> (declaration_error, capability_declaration) result" where
  "declaration_parse_json from_slice bytes =
     (case from_slice bytes of
        Inl message \<Rightarrow> Inl (DE_Malformed message)
      | Inr d \<Rightarrow> (case declaration_validate d of Inl e \<Rightarrow> Inl e | Inr _ \<Rightarrow> Inr d))"

definition declaration_to_json ::
  "(capability_declaration \<Rightarrow> (str, str) result) \<Rightarrow> capability_declaration \<Rightarrow> (declaration_error, str) result" where
  "declaration_to_json to_string_pretty d =
     (case declaration_validate d of
        Inl e \<Rightarrow> Inl e
      | Inr _ \<Rightarrow> (case to_string_pretty d of Inl message \<Rightarrow> Inl (DE_Malformed message) | Inr s \<Rightarrow> Inr s))"

record bound_capability_request =
  br_principal :: principal_id
  br_capability :: capability_id
  br_scope :: capability_scope

definition bind_declaration ::
  "capability_declaration \<Rightarrow> principal_id \<Rightarrow> (declaration_error, bound_capability_request list) result" where
  "bind_declaration declaration trusted_principal =
     (case declaration_validate declaration of
        Inl e \<Rightarrow> Inl e
      | Inr _ \<Rightarrow>
          Inr (map (\<lambda>c. \<lparr>br_principal = trusted_principal, br_capability = de_capability c,
                     br_scope = (case de_scope c of Some scope \<Rightarrow> scope | None \<Rightarrow> Unscoped)\<rparr>)
                 (dl_requested_capabilities declaration)))"

section \<open>Valid documents\<close>

definition document_ok :: "policy_document \<Rightarrow> bool" where
  "document_ok d \<longleftrightarrow> pd_schema_version d = POLICY_SCHEMA_VERSION \<and> pd_next_grant_id d \<noteq> 0 \<and>
     (\<forall>g \<in> set (pd_grants d). grant_validate g = Inr () \<and> gr_id g < pd_next_grant_id d) \<and> distinct (map gr_id (pd_grants d))"

lemma validate_grants_Inr:
  "validate_grants gs ids m = Inr n \<longleftrightarrow>
     (\<forall>g \<in> set gs. grant_validate g = Inr () \<and> gr_id g \<notin> set ids) \<and> distinct (map gr_id gs) \<and>
     n = fold max (map gr_id gs) m"
proof (induction gs ids m rule: validate_grants.induct)
  case (2 g gs ids m)
  then show ?case by (auto split: sum.split simp: max.commute image_iff)
qed auto

lemma fold_max_less:
  fixes m :: u64
  shows "fold max xs m < n \<longleftrightarrow> m < n \<and> (\<forall>x \<in> set xs. x < n)"
  by (induction xs arbitrary: m) auto

lemma document_validate_iff: "document_validate d = Inr () \<longleftrightarrow> document_ok d"
proof -
  have z: "0 < n \<longleftrightarrow> n \<noteq> 0" for n :: u64 by (simp add: word_gt_0)
  show ?thesis
  proof (cases "validate_grants (pd_grants d) [] 0")
    case (Inl e)
    then have "\<not> ((\<forall>g \<in> set (pd_grants d). grant_validate g = Inr ()) \<and> distinct (map gr_id (pd_grants d)))"
      using validate_grants_Inr [of "pd_grants d" "[]" 0] by auto
    then show ?thesis using Inl by (auto simp: document_validate_def document_ok_def)
  next
    case (Inr n)
    then show ?thesis using validate_grants_Inr [of "pd_grants d" "[]" 0 n] fold_max_less [of "map gr_id (pd_grants d)" 0 "pd_next_grant_id d"]
      by (auto simp: document_validate_def document_ok_def not_le z)
  qed
qed

lemma document_validate_cases: "document_validate d = Inr () \<or> (\<exists>e. document_validate d = Inl e)"
  by (cases "document_validate d") auto

section \<open>Evaluation\<close>

text \<open>A grant that matches a request, one that authorises it and one that forbids it.\<close>

definition grant_matches :: "access_request \<Rightarrow> grant \<Rightarrow> bool" where
  "grant_matches request g \<longleftrightarrow> gr_principal g = ar_principal request \<and> gr_capability g = ar_capability request \<and>
     scope_covers (gr_scope g) (ar_scope request)"

definition authorises :: "access_request \<Rightarrow> evaluation_context \<Rightarrow> grant \<Rightarrow> bool" where
  "authorises request context g \<longleftrightarrow> grant_matches request g \<and> gr_effect g = Allow \<and> is_active_at g context = AG_Active"

definition forbids :: "access_request \<Rightarrow> evaluation_context \<Rightarrow> grant \<Rightarrow> bool" where
  "forbids request context g \<longleftrightarrow> grant_matches request g \<and> gr_effect g = Deny \<and> is_active_at g context = AG_Active"

lemma decision_deny_fields [simp]:
  "dc_effect (decision_deny r t) = Deny_Effect" "dc_reason (decision_deny r t) = r" "dc_grant_id (decision_deny r t) = None"
  by (simp_all add: decision_deny_def)

lemma sort_key_nonempty: "xs \<noteq> [] \<Longrightarrow> \<exists>y ys. sort_key f xs = y # ys \<and> y \<in> set xs"
proof -
  assume "xs \<noteq> []"
  then obtain y ys where s: "sort_key f xs = y # ys" by (cases "sort_key f xs") (auto dest: arg_cong [where f = set])
  then have "y \<in> set (sort_key f xs)" by simp
  then have "y \<in> set xs" by (simp only: set_sort)
  then show ?thesis using s by auto
qed

lemma inactive_reason_not_store: "inactive_reason r \<noteq> PolicyStoreUnavailable" "inactive_reason r \<noteq> AuthorizedByGrant"
  by (simp_all add: inactive_reason_def)

lemma evaluate_cases:
  assumes r: "registry_contains registry (ar_capability request)"
  obtains (denied) g where "g \<in> set (pd_grants d)" "forbids request cx g"
      "evaluate registry d request cx = (decision_deny_by_grant g, None)"
    | (allowed) g where "g \<in> set (pd_grants d)" "authorises request cx g"
      "\<forall>h \<in> set (pd_grants d). \<not> forbids request cx h"
      "evaluate registry d request cx = (decision_allow g, if gr_lifetime g = OneShot then Some (gr_id g) else None)"
    | (default) reason t where "\<forall>g \<in> set (pd_grants d). \<not> authorises request cx g"
      "reason \<noteq> PolicyStoreUnavailable" "evaluate registry d request cx = (decision_deny reason t, None)"
proof -
  define relevant where "relevant = filter (\<lambda>g. gr_principal g = ar_principal request \<and> gr_capability g = ar_capability request) (pd_grants d)"
  define scoped where "scoped = filter (\<lambda>g. scope_covers (gr_scope g) (ar_scope request)) relevant"
  define allows where "allows = filter (\<lambda>g. gr_effect g = Allow \<and> is_active_at g cx = AG_Active) scoped"
  let ?key = "\<lambda>g. (scope_specificity (gr_scope g), lifetime_preference (gr_lifetime g), gr_id g)"
  have sc: "g \<in> set scoped \<longleftrightarrow> g \<in> set (pd_grants d) \<and> grant_matches request g" for g
    by (auto simp: scoped_def relevant_def grant_matches_def)
  have al: "g \<in> set allows \<longleftrightarrow> g \<in> set (pd_grants d) \<and> authorises request cx g" for g
    by (auto simp: allows_def sc authorises_def)
  note ev = evaluate_def [of registry d request cx, folded relevant_def, unfolded Let_def, folded scoped_def, folded allows_def]
  consider "relevant = []" | "relevant \<noteq> []" "scoped = []"
    | g where "relevant \<noteq> []" "scoped \<noteq> []" "find (\<lambda>g. gr_effect g = Deny \<and> is_active_at g cx = AG_Active) scoped = Some g"
    | "relevant \<noteq> []" "scoped \<noteq> []" "find (\<lambda>g. gr_effect g = Deny \<and> is_active_at g cx = AG_Active) scoped = None" "allows = []"
    | "relevant \<noteq> []" "scoped \<noteq> []" "find (\<lambda>g. gr_effect g = Deny \<and> is_active_at g cx = AG_Active) scoped = None" "allows \<noteq> []"
    by (cases "find (\<lambda>g. gr_effect g = Deny \<and> is_active_at g cx = AG_Active) scoped") blast+
  then show thesis
  proof cases
    case 1
    then have "scoped = []" by (simp add: scoped_def)
    then have "\<forall>g \<in> set (pd_grants d). \<not> authorises request cx g" using sc by (auto simp: authorises_def)
    then show thesis using 1 r ev by (intro default) auto
  next
    case 2
    then have "\<forall>g \<in> set (pd_grants d). \<not> authorises request cx g" using sc by (auto simp: authorises_def)
    then show thesis using 2 r ev by (intro default) auto
  next
    case (3 g)
    then have "g \<in> set scoped" "gr_effect g = Deny" "is_active_at g cx = AG_Active" by (auto simp: find_Some_iff)
    then show thesis using 3 r ev sc [of g] by (intro denied) (auto simp: forbids_def)
  next
    case 4
    then have "\<forall>g \<in> set (pd_grants d). \<not> authorises request cx g" using al by auto
    then show thesis using 4 r ev inactive_reason_not_store(1) by (intro default) auto
  next
    case 5
    then obtain y ys where y: "sort_key ?key allows = y # ys" "y \<in> set allows" using sort_key_nonempty by blast
    have "\<forall>h \<in> set (pd_grants d). \<not> forbids request cx h" using 5 sc by (auto simp: find_None_iff forbids_def)
    then show thesis using 5 r ev y al [of y] by (intro allowed) auto
  qed
qed

section \<open>The store contract\<close>

text \<open>Grants after a one-shot grant has been consumed.\<close>

definition consume_grants :: "grant_id option \<Rightarrow> unix_timestamp \<Rightarrow> grant list \<Rightarrow> grant list" where
  "consume_grants used at gs = map (\<lambda>g. if used = Some (gr_id g) then g\<lparr>gr_consumed_at := Some at\<rparr> else g) gs"

lemma position_distinct:
  assumes "distinct (map f xs)" and "x \<in> set xs"
  obtains k where "position (\<lambda>y. f y = f x) xs = Some k" and "k < length xs" and "xs ! k = x"
proof -
  obtain k where k: "position (\<lambda>y. f y = f x) xs = Some k" using position_exists [OF assms(2), of "\<lambda>y. f y = f x"] by auto
  note p = position_SomeD(1,2) [OF k]
  have "inj_on f (set xs)" using assms(1) by (simp add: distinct_map)
  then have "xs ! k = x" using p assms(2) by (auto dest: inj_onD)
  then show thesis using that k p by blast
qed

lemma update_distinct:
  assumes "distinct (map gr_id gs)" and "k < length gs"
  shows "gs[k := h (gs ! k)] = map (\<lambda>g. if gr_id g = gr_id (gs ! k) then h g else g) gs"
proof (rule nth_equalityI)
  fix i assume i: "i < length (gs[k := h (gs ! k)])"
  have "gr_id (gs ! i) = gr_id (gs ! k) \<longleftrightarrow> i = k"
    using assms i nth_eq_iff_index_eq [OF assms(1), of i k] by simp
  then show "gs[k := h (gs ! k)] ! i = map (\<lambda>g. if gr_id g = gr_id (gs ! k) then h g else g) gs ! i"
    using i by (auto simp: nth_list_update)
qed simp

lemma consume_one_shot_grants:
  assumes ok: "document_ok d" and g: "g \<in> set (pd_grants d)"
  shows "consume_one_shot (gr_id g) at d = (Inr (), d\<lparr>pd_grants := consume_grants (Some (gr_id g)) at (pd_grants d)\<rparr>)"
proof -
  have dist: "distinct (map gr_id (pd_grants d))" using ok by (simp add: document_ok_def)
  obtain k where k: "position (\<lambda>h. gr_id h = gr_id g) (pd_grants d) = Some k" "k < length (pd_grants d)" "pd_grants d ! k = g"
    using position_distinct [OF dist g] by blast
  then have "(pd_grants d)[k := g\<lparr>gr_consumed_at := Some at\<rparr>] = consume_grants (Some (gr_id g)) at (pd_grants d)"
    using update_distinct [OF dist k(2), of "\<lambda>g. g\<lparr>gr_consumed_at := Some at\<rparr>"] by (auto simp: consume_grants_def)
  then show ?thesis using k by (simp add: consume_one_shot_def grant_mut_def)
qed

text \<open>The transaction of a check on a valid document.\<close>

lemma check_operation_valid:
  assumes ok: "document_ok d" and r: "registry_contains registry (ar_capability request)"
  shows "check_operation registry request cx d =
    (Inr (fst (evaluate registry d request cx)),
     d\<lparr>pd_grants := consume_grants (snd (evaluate registry d request cx)) (ec_now cx) (pd_grants d)\<rparr>)"
proof -
  have v: "document_validate d = Inr ()" using ok by (simp add: document_validate_iff)
  have none: "d\<lparr>pd_grants := consume_grants None (ec_now cx) (pd_grants d)\<rparr> = d" by (simp add: consume_grants_def)
  from r show ?thesis
  proof (cases rule: evaluate_cases [where d = d and cx = cx])
    case (allowed g)
    then show ?thesis using v none consume_one_shot_grants [OF ok allowed(1)] by (simp add: check_operation_def)
  qed (use v none in \<open>simp_all add: check_operation_def\<close>)
qed

lemma check_operation_invalid: "\<not> document_ok d \<Longrightarrow> \<exists>e. check_operation registry request cx d = (Inl e, d)"
  using document_validate_iff [of d] by (auto simp: check_operation_def split: sum.splits)

text \<open>What the evaluator relies on: a transaction either commits what the operation made of the document, or fails
  and leaves the document alone.\<close>

locale policy_store =
  fixes transact :: "decision operation \<Rightarrow> 's \<Rightarrow> (policy_store_error, decision) result \<times> 's"
    and document :: "'s \<Rightarrow> policy_document"
  assumes commit: "transact op s = (Inr x, s') \<Longrightarrow> op (document s) = (Inr x, document s')"
    and abort: "transact op s = (Inl e, s') \<Longrightarrow> document s' = document s"
begin

lemma fail_closed:
  assumes c: "policy_check transact registry request cx s = (d, s')" and a: "is_allowed d"
  shows "scope_validate (ar_scope request) = Inr () \<and> registry_contains registry (ar_capability request) \<and>
    (\<forall>g \<in> set (pd_grants (document s)). \<not> forbids request cx g) \<and>
    (\<exists>g \<in> set (pd_grants (document s)). authorises request cx g \<and> d = decision_allow g \<and>
       pd_grants (document s') =
         consume_grants (if gr_lifetime g = OneShot then Some (gr_id g) else None) (ec_now cx) (pd_grants (document s)))"
proof -
  have v: "scope_validate (ar_scope request) = Inr ()" "registry_contains registry (ar_capability request)"
    using c a by (auto simp: policy_check_def validate_request_def is_allowed_def split: sum.splits if_splits)
  have t: "transact (check_operation registry request cx) s = (Inr d, s')"
    using c a v by (auto simp: policy_check_def validate_request_def is_allowed_def store_failure_def
        split: prod.splits sum.splits)
  note op = commit [OF t]
  have ok: "document_ok (document s)" using op check_operation_invalid [of "document s" registry request cx] by fastforce
  have d: "d = fst (evaluate registry (document s) request cx)"
    and "document s' = (document s)
      \<lparr>pd_grants := consume_grants (snd (evaluate registry (document s) request cx)) (ec_now cx) (pd_grants (document s))\<rparr>"
    using op check_operation_valid [OF ok v(2), of cx] by simp_all
  then have gs: "pd_grants (document s') =
      consume_grants (snd (evaluate registry (document s) request cx)) (ec_now cx) (pd_grants (document s))" by simp
  from v(2) show ?thesis
  proof (cases rule: evaluate_cases [where d = "document s" and cx = cx])
    case (allowed g)
    then show ?thesis using v d gs by auto
  qed (use d a in \<open>simp_all add: is_allowed_def decision_deny_by_grant_def\<close>)
qed

lemma refused_unchanged:
  assumes c: "policy_check transact registry request cx s = (d, s')" and "\<not> is_allowed d" and "document_ok (document s)"
  shows "document s' = document s"
proof (cases "validate_request registry request")
  case (Some d1)
  then show ?thesis using c by (simp add: policy_check_def)
next
  case None
  then have r: "registry_contains registry (ar_capability request)" by (auto simp: validate_request_def split: sum.splits if_splits)
  show ?thesis
  proof (cases "transact (check_operation registry request cx) s")
    case (Pair x s1)
    show ?thesis
    proof (cases x)
      case (Inl e)
      then show ?thesis using Pair None c abort by (auto simp: policy_check_def)
    next
      case (Inr d1)
      then have "d1 = d" "s1 = s'" using Pair None c by (auto simp: policy_check_def)
      then have op: "check_operation registry request cx (document s) = (Inr d, document s')" using commit Pair Inr by blast
      have none: "consume_grants None (ec_now cx) gs = gs" for gs by (simp add: consume_grants_def)
      from r show ?thesis
      proof (cases rule: evaluate_cases [where d = "document s" and cx = cx])
        case (allowed g)
        then show ?thesis using op check_operation_valid [OF assms(3) r, of cx] assms(2) by (auto simp: is_allowed_def decision_allow_def)
      qed (use op check_operation_valid [OF assms(3) r, of cx] none in auto)
    qed
  qed
qed

end

interpretation memory_store: policy_store in_memory_transact ms_document
  by unfold_locales (auto simp: in_memory_transact_def split: prod.splits sum.splits)

interpretation failing_store: policy_store failing_transact "\<lambda>_. policy_document_new"
  by unfold_locales (auto simp: failing_transact_def)

section \<open>The in-memory store\<close>

lemma in_memory_transact_ok:
  assumes "document_ok (ms_document s)" and "in_memory_transact op s = (r, s')"
  shows "document_ok (ms_document s')"
proof -
  have "s' = s \<or> document_validate (ms_document s') = Inr ()"
    using assms(2) by (auto simp: in_memory_transact_def split: prod.splits sum.splits)
  then show ?thesis using assms(1) by (auto simp: document_validate_iff)
qed

lemma memory_store_commit:
  "in_memory_transact op s = (Inr x, s1) \<Longrightarrow> op (ms_document s) = (Inr x, ms_document s1)"
  by (auto simp: in_memory_transact_def split: prod.splits sum.splits)

lemma in_memory_transact_commit:
  assumes "op (ms_document s) = (Inr x, d)" and "document_ok d"
  shows "in_memory_transact op s = (Inr x, s\<lparr>ms_document := d\<rparr>)"
  using assms document_validate_iff [of d] by (simp add: in_memory_transact_def)

lemma consume_grants_ids [simp]: "map gr_id (consume_grants used at gs) = map gr_id gs"
  by (simp add: consume_grants_def)

lemma consume_grants_None [simp]: "consume_grants None at gs = gs"
  by (simp add: consume_grants_def)

lemma consume_document_ok:
  assumes ok: "document_ok d" and g: "g \<in> set (pd_grants d)" and a: "authorises request cx g" and o: "gr_lifetime g = OneShot"
  shows "document_ok (d\<lparr>pd_grants := consume_grants (Some (gr_id g)) (ec_now cx) (pd_grants d)\<rparr>)"
proof -
  have "\<not> ec_now cx < gr_granted_at g" "gr_effect g = Allow"
    using a by (auto simp: authorises_def is_active_at_def split: if_splits)
  moreover have "grant_validate g = Inr ()" using ok g by (simp add: document_ok_def)
  ultimately have v: "grant_validate (g\<lparr>gr_consumed_at := Some (ec_now cx)\<rparr>) = Inr ()"
    using o by (auto simp: grant_validate_def is_some_and_def split: sum.splits if_splits)
  have same: "h = g" if "h \<in> set (pd_grants d)" "gr_id h = gr_id g" for h
    using ok g that by (auto simp: document_ok_def distinct_map dest: inj_onD)
  have "grant_validate h = Inr () \<and> gr_id h < pd_next_grant_id d"
    if "h \<in> set (consume_grants (Some (gr_id g)) (ec_now cx) (pd_grants d))" for h
    using that v same ok by (auto simp: consume_grants_def document_ok_def split: if_splits)
  moreover have "distinct (map gr_id (pd_grants d))" using ok by (simp add: document_ok_def)
  ultimately show ?thesis using ok by (simp add: document_ok_def)
qed

lemma validate_request_None_iff:
  "validate_request registry request = None \<longleftrightarrow>
     scope_validate (ar_scope request) = Inr () \<and> registry_contains registry (ar_capability request)"
  by (auto simp: validate_request_def split: sum.splits)

lemma check_in_memory:
  assumes ok: "document_ok (ms_document s)" and v: "validate_request registry request = None"
  shows "policy_check in_memory_transact registry request cx s =
    (fst (evaluate registry (ms_document s) request cx),
     s\<lparr>ms_document := (ms_document s)\<lparr>pd_grants :=
       consume_grants (snd (evaluate registry (ms_document s) request cx)) (ec_now cx) (pd_grants (ms_document s))\<rparr>\<rparr>)"
proof -
  have r: "registry_contains registry (ar_capability request)" using v by (simp add: validate_request_None_iff)
  note op = check_operation_valid [OF ok r, of cx]
  from r have "document_ok ((ms_document s)\<lparr>pd_grants :=
       consume_grants (snd (evaluate registry (ms_document s) request cx)) (ec_now cx) (pd_grants (ms_document s))\<rparr>)"
  proof (cases rule: evaluate_cases [where d = "ms_document s" and cx = cx])
    case (allowed g)
    then show ?thesis using consume_document_ok [OF ok allowed(1,2)] ok by auto
  qed (use ok in simp_all)
  then show ?thesis using in_memory_transact_commit [where op = "check_operation registry request cx" and s = s, OF op] v by (simp add: policy_check_def)
qed

lemma explain_in_memory:
  assumes ok: "document_ok (ms_document s)"
  shows "policy_explain in_memory_snapshot registry request cx s = fst (policy_check in_memory_transact registry request cx s)"
proof (cases "validate_request registry request")
  case None
  have "document_validate (ms_document s) = Inr ()" using ok by (simp add: document_validate_iff)
  then show ?thesis using check_in_memory [OF ok None] None by (simp add: policy_explain_def in_memory_snapshot_def)
qed (simp add: policy_explain_def policy_check_def)

lemma insert_operation_Inr:
  assumes "insert_operation request ps d = (Inr k, d')"
  shows "k = pd_next_grant_id d \<and> unat (pd_next_grant_id d') = unat (pd_next_grant_id d) + 1 \<and>
    (\<exists>g. pd_grants d' = pd_grants d @ [g] \<and> gr_id g = k)"
  using assms by (auto simp: insert_operation_def allocate_grant_id_def push_grant_def Let_def checked_add_Some_iff
      split: prod.splits sum.splits option.splits)

lemma insert_in_memory:
  assumes ok: "document_ok (ms_document s)" and i: "insert_grant in_memory_transact registry request ps s = (r, s')"
  shows "document_ok (ms_document s')"
    and "r = Inl e \<Longrightarrow> s' = s"
    and "r = Inr k \<Longrightarrow> k = pd_next_grant_id (ms_document s) \<and>
      unat (pd_next_grant_id (ms_document s')) = unat (pd_next_grant_id (ms_document s)) + 1 \<and>
      (\<exists>g. pd_grants (ms_document s') = pd_grants (ms_document s) @ [g] \<and> gr_id g = k)"
proof -
  have t: "s' = s \<and> (\<exists>e. r = Inl e) \<or> in_memory_transact (insert_operation request ps) s = (r, s')"
    using i by (auto simp: insert_grant_def split: sum.splits if_splits)
  then show "document_ok (ms_document s')" using ok in_memory_transact_ok by auto
  show "s' = s" if "r = Inl e" using t that by (auto simp: in_memory_transact_def split: prod.splits sum.splits)
  assume "r = Inr k"
  then have "insert_operation request ps (ms_document s) = (Inr k, ms_document s')" using t memory_store_commit by auto
  then show "k = pd_next_grant_id (ms_document s) \<and>
      unat (pd_next_grant_id (ms_document s')) = unat (pd_next_grant_id (ms_document s)) + 1 \<and>
      (\<exists>g. pd_grants (ms_document s') = pd_grants (ms_document s) @ [g] \<and> gr_id g = k)"
    by (rule insert_operation_Inr)
qed

section \<open>Runs\<close>

text \<open>The calls of the clients of one evaluator over an in-memory store, and what they return. Transactions are
  atomic, so concurrent clients interleave to such a sequence.\<close>

datatype policy_call =
    Call_Insert access_request grant_parameters
  | Call_Revoke grant_id unix_timestamp
  | Call_Check access_request evaluation_context

datatype policy_outcome =
    Out_Inserted "(policy_store_error, grant_id) result"
  | Out_Revoked "(policy_store_error, bool) result"
  | Out_Decision decision

fun policy_call_step :: "capability_registry \<Rightarrow> policy_call \<Rightarrow> in_memory_policy_store \<Rightarrow> policy_outcome \<times> in_memory_policy_store" where
  "policy_call_step registry (Call_Insert request ps) s = map_prod Out_Inserted id (insert_grant in_memory_transact registry request ps s)"
| "policy_call_step registry (Call_Revoke i at) s = map_prod Out_Revoked id (policy_revoke in_memory_transact i at s)"
| "policy_call_step registry (Call_Check request cx) s = map_prod Out_Decision id (policy_check in_memory_transact registry request cx s)"

fun policy_run :: "capability_registry \<Rightarrow> policy_call list \<Rightarrow> in_memory_policy_store \<Rightarrow> policy_outcome list \<times> in_memory_policy_store" where
  "policy_run registry [] s = ([], s)"
| "policy_run registry (c # cs) s =
     (let (out, s1) = policy_call_step registry c s; (outs, s2) = policy_run registry cs s1 in (out # outs, s2))"

definition allowed_by :: "grant_id \<Rightarrow> policy_outcome \<Rightarrow> bool" where
  "allowed_by i out = (case out of Out_Decision d \<Rightarrow> is_allowed d \<and> dc_grant_id d = Some i | _ \<Rightarrow> False)"

text \<open>A grant is spent once it is revoked or consumed. Grants only grow older.\<close>

definition grant_spent :: "grant \<Rightarrow> bool" where
  "grant_spent g \<longleftrightarrow> gr_revoked_at g \<noteq> None \<or> gr_consumed_at g \<noteq> None"

definition ages :: "(grant \<Rightarrow> grant) \<Rightarrow> bool" where
  "ages f \<longleftrightarrow> (\<forall>g. gr_id (f g) = gr_id g \<and> gr_lifetime (f g) = gr_lifetime g \<and> (grant_spent g \<longrightarrow> grant_spent (f g)))"

definition evolves :: "grant list \<Rightarrow> grant list \<Rightarrow> bool" where
  "evolves gs gs' \<longleftrightarrow> (\<exists>f new. ages f \<and> gs' = map f gs @ new)"

lemma evolves_refl [simp]: "evolves gs gs"
  unfolding evolves_def ages_def by (intro exI [of _ id] exI [of _ "[]"]) simp

lemma evolves_trans:
  assumes "evolves a b" and "evolves b c"
  shows "evolves a c"
proof -
  obtain f x h y where f: "ages f" "b = map f a @ x" and h: "ages h" "c = map h b @ y" using assms by (auto simp: evolves_def)
  have "ages (h \<circ> f)" using f(1) h(1) by (simp add: ages_def)
  moreover have "c = map (h \<circ> f) a @ (map h x @ y)" using f(2) h(2) by simp
  ultimately show ?thesis unfolding evolves_def by blast
qed

lemma evolves_grant:
  assumes "evolves gs gs'" and "g \<in> set gs"
  obtains g' where "g' \<in> set gs'" and "gr_id g' = gr_id g" and "gr_lifetime g' = gr_lifetime g" and "grant_spent g \<longrightarrow> grant_spent g'"
  using assms unfolding evolves_def ages_def by (metis Un_iff image_eqI set_append set_map)

lemma revoke_in_memory:
  assumes ok: "document_ok (ms_document s)" and r: "policy_revoke in_memory_transact i at s = (r, s')"
  shows "evolves (pd_grants (ms_document s)) (pd_grants (ms_document s'))"
    and "r = Inr True \<Longrightarrow> \<exists>g \<in> set (pd_grants (ms_document s')). gr_id g = i \<and> grant_spent g"
proof -
  have "evolves (pd_grants (ms_document s)) (pd_grants (ms_document s')) \<and>
      (r = Inr True \<longrightarrow> (\<exists>g \<in> set (pd_grants (ms_document s')). gr_id g = i \<and> grant_spent g))"
  proof (cases "r = Inr True")
    case True
    let ?gs = "pd_grants (ms_document s)"
    have dist: "distinct (map gr_id ?gs)" using ok by (simp add: document_ok_def)
    have "revoke_operation i at (ms_document s) = (Inr True, ms_document s')"
      using r True memory_store_commit by (simp add: policy_revoke_def)
    then obtain k where k: "position (\<lambda>g. gr_id g = i) ?gs = Some k"
      "pd_grants (ms_document s') = ?gs[k := (?gs ! k)\<lparr>gr_revoked_at := Some at\<rparr>]"
      by (auto simp: revoke_operation_def grant_mut_def split: option.splits if_splits dest: arg_cong [where f = pd_grants, OF sym])
    note p = position_SomeD(1,2) [OF k(1)]
    let ?f = "\<lambda>g. if gr_id g = gr_id (?gs ! k) then g\<lparr>gr_revoked_at := Some at\<rparr> else g"
    have "pd_grants (ms_document s') = map ?f ?gs" unfolding k(2) by (rule update_distinct [OF dist p(1)])
    moreover have "ages ?f" by (simp add: ages_def grant_spent_def)
    ultimately have "evolves ?gs (pd_grants (ms_document s'))" unfolding evolves_def by (intro exI [of _ ?f] exI [of _ "[]"]) simp
    moreover have "(?gs ! k)\<lparr>gr_revoked_at := Some at\<rparr> \<in> set (pd_grants (ms_document s'))"
      unfolding k(2) using p(1) by (rule set_update_memI)
    ultimately show ?thesis using p(2) by (auto simp: grant_spent_def intro!: bexI [of _ "(?gs ! k)\<lparr>gr_revoked_at := Some at\<rparr>"])
  next
    case False
    then have "s' = s"
      using r by (auto simp: policy_revoke_def in_memory_transact_def revoke_operation_def split: prod.splits sum.splits option.splits if_splits)
    then show ?thesis using False by simp
  qed
  then show "evolves (pd_grants (ms_document s)) (pd_grants (ms_document s'))"
    and "r = Inr True \<Longrightarrow> \<exists>g \<in> set (pd_grants (ms_document s')). gr_id g = i \<and> grant_spent g" by auto
qed

lemma spent_not_active:
  assumes "grant_validate g = Inr ()" and "grant_spent g"
  shows "is_active_at g cx \<noteq> AG_Active"
  using assms by (auto simp: grant_spent_def is_active_at_def grant_validate_def split: sum.splits if_splits)

lemma consume_evolves: "evolves gs (consume_grants used at gs)"
proof -
  have "ages (\<lambda>g. if used = Some (gr_id g) then g\<lparr>gr_consumed_at := Some at\<rparr> else g)" by (simp add: ages_def grant_spent_def)
  then show ?thesis unfolding evolves_def consume_grants_def
    by (intro exI [of _ "\<lambda>g. if used = Some (gr_id g) then g\<lparr>gr_consumed_at := Some at\<rparr> else g"] exI [of _ "[]"]) simp
qed

lemma check_outcome:
  assumes ok: "document_ok (ms_document s)" and c: "policy_check in_memory_transact registry request cx s = (d, s')"
  shows "document_ok (ms_document s')" and "evolves (pd_grants (ms_document s)) (pd_grants (ms_document s'))"
    and "dc_reason d \<noteq> PolicyStoreUnavailable"
proof -
  show "document_ok (ms_document s')"
    using c ok in_memory_transact_ok [OF ok, of "check_operation registry request cx"]
    by (auto simp: policy_check_def split: option.splits prod.splits sum.splits)
  show "evolves (pd_grants (ms_document s)) (pd_grants (ms_document s'))"
  proof (cases "validate_request registry request")
    case None
    then show ?thesis using check_in_memory [OF ok None, of cx] c consume_evolves by auto
  next
    case Some
    then show ?thesis using c by (simp add: policy_check_def)
  qed
  show "dc_reason d \<noteq> PolicyStoreUnavailable"
  proof (cases "validate_request registry request")
    case None
    then have r: "registry_contains registry (ar_capability request)" by (simp add: validate_request_None_iff)
    have d: "d = fst (evaluate registry (ms_document s) request cx)" using check_in_memory [OF ok None, of cx] c by simp
    from r show ?thesis
      by (cases rule: evaluate_cases [where d = "ms_document s" and cx = cx])
        (simp_all add: d decision_deny_by_grant_def decision_allow_def)
  next
    case Some
    then show ?thesis using c by (auto simp: policy_check_def validate_request_def split: sum.splits if_splits)
  qed
qed

lemma check_allowed:
  assumes ok: "document_ok (ms_document s)" and c: "policy_check in_memory_transact registry request cx s = (d, s')"
    and a: "allowed_by i (Out_Decision d)"
  shows "\<exists>g \<in> set (pd_grants (ms_document s)). gr_id g = i \<and> \<not> grant_spent g \<and>
    (gr_lifetime g = OneShot \<longrightarrow> (\<exists>h \<in> set (pd_grants (ms_document s')). gr_id h = i \<and> grant_spent h))"
proof -
  have "is_allowed d" using a by (simp add: allowed_by_def)
  from memory_store.fail_closed [OF c this] obtain g where g: "g \<in> set (pd_grants (ms_document s))" "authorises request cx g"
    "d = decision_allow g"
    "pd_grants (ms_document s') = consume_grants (if gr_lifetime g = OneShot then Some (gr_id g) else None) (ec_now cx) (pd_grants (ms_document s))"
    by blast
  have "gr_id g = i" using a g(3) by (simp add: allowed_by_def decision_allow_def)
  moreover have "\<not> grant_spent g" using spent_not_active [of g cx] g(1,2) ok by (auto simp: authorises_def document_ok_def)
  moreover have "\<exists>h \<in> set (pd_grants (ms_document s')). gr_id h = i \<and> grant_spent h" if "gr_lifetime g = OneShot"
  proof
    show "g\<lparr>gr_consumed_at := Some (ec_now cx)\<rparr> \<in> set (pd_grants (ms_document s'))"
      using g(1,4) that by (force simp: consume_grants_def)
    show "gr_id (g\<lparr>gr_consumed_at := Some (ec_now cx)\<rparr>) = i \<and> grant_spent (g\<lparr>gr_consumed_at := Some (ec_now cx)\<rparr>)"
      using \<open>gr_id g = i\<close> by (simp add: grant_spent_def)
  qed
  ultimately show ?thesis using g(1) by blast
qed

lemma call_step:
  assumes ok: "document_ok (ms_document s)" and c: "policy_call_step registry c s = (out, s')"
  shows "document_ok (ms_document s')" and "evolves (pd_grants (ms_document s)) (pd_grants (ms_document s'))"
    and "out = Out_Decision d \<Longrightarrow> dc_reason d \<noteq> PolicyStoreUnavailable"
    and "allowed_by i out \<Longrightarrow> \<exists>g \<in> set (pd_grants (ms_document s)). gr_id g = i \<and> \<not> grant_spent g \<and>
      (gr_lifetime g = OneShot \<longrightarrow> (\<exists>h \<in> set (pd_grants (ms_document s')). gr_id h = i \<and> grant_spent h))"
proof -
  have "document_ok (ms_document s') \<and> evolves (pd_grants (ms_document s)) (pd_grants (ms_document s')) \<and>
      (\<forall>d. out = Out_Decision d \<longrightarrow> dc_reason d \<noteq> PolicyStoreUnavailable)"
  proof (cases c)
    case (Call_Insert request ps)
    then obtain r where r: "insert_grant in_memory_transact registry request ps s = (r, s')" "out = Out_Inserted r"
      using c by (auto simp: map_prod_def split: prod.splits)
    note i = insert_in_memory [OF ok r(1)]
    have "evolves (pd_grants (ms_document s)) (pd_grants (ms_document s'))"
    proof (cases r)
      case (Inr k)
      then obtain g where "pd_grants (ms_document s') = pd_grants (ms_document s) @ [g]" using i(3) by blast
      then show ?thesis unfolding evolves_def ages_def by (intro exI [of _ id] exI [of _ "[g]"]) simp
    qed (use i(2) in simp)
    then show ?thesis using i(1) r(2) by simp
  next
    case (Call_Revoke j at)
    then obtain r where r: "policy_revoke in_memory_transact j at s = (r, s')" "out = Out_Revoked r"
      using c by (auto simp: map_prod_def split: prod.splits)
    then show ?thesis using revoke_in_memory(1) [OF ok r(1)] in_memory_transact_ok [OF ok] by (auto simp: policy_revoke_def)
  next
    case (Call_Check request cx)
    then obtain d where "policy_check in_memory_transact registry request cx s = (d, s')" "out = Out_Decision d"
      using c by (auto simp: map_prod_def split: prod.splits)
    then show ?thesis using check_outcome [OF ok] by auto
  qed
  then show "document_ok (ms_document s')" and "evolves (pd_grants (ms_document s)) (pd_grants (ms_document s'))"
    and "out = Out_Decision d \<Longrightarrow> dc_reason d \<noteq> PolicyStoreUnavailable" by auto
  assume a: "allowed_by i out"
  then obtain request cx d where "policy_check in_memory_transact registry request cx s = (d, s')" "out = Out_Decision d"
    using c by (cases c) (auto simp: map_prod_def allowed_by_def split: prod.splits)
  then show "\<exists>g \<in> set (pd_grants (ms_document s)). gr_id g = i \<and> \<not> grant_spent g \<and>
      (gr_lifetime g = OneShot \<longrightarrow> (\<exists>h \<in> set (pd_grants (ms_document s')). gr_id h = i \<and> grant_spent h))"
    using check_allowed [OF ok] a by blast
qed

lemma same_id_same_grant:
  assumes "document_ok d" and "g \<in> set (pd_grants d)" and "h \<in> set (pd_grants d)" and "gr_id g = gr_id h"
  shows "g = h"
  using assms by (auto simp: document_ok_def distinct_map dest: inj_onD)

definition id_spent :: "grant_id \<Rightarrow> in_memory_policy_store \<Rightarrow> bool" where
  "id_spent i s \<longleftrightarrow> (\<exists>g \<in> set (pd_grants (ms_document s)). gr_id g = i \<and> grant_spent g)"

lemma id_spent_evolves:
  assumes "id_spent i s" and "evolves (pd_grants (ms_document s)) (pd_grants (ms_document s'))"
  shows "id_spent i s'"
  using assms evolves_grant unfolding id_spent_def by metis

lemma call_step_unspent:
  assumes ok: "document_ok (ms_document s)" and c: "policy_call_step registry c s = (out, s')" and a: "allowed_by i out"
  shows "\<not> id_spent i s"
proof
  assume "id_spent i s"
  then obtain h where h: "h \<in> set (pd_grants (ms_document s))" "gr_id h = i" "grant_spent h" by (auto simp: id_spent_def)
  obtain g where g: "g \<in> set (pd_grants (ms_document s))" "gr_id g = i" "\<not> grant_spent g" using call_step(4) [OF ok c a] by blast
  have "g = h" using same_id_same_grant [OF ok g(1) h(1)] g(2) h(2) by simp
  then show False using g(3) h(3) by simp
qed

text \<open>Whatever the clients do, a valid document stays valid, a spent grant allows nothing, and a one-shot grant
  allows at most once.\<close>

lemma policy_run_ok:
  assumes "document_ok (ms_document s)" and "policy_run registry cs s = (outs, s')"
  shows "document_ok (ms_document s') \<and> evolves (pd_grants (ms_document s)) (pd_grants (ms_document s')) \<and> length outs = length cs \<and>
    (\<forall>d. Out_Decision d \<in> set outs \<longrightarrow> dc_reason d \<noteq> PolicyStoreUnavailable) \<and>
    (id_spent i s \<longrightarrow> (\<forall>out \<in> set outs. \<not> allowed_by i out))"
  using assms
proof (induction cs arbitrary: s outs)
  case (Cons c cs)
  then obtain out s1 rest where r: "policy_call_step registry c s = (out, s1)" "policy_run registry cs s1 = (rest, s')" "outs = out # rest"
    by (auto split: prod.splits)
  note st = call_step(1,2,3) [OF Cons.prems(1) r(1)]
  note ih = Cons.IH [OF st(1) r(2)]
  have "\<not> allowed_by i out \<and> id_spent i s1" if "id_spent i s"
    using that call_step_unspent [OF Cons.prems(1) r(1)] id_spent_evolves [OF that st(2)] by blast
  then show ?case using ih st(2,3) r(3) evolves_trans by auto
qed simp

lemma policy_run_one_shot:
  assumes "document_ok (ms_document s)" and "policy_run registry cs s = (outs, s')"
    and "g \<in> set (pd_grants (ms_document s'))" and "gr_lifetime g = OneShot"
  shows "length (filter (allowed_by (gr_id g)) outs) \<le> 1"
  using assms(1,2)
proof (induction cs arbitrary: s outs)
  case (Cons c cs)
  then obtain out s1 rest where r: "policy_call_step registry c s = (out, s1)" "policy_run registry cs s1 = (rest, s')" "outs = out # rest"
    by (auto split: prod.splits)
  note st = call_step(1,2) [OF Cons.prems(1) r(1)]
  note run = policy_run_ok [OF st(1) r(2), of "gr_id g"]
  show ?case
  proof (cases "allowed_by (gr_id g) out")
    case True
    obtain h where h: "h \<in> set (pd_grants (ms_document s))" "gr_id h = gr_id g"
      "gr_lifetime h = OneShot \<longrightarrow> (\<exists>k \<in> set (pd_grants (ms_document s1)). gr_id k = gr_id g \<and> grant_spent k)"
      using call_step(4) [OF Cons.prems(1) r(1) True] by blast
    have "evolves (pd_grants (ms_document s)) (pd_grants (ms_document s'))" using st(2) run evolves_trans by blast
    then obtain h' where "h' \<in> set (pd_grants (ms_document s'))" "gr_id h' = gr_id g" "gr_lifetime h' = gr_lifetime h"
      using evolves_grant h(1,2) by metis
    then have "gr_lifetime h = OneShot" using same_id_same_grant [OF conjunct1 [OF run] _ assms(3)] assms(4) by metis
    then have "id_spent (gr_id g) s1" using h(3) by (auto simp: id_spent_def)
    then have "filter (allowed_by (gr_id g)) rest = []" using run by (simp add: filter_empty_conv)
    then show ?thesis using r(3) by simp
  next
    case False
    then show ?thesis using Cons.IH [OF st(1) r(2)] r(3) by simp
  qed
qed simp

lemma policy_run_revoked:
  assumes "document_ok (ms_document s)" and "policy_run registry cs s = (outs, s')"
    and "k < m" and "m < length cs" and "cs ! k = Call_Revoke i at" and "outs ! k = Out_Revoked (Inr True)"
  shows "\<not> allowed_by i (outs ! m)"
  using assms
proof (induction cs arbitrary: s outs k m)
  case (Cons c cs)
  then obtain out s1 rest where r: "policy_call_step registry c s = (out, s1)" "policy_run registry cs s1 = (rest, s')" "outs = out # rest"
    by (auto split: prod.splits)
  note st = call_step(1) [OF Cons.prems(1) r(1)]
  note run = policy_run_ok [OF st r(2), of i]
  obtain m' where m: "m = Suc m'" using Cons.prems(3) by (cases m) auto
  show ?case
  proof (cases k)
    case 0
    then have "policy_revoke in_memory_transact i at s = (Inr True, s1)" using Cons.prems(5,6) r(1,3) by (auto simp: map_prod_def split: prod.splits)
    then have "id_spent i s1" using revoke_in_memory(2) [OF Cons.prems(1)] by (simp add: id_spent_def)
    then show ?thesis using run r(3) m Cons.prems(4) by simp
  next
    case (Suc k')
    then show ?thesis using Cons.IH [OF st r(2), of k' m'] Cons.prems(3-6) r(3) m by simp
  qed
qed simp

text \<open>A store that always fails allows nothing, and a bound declaration asks for nothing in another principal's name.\<close>

lemma failing_store_denies: "\<not> is_allowed (fst (policy_check failing_transact registry request cx s))"
proof
  assume a: "is_allowed (fst (policy_check failing_transact registry request cx s))"
  then have "\<exists>g \<in> set (pd_grants policy_document_new). authorises request cx g"
    using failing_store.fail_closed [OF prod.collapse [symmetric] a] by blast
  then show False by (simp add: policy_document_new_def)
qed

lemma validate_requested_Inr: "validate_requested cs = Inr () \<longleftrightarrow> (\<forall>c \<in> set cs. declared_validate c = Inr ())"
  by (induction cs) (auto split: sum.split)

lemma bind_declaration_requests:
  assumes "bind_declaration declaration owner = Inr requests" and "r \<in> set requests"
  shows "br_principal r = owner" and "scope_validate (br_scope r) = Inr ()"
    and "br_capability r \<in> de_capability ` set (dl_requested_capabilities declaration)"
proof -
  have v: "validate_requested (dl_requested_capabilities declaration) = Inr ()"
    using assms(1) by (auto simp: bind_declaration_def declaration_validate_def split: sum.splits if_splits)
  obtain c where c: "c \<in> set (dl_requested_capabilities declaration)" "r = \<lparr>br_principal = owner, br_capability = de_capability c,
      br_scope = (case de_scope c of Some scope \<Rightarrow> scope | None \<Rightarrow> Unscoped)\<rparr>"
    using assms by (auto simp: bind_declaration_def split: sum.splits)
  have "declared_validate c = Inr ()" using v c(1) by (simp add: validate_requested_Inr)
  then show "scope_validate (br_scope r) = Inr ()" using c(2) by (auto simp: declared_validate_def split: option.splits sum.splits)
  show "br_principal r = owner" and "br_capability r \<in> de_capability ` set (dl_requested_capabilities declaration)" using c by auto
qed

section \<open>Properties\<close>

text \<open>The meaning of coverage: the same scope, or a directory above the requested path.\<close>

definition scope_within :: "capability_scope \<Rightarrow> capability_scope \<Rightarrow> bool" where
  "scope_within granted requested \<longleftrightarrow> granted = requested \<or>
     (\<exists>p q. granted = Filesystem p \<and> requested = Filesystem q \<and> prefix (path_segments p) (path_segments q))"

lemma scope_covers_within:
  assumes "scope_validate granted = Inr ()" and "scope_validate requested = Inr ()"
  shows "scope_covers granted requested \<longleftrightarrow> scope_within granted requested"
proof (cases "\<exists>p q. granted = Filesystem p \<and> requested = Filesystem q")
  case True
  then obtain p q where pq: "granted = Filesystem p" "requested = Filesystem q" by blast
  then have "valid_logical_path p" "valid_logical_path q" using assms by (auto split: if_splits)
  then show ?thesis using pq covers_segments by (auto simp: scope_within_def)
next
  case False
  then show ?thesis by (cases granted; cases requested) (auto simp: scope_within_def)
qed

text \<open>When a grant is in force: granted, not expired, not revoked, in its session, and not used up.\<close>

definition in_force :: "grant \<Rightarrow> evaluation_context \<Rightarrow> bool" where
  "in_force g cx \<longleftrightarrow> gr_granted_at g \<le> ec_now cx \<and> (\<forall>e. gr_expires_at g = Some e \<longrightarrow> ec_now cx < e) \<and>
     gr_revoked_at g = None \<and> (\<forall>sid. gr_lifetime g = Session sid \<longrightarrow> ec_session_id cx = Some sid) \<and>
     (gr_lifetime g = OneShot \<longrightarrow> gr_consumed_at g = None)"

lemma is_active_iff: "is_active_at g cx = AG_Active \<longleftrightarrow> in_force g cx"
  by (cases "gr_lifetime g") (auto simp: is_active_at_def in_force_def is_some_and_def not_less not_le split: option.split)

lemma valid_path_segments:
  assumes "scope_validate (Filesystem path) = Inr ()" and "segment \<in> set (path_segments path)"
  shows "segment \<noteq> [] \<and> segment \<noteq> lit ''.'' \<and> segment \<noteq> lit ''..''"
  using assms by (auto simp: path_segments_def valid_logical_path_def list_all_iff split: if_splits)

text \<open>C19. A permission check decides exactly by the policy. After any calls on a fresh evaluator, a check allows a request
  exactly when its scope is well formed, its capability is registered, some allow grant in force of the
  same principal and capability covers its scope, and no deny grant in force does; a path is covered by
  the directories above it, segment by segment, and any other scope only by itself. A grant is in force from
  its time of granting until its expiry unless it is revoked, belongs to another session or is one-shot and
  consumed. No path with an empty or a dot segment is allowed. An allowed check
  names such a grant and consumes it if it is one-shot; a denied check changes nothing; and the read-only
  explanation is the decision of the check.\<close>

theorem access_decided_exactly:
  assumes "policy_run registry cs in_memory_new = (outs, s)"
    and "policy_check in_memory_transact registry request cx s = (d, s')"
  shows "(is_allowed d \<longleftrightarrow> scope_validate (ar_scope request) = Inr () \<and> registry_contains registry (ar_capability request) \<and>
      (\<exists>g \<in> set (pd_grants (ms_document s)). gr_effect g = Allow \<and> in_force g cx \<and>
         gr_principal g = ar_principal request \<and> gr_capability g = ar_capability request \<and> scope_within (gr_scope g) (ar_scope request)) \<and>
      \<not> (\<exists>g \<in> set (pd_grants (ms_document s)). gr_effect g = Deny \<and> in_force g cx \<and>
         gr_principal g = ar_principal request \<and> gr_capability g = ar_capability request \<and> scope_within (gr_scope g) (ar_scope request))) \<and>
    (is_allowed d \<longrightarrow> (\<exists>g \<in> set (pd_grants (ms_document s)). authorises request cx g \<and> d = decision_allow g \<and>
       pd_grants (ms_document s') = map (\<lambda>h. if gr_lifetime g = OneShot \<and> gr_id h = gr_id g
         then h\<lparr>gr_consumed_at := Some (ec_now cx)\<rparr> else h) (pd_grants (ms_document s)))) \<and>
    (\<not> is_allowed d \<longrightarrow> ms_document s' = ms_document s) \<and>
    (\<forall>path. is_allowed d \<and> ar_scope request = Filesystem path \<longrightarrow>
       (\<forall>segment \<in> set (path_segments path). segment \<noteq> [] \<and> segment \<noteq> lit ''.'' \<and> segment \<noteq> lit ''..'')) \<and>
    policy_explain in_memory_snapshot registry request cx s = d"
proof -
  have new: "document_ok (ms_document in_memory_new)"
    by (simp add: in_memory_new_def policy_document_new_def document_ok_def POLICY_SCHEMA_VERSION_def)
  have ok: "document_ok (ms_document s)" using policy_run_ok [OF new assms(1)] by blast
  let ?gs = "pd_grants (ms_document s)"
  let ?valid = "scope_validate (ar_scope request) = Inr () \<and> registry_contains registry (ar_capability request)"
  have cov: "scope_covers (gr_scope g) (ar_scope request) \<longleftrightarrow> scope_within (gr_scope g) (ar_scope request)" if "g \<in> set ?gs" ?valid for g
  proof (rule scope_covers_within)
    have "grant_validate g = Inr ()" using ok that(1) by (simp add: document_ok_def)
    then show "scope_validate (gr_scope g) = Inr ()" by (auto simp: grant_validate_def split: sum.splits)
  qed (use that in blast)
  have allowed: "is_allowed d \<longleftrightarrow> ?valid \<and> (\<exists>g \<in> set ?gs. authorises request cx g) \<and> \<not> (\<exists>g \<in> set ?gs. forbids request cx g)"
  proof (cases "validate_request registry request")
    case None
    then have v: "?valid" by (simp add: validate_request_None_iff)
    have e: "d = fst (evaluate registry (ms_document s) request cx)" using check_in_memory [OF ok None, of cx] assms(2) by simp
    from v have "registry_contains registry (ar_capability request)" by blast
    then show ?thesis
      by (cases rule: evaluate_cases [where d = "ms_document s" and cx = cx])
        (use v e in \<open>auto simp: is_allowed_def decision_deny_by_grant_def decision_allow_def\<close>)
  next
    case (Some x)
    then show ?thesis using memory_store.fail_closed [OF assms(2)] validate_request_None_iff [of registry request] by auto
  qed
  have used: "is_allowed d \<longrightarrow> (\<exists>g \<in> set ?gs. authorises request cx g \<and> d = decision_allow g \<and>
       pd_grants (ms_document s') = map (\<lambda>h. if gr_lifetime g = OneShot \<and> gr_id h = gr_id g
         then h\<lparr>gr_consumed_at := Some (ec_now cx)\<rparr> else h) ?gs)"
    using memory_store.fail_closed [OF assms(2)] by (fastforce simp: consume_grants_def)
  have decide: "is_allowed d \<longleftrightarrow> ?valid \<and>
      (\<exists>g \<in> set ?gs. gr_effect g = Allow \<and> in_force g cx \<and> gr_principal g = ar_principal request \<and>
         gr_capability g = ar_capability request \<and> scope_within (gr_scope g) (ar_scope request)) \<and>
      \<not> (\<exists>g \<in> set ?gs. gr_effect g = Deny \<and> in_force g cx \<and> gr_principal g = ar_principal request \<and>
         gr_capability g = ar_capability request \<and> scope_within (gr_scope g) (ar_scope request))"
    using allowed cov by (auto simp: authorises_def forbids_def grant_matches_def is_active_iff)
  have paths: "\<forall>path. is_allowed d \<and> ar_scope request = Filesystem path \<longrightarrow>
      (\<forall>segment \<in> set (path_segments path). segment \<noteq> [] \<and> segment \<noteq> lit ''.'' \<and> segment \<noteq> lit ''..'')"
    using decide valid_path_segments by metis
  have "policy_explain in_memory_snapshot registry request cx s = d" using explain_in_memory [OF ok] assms(2) by simp
  then show ?thesis
    using decide used paths memory_store.refused_unchanged [OF assms(2) _ ok] by blast
qed

text \<open>C13. A one-shot grant allows at most one check and a revoked grant none. Whatever clients do with a fresh evaluator,
  in any order, the stored document stays valid, no check is ever answered with a storage failure, each
  one-shot grant is the grant of at most one allowed check, and after a successful revocation no later
  check is allowed by the revoked grant.\<close>

theorem one_shot_allows_once:
  assumes "policy_run registry cs in_memory_new = (outs, s)"
  shows "document_validate (ms_document s) = Inr () \<and>
    (\<forall>d. Out_Decision d \<in> set outs \<longrightarrow> dc_reason d \<noteq> PolicyStoreUnavailable) \<and>
    (\<forall>g \<in> set (pd_grants (ms_document s)). gr_lifetime g = OneShot \<longrightarrow> length (filter (allowed_by (gr_id g)) outs) \<le> 1) \<and>
    (\<forall>k m i at. k < m \<and> m < length cs \<and> cs ! k = Call_Revoke i at \<and> outs ! k = Out_Revoked (Inr True) \<longrightarrow>
       \<not> allowed_by i (outs ! m))"
proof -
  have new: "document_ok (ms_document in_memory_new)"
    by (simp add: in_memory_new_def policy_document_new_def document_ok_def POLICY_SCHEMA_VERSION_def)
  show ?thesis using policy_run_ok [OF new assms] policy_run_one_shot [OF new assms] policy_run_revoked [OF new assms]
    unfolding document_validate_iff by blast
qed

text \<open>One grant for a directory, used once by a request for a file below it.\<close>

definition sample_registry :: capability_registry where
  "sample_registry = [lit ''files.read'' \<mapsto> \<lparr>cd_id = lit ''files.read'', cd_description = lit ''read''\<rparr>]"

definition sample_request :: "string \<Rightarrow> access_request" where
  "sample_request path = \<lparr>ar_principal = lit ''app:a'', ar_capability = lit ''files.read'', ar_scope = Filesystem (lit path)\<rparr>"

definition sample_context :: evaluation_context where
  "sample_context = \<lparr>ec_now = 10, ec_session_id = None\<rparr>"

definition sample_calls :: "policy_call list" where
  "sample_calls =
     [Call_Insert (sample_request ''/a'') \<lparr>gp_effect = Allow, gp_lifetime = OneShot, gp_source = User_Source, gp_reason = None,
        gp_granted_at = 5, gp_expires_at = None\<rparr>,
      Call_Check (sample_request ''/b'') sample_context]"

definition sample_store :: in_memory_policy_store where
  "sample_store = snd (policy_run sample_registry sample_calls in_memory_new)"

theorem access_decided_exactly_witness:
  "is_allowed (fst (policy_check in_memory_transact sample_registry (sample_request ''/a/b'') sample_context sample_store)) \<and>
   policy_explain in_memory_snapshot sample_registry (sample_request ''/a/b'') sample_context sample_store =
     fst (policy_check in_memory_transact sample_registry (sample_request ''/a/b'') sample_context sample_store)"
proof -
  have "is_allowed (fst (policy_check in_memory_transact sample_registry (sample_request ''/a/b'') sample_context sample_store))"
    by code_simp
  moreover have "policy_explain in_memory_snapshot sample_registry (sample_request ''/a/b'') sample_context sample_store =
     fst (policy_check in_memory_transact sample_registry (sample_request ''/a/b'') sample_context sample_store)"
    using access_decided_exactly [of sample_registry sample_calls "fst (policy_run sample_registry sample_calls in_memory_new)" sample_store
      "sample_request ''/a/b''" sample_context
      "fst (policy_check in_memory_transact sample_registry (sample_request ''/a/b'') sample_context sample_store)"
      "snd (policy_check in_memory_transact sample_registry (sample_request ''/a/b'') sample_context sample_store)"]
    unfolding sample_store_def by (simp only: prod.collapse simp_thms)
  ultimately show ?thesis ..
qed

theorem one_shot_allows_once_witness:
  "length (filter (allowed_by 1) (fst (policy_run sample_registry
     (sample_calls @ replicate 2 (Call_Check (sample_request ''/a/b'') sample_context)) in_memory_new))) = 1"
proof -
  define cs where "cs = sample_calls @ replicate 2 (Call_Check (sample_request ''/a/b'') sample_context)"
  obtain outs s where run: "policy_run sample_registry cs in_memory_new = (outs, s)" by (cases "policy_run sample_registry cs in_memory_new")
  have "list_ex (\<lambda>g. gr_id g = 1 \<and> gr_lifetime g = OneShot) (pd_grants (ms_document (snd (policy_run sample_registry cs in_memory_new))))"
    unfolding cs_def by code_simp
  then obtain g where "g \<in> set (pd_grants (ms_document s))" "gr_id g = 1" "gr_lifetime g = OneShot" unfolding run by (auto simp: list_ex_iff)
  then have le: "length (filter (allowed_by 1) outs) \<le> 1" using one_shot_allows_once [OF run] by metis
  have "list_ex (allowed_by 1) (fst (policy_run sample_registry cs in_memory_new))" unfolding cs_def by code_simp
  then have "filter (allowed_by 1) outs \<noteq> []" unfolding run by (auto simp: list_ex_iff filter_empty_conv)
  then have "0 < length (filter (allowed_by 1) outs)" by simp
  then have "length (filter (allowed_by 1) outs) = 1" using le by linarith
  then have "length (filter (allowed_by 1) (fst (policy_run sample_registry cs in_memory_new))) = 1" unfolding run by simp
  then show ?thesis by (simp only: cs_def)
qed

end
