(* ===== verification/Boot_Control.thy ===== *)
theory Boot_Control
  imports Boot_Info
begin

text \<open>
  The kernel's side of boot control, \<open>src/kernel/src/boot_control.rs\<close>: the gate through which a trial boot
  reports its readiness and the gate through which a confirmed boot requests an update. Both persist
  one record through the firmware's variable writer. A call is a sequence of atomic steps (a load, a
  compare-and-exchange, the firmware call, the final store), so that concurrent calls interleave. Only
  \<open>configure\<close> writes the coordinates of a gate, and it runs once, before any call: a call may read them at
  any of its steps.
  The firmware is not modelled: its answer to a call is arbitrary.
\<close>

section \<open>Firmware variables\<close>

definition UEFI_VARIABLE_ATTRIBUTES :: u32 where "UEFI_VARIABLE_ATTRIBUTES = 1 OR 2 OR 4"

record efi_guid =
  eg_data1 :: u32
  eg_data2 :: u16
  eg_data3 :: u16
  eg_data4 :: "u8 list"

definition NAGI_BOOT_CONTROL_VENDOR :: efi_guid where
  "NAGI_BOOT_CONTROL_VENDOR =
     \<lparr>eg_data1 = 0xc00c1ca4, eg_data2 = 0x6d7c, eg_data3 = 0x4a36,
      eg_data4 = [0xb9, 0x13, 0xa2, 0x2f, 0x69, 0x1c, 0x48, 0x95]\<rparr>"

definition NAGI_BOOT_READY_VARIABLE :: "u16 list" where
  "NAGI_BOOT_READY_VARIABLE = [78, 97, 103, 105, 66, 111, 111, 116, 82, 101, 97, 100, 121, 0]"

definition NAGI_BOOT_STAGE_VARIABLE :: "u16 list" where
  "NAGI_BOOT_STAGE_VARIABLE = [78, 97, 103, 105, 66, 111, 111, 116, 83, 116, 97, 103, 101, 0]"

text \<open>A call of the firmware's \<open>SetVariable\<close>: its entry point and its arguments.\<close>

record firmware_call =
  fc_address :: u64
  fc_name :: "u16 list"
  fc_vendor :: efi_guid
  fc_attributes :: u32
  fc_data :: "u8 list"

text \<open>The call that \<open>set_variable\<close> makes, if it makes one; the update request goes through it.\<close>

definition set_variable :: "u64 \<Rightarrow> u16 list \<Rightarrow> u8 list \<Rightarrow> firmware_call option" where
  "set_variable address name bytes =
     (if address = 0 then None
      else Some \<lparr>fc_address = address, fc_name = name, fc_vendor = NAGI_BOOT_CONTROL_VENDOR,
                 fc_attributes = UEFI_VARIABLE_ATTRIBUTES, fc_data = bytes\<rparr>)"

section \<open>Readiness\<close>

datatype readiness_state = UNCONFIGURED | NOT_REPORTED | IN_PROGRESS | PERSISTED | FAILED | NO_TRIAL

datatype readiness_outcome =
    RO_NoTrial | RO_Persisted boot_ready_record | RO_AlreadyPersisted boot_ready_record
  | RO_PersistenceFailed boot_ready_record | RO_InProgress

record readiness_gate =
  rg_set_variable_address :: u64
  rg_journal_generation :: u64
  rg_slot :: u8
  rg_attempt :: u8
  rg_state :: readiness_state

definition readiness_gate_new :: readiness_gate where
  "readiness_gate_new =
     \<lparr>rg_set_variable_address = 0, rg_journal_generation = 0, rg_slot = 0, rg_attempt = 0, rg_state = UNCONFIGURED\<rparr>"

definition readiness_configure :: "boot_control_info \<Rightarrow> readiness_gate \<Rightarrow> readiness_gate" where
  "readiness_configure context g =
     \<lparr>rg_set_variable_address = bc_set_variable_address context, rg_journal_generation = bc_journal_generation context,
      rg_slot = bc_slot context, rg_attempt = bc_attempt context,
      rg_state = (if is_trial context then NOT_REPORTED else NO_TRIAL)\<rparr>"

definition readiness_context :: "readiness_gate \<Rightarrow> boot_control_info" where
  "readiness_context g =
     \<lparr>bc_set_variable_address = rg_set_variable_address g, bc_journal_generation = rg_journal_generation g,
      bc_slot = rg_slot g, bc_attempt = rg_attempt g, bc_flags = 0, bc_reserved = replicate 5 0\<rparr>"

definition readiness_record :: "readiness_gate \<Rightarrow> boot_ready_record" where
  "readiness_record g =
     (let context = readiness_context g in
      \<lparr>rd_slot = bc_slot context, rd_attempt = bc_attempt context, rd_journal_generation = bc_journal_generation context\<rparr>)"

text \<open>The three atomic parts of \<open>report_with\<close>: the first load, the exchange, and the store after the firmware
  has answered.\<close>

definition report_load :: "readiness_gate \<Rightarrow> readiness_outcome + boot_ready_record" where
  "report_load g =
     (if rg_state g = UNCONFIGURED \<or> rg_state g = NO_TRIAL then Inl RO_NoTrial else Inr (readiness_record g))"

definition report_claim ::
  "boot_ready_record \<Rightarrow> readiness_gate \<Rightarrow> (readiness_outcome + boot_ready_record) \<times> readiness_gate" where
  "report_claim record g =
     (if rg_state g = NOT_REPORTED then (Inr record, g\<lparr>rg_state := IN_PROGRESS\<rparr>)
      else
        (Inl (case rg_state g of
                PERSISTED \<Rightarrow> RO_AlreadyPersisted record
              | FAILED \<Rightarrow> RO_PersistenceFailed record
              | IN_PROGRESS \<Rightarrow> RO_InProgress
              | _ \<Rightarrow> RO_NoTrial), g))"

definition report_store :: "bool \<Rightarrow> boot_ready_record \<Rightarrow> readiness_gate \<Rightarrow> readiness_outcome \<times> readiness_gate" where
  "report_store persisted record g =
     (if persisted then RO_Persisted record else RO_PersistenceFailed record,
      g\<lparr>rg_state := (if persisted then PERSISTED else FAILED)\<rparr>)"

text \<open>The firmware call of \<open>persist_readiness\<close>, if it gets that far.\<close>

definition persist_readiness :: "boot_control_info \<Rightarrow> boot_ready_record \<Rightarrow> firmware_call option" where
  "persist_readiness context record =
     (case ready_encode record of
        None \<Rightarrow> None
      | Some bytes \<Rightarrow>
          if \<not> is_trial context then None
          else Some \<lparr>fc_address = bc_set_variable_address context, fc_name = NAGI_BOOT_READY_VARIABLE,
                     fc_vendor = NAGI_BOOT_CONTROL_VENDOR, fc_attributes = UEFI_VARIABLE_ATTRIBUTES, fc_data = bytes\<rparr>)"

section \<open>Update requests\<close>

datatype stage_state = STAGE_UNAVAILABLE | STAGE_READY | STAGE_IN_PROGRESS | STAGE_DONE | STAGE_FAILED

datatype stage_outcome = SO_Unavailable | SO_Staged boot_stage_record | SO_AlreadyStaged boot_stage_record | SO_Failed

record stage_gate =
  tg_set_variable_address :: u64
  tg_journal_generation :: u64
  tg_confirmed_slot :: u8
  tg_state :: stage_state

definition stage_gate_new :: stage_gate where
  "stage_gate_new =
     \<lparr>tg_set_variable_address = 0, tg_journal_generation = 0, tg_confirmed_slot = 0, tg_state = STAGE_UNAVAILABLE\<rparr>"

definition stage_configure :: "boot_control_info \<Rightarrow> stage_gate \<Rightarrow> stage_gate" where
  "stage_configure context g =
     \<lparr>tg_set_variable_address = bc_set_variable_address context, tg_journal_generation = bc_journal_generation context,
      tg_confirmed_slot = bc_slot context,
      tg_state = (if is_update_stageable context then STAGE_READY else STAGE_UNAVAILABLE)\<rparr>"

definition target_slot :: "stage_gate \<Rightarrow> u8 option" where
  "target_slot g = (if tg_state g \<noteq> STAGE_UNAVAILABLE then Some (1 - min (tg_confirmed_slot g) 1) else None)"

definition stage_record :: "stage_gate \<Rightarrow> boot_stage_record option" where
  "stage_record g =
     (case target_slot g of
        None \<Rightarrow> None
      | Some slot \<Rightarrow> Some \<lparr>sg_slot = slot, sg_journal_generation = tg_journal_generation g\<rparr>)"

text \<open>The three atomic parts of \<open>stage_with\<close>; the record is the one that the first part computed.\<close>

definition stage_load :: "stage_gate \<Rightarrow> stage_outcome + boot_stage_record" where
  "stage_load g = (case stage_record g of None \<Rightarrow> Inl SO_Unavailable | Some record \<Rightarrow> Inr record)"

definition stage_claim :: "boot_stage_record \<Rightarrow> stage_gate \<Rightarrow> (stage_outcome + boot_stage_record) \<times> stage_gate" where
  "stage_claim record g =
     (if tg_state g = STAGE_READY then (Inr record, g\<lparr>tg_state := STAGE_IN_PROGRESS\<rparr>)
      else (Inl (if tg_state g = STAGE_DONE then SO_AlreadyStaged record else SO_Failed), g))"

definition stage_store :: "bool \<Rightarrow> boot_stage_record \<Rightarrow> stage_gate \<Rightarrow> stage_outcome \<times> stage_gate" where
  "stage_store persisted record g =
     (if persisted then SO_Staged record else SO_Failed,
      g\<lparr>tg_state := (if persisted then STAGE_DONE else STAGE_FAILED)\<rparr>)"

definition persist_stage :: "stage_gate \<Rightarrow> boot_stage_record \<Rightarrow> firmware_call option" where
  "persist_stage g record =
     (case stage_encode record of
        Some bytes \<Rightarrow> set_variable (tg_set_variable_address g) NAGI_BOOT_STAGE_VARIABLE bytes
      | None \<Rightarrow> None)"

text \<open>\<open>initialize\<close> configures both gates.\<close>

definition boot_control_initialize :: "boot_control_info \<Rightarrow> readiness_gate \<times> stage_gate" where
  "boot_control_initialize context =
     (readiness_configure context readiness_gate_new, stage_configure context stage_gate_new)"

section \<open>Interleaved calls\<close>

text \<open>Where a caller is: before its first load, before its exchange, before its firmware call, before its final
  store, or done. The system records the firmware calls with their answers.\<close>

datatype ('o, 'r) caller = Start | Loaded 'r | Claimed 'r | Called 'r bool | Done 'o

record ('g, 'o, 'r) gate_system =
  gs_gate :: 'g
  gs_callers :: "('o, 'r) caller list"
  gs_calls :: "(firmware_call \<times> bool) list"

inductive gate_step ::
  "('g \<Rightarrow> 'o + 'r) \<Rightarrow> ('r \<Rightarrow> 'g \<Rightarrow> ('o + 'r) \<times> 'g) \<Rightarrow> (bool \<Rightarrow> 'r \<Rightarrow> 'g \<Rightarrow> 'o \<times> 'g) \<Rightarrow> ('g \<Rightarrow> 'r \<Rightarrow> firmware_call option) \<Rightarrow>
   ('g, 'o, 'r) gate_system \<Rightarrow> ('g, 'o, 'r) gate_system \<Rightarrow> bool"
  for load claim store persist where
  load_ends: "i < length (gs_callers s) \<Longrightarrow> gs_callers s ! i = Start \<Longrightarrow> load (gs_gate s) = Inl out \<Longrightarrow>
    gate_step load claim store persist s (s\<lparr>gs_callers := (gs_callers s)[i := Done out]\<rparr>)"
| load_goes_on: "i < length (gs_callers s) \<Longrightarrow> gs_callers s ! i = Start \<Longrightarrow> load (gs_gate s) = Inr r \<Longrightarrow>
    gate_step load claim store persist s (s\<lparr>gs_callers := (gs_callers s)[i := Loaded r]\<rparr>)"
| claim_ends: "i < length (gs_callers s) \<Longrightarrow> gs_callers s ! i = Loaded r \<Longrightarrow> claim r (gs_gate s) = (Inl out, g) \<Longrightarrow>
    gate_step load claim store persist s (s\<lparr>gs_callers := (gs_callers s)[i := Done out], gs_gate := g\<rparr>)"
| claim_wins: "i < length (gs_callers s) \<Longrightarrow> gs_callers s ! i = Loaded r \<Longrightarrow> claim r (gs_gate s) = (Inr r1, g) \<Longrightarrow>
    gate_step load claim store persist s (s\<lparr>gs_callers := (gs_callers s)[i := Claimed r1], gs_gate := g\<rparr>)"
| no_call: "i < length (gs_callers s) \<Longrightarrow> gs_callers s ! i = Claimed r \<Longrightarrow> persist (gs_gate s) r = None \<Longrightarrow>
    gate_step load claim store persist s (s\<lparr>gs_callers := (gs_callers s)[i := Called r False]\<rparr>)"
| firmware_answers: "i < length (gs_callers s) \<Longrightarrow> gs_callers s ! i = Claimed r \<Longrightarrow> persist (gs_gate s) r = Some call \<Longrightarrow>
    gate_step load claim store persist s
      (s\<lparr>gs_callers := (gs_callers s)[i := Called r answer], gs_calls := gs_calls s @ [(call, answer)]\<rparr>)"
| stores: "i < length (gs_callers s) \<Longrightarrow> gs_callers s ! i = Called r answer \<Longrightarrow> store answer r (gs_gate s) = (out, g) \<Longrightarrow>
    gate_step load claim store persist s (s\<lparr>gs_callers := (gs_callers s)[i := Done out], gs_gate := g\<rparr>)"

definition system_start :: "'g \<Rightarrow> nat \<Rightarrow> ('g, 'o, 'r) gate_system" where
  "system_start g n = \<lparr>gs_gate = g, gs_callers = replicate n Start, gs_calls = []\<rparr>"

definition claimed :: "('o, 'r) caller \<Rightarrow> bool" where
  "claimed c = (case c of Claimed _ \<Rightarrow> True | _ \<Rightarrow> False)"

definition called :: "('o, 'r) caller \<Rightarrow> bool" where
  "called c = (case c of Called _ _ \<Rightarrow> True | _ \<Rightarrow> False)"

text \<open>What a one-shot gate promises: an exchange succeeds only on an available gate and closes it, every other
  outcome of a call leaves the gate alone, and only the final store makes a success visible.\<close>

locale one_shot_gate =
  fixes load :: "'g \<Rightarrow> 'o + 'r" and claim :: "'r \<Rightarrow> 'g \<Rightarrow> ('o + 'r) \<times> 'g" and store :: "bool \<Rightarrow> 'r \<Rightarrow> 'g \<Rightarrow> 'o \<times> 'g"
    and persist :: "'g \<Rightarrow> 'r \<Rightarrow> firmware_call option"
    and avail :: "'g \<Rightarrow> bool" and finished :: "'g \<Rightarrow> bool" and success :: "'o \<Rightarrow> bool" and rec :: "'g \<Rightarrow> 'r"
  assumes load_record: "load g = Inr r \<Longrightarrow> r = rec g"
    and load_out: "load g = Inl out \<Longrightarrow> \<not> avail g \<and> \<not> success out"
    and claim_in: "claim r g = (Inr r1, g1) \<Longrightarrow> r1 = r \<and> avail g \<and> \<not> avail g1 \<and> \<not> finished g1 \<and> rec g1 = rec g \<and> persist g1 = persist g"
    and claim_out: "claim r g = (Inl out, g1) \<Longrightarrow> g1 = g \<and> \<not> avail g \<and> (success out \<longrightarrow> finished g)"
    and avail_open: "avail g \<Longrightarrow> \<not> finished g"
    and store_out: "store b r g = (out, g1) \<Longrightarrow>
      \<not> avail g1 \<and> (success out \<longleftrightarrow> b) \<and> (finished g1 \<longleftrightarrow> b) \<and> rec g1 = rec g \<and> persist g1 = persist g"
begin

definition caller_ok :: "'g \<Rightarrow> firmware_call \<Rightarrow> 'g \<Rightarrow> (firmware_call \<times> bool) list \<Rightarrow> ('o, 'r) caller \<Rightarrow> bool" where
  "caller_ok g0 call g calls c =
     (case c of Start \<Rightarrow> True | Loaded r \<Rightarrow> r = rec g0 | Claimed r \<Rightarrow> r = rec g0 | Called r b \<Rightarrow> r = rec g0 \<and> calls = [(call, b)]
      | Done out \<Rightarrow> \<not> avail g \<and> (success out \<longrightarrow> finished g))"

definition counts_ok :: "'g \<Rightarrow> firmware_call \<Rightarrow> 'g \<Rightarrow> (firmware_call \<times> bool) list \<Rightarrow> nat \<Rightarrow> nat \<Rightarrow> bool" where
  "counts_ok g0 call g calls n k \<longleftrightarrow> rec g = rec g0 \<and> persist g = persist g0 \<and> of_bool (avail g) + n + length calls = (1 :: nat) \<and>
     k \<le> length calls \<and> (finished g \<longrightarrow> k = 0 \<and> calls = [(call, True)])"

definition one_shot_inv :: "'g \<Rightarrow> firmware_call \<Rightarrow> ('g, 'o, 'r) gate_system \<Rightarrow> bool" where
  "one_shot_inv g0 call s \<longleftrightarrow>
     counts_ok g0 call (gs_gate s) (gs_calls s) (length (filter claimed (gs_callers s))) (length (filter called (gs_callers s))) \<and>
     (\<forall>c \<in> set (gs_callers s). caller_ok g0 call (gs_gate s) (gs_calls s) c)"

text \<open>Moving one caller: what is left to show of the counts, of the caller and of the others.\<close>

lemma move_caller:
  assumes inv: "one_shot_inv g0 call s" and i: "i < length (gs_callers s)"
    and counts: "\<And>n k. counts_ok g0 call (gs_gate s) (gs_calls s) (n + of_bool (claimed (gs_callers s ! i))) (k + of_bool (called (gs_callers s ! i))) \<Longrightarrow>
      caller_ok g0 call (gs_gate s) (gs_calls s) (gs_callers s ! i) \<Longrightarrow> counts_ok g0 call g calls (n + of_bool (claimed x)) (k + of_bool (called x))"
    and self: "\<And>n k. caller_ok g0 call (gs_gate s) (gs_calls s) (gs_callers s ! i) \<Longrightarrow>
      counts_ok g0 call (gs_gate s) (gs_calls s) (n + of_bool (claimed (gs_callers s ! i))) (k + of_bool (called (gs_callers s ! i))) \<Longrightarrow>
      caller_ok g0 call g calls x"
    and others: "\<And>c n k. caller_ok g0 call (gs_gate s) (gs_calls s) c \<Longrightarrow>
      counts_ok g0 call (gs_gate s) (gs_calls s) (n + of_bool (claimed (gs_callers s ! i)) + of_bool (claimed c))
        (k + of_bool (called (gs_callers s ! i)) + of_bool (called c)) \<Longrightarrow> caller_ok g0 call g calls c"
  shows "one_shot_inv g0 call (s\<lparr>gs_callers := (gs_callers s)[i := x], gs_gate := g, gs_calls := calls\<rparr>)"
proof -
  let ?cs = "gs_callers s"
  define front back1 where "front = take i ?cs" and "back1 = drop (Suc i) ?cs"
  have cs: "?cs = front @ ?cs ! i # back1" using id_take_nth_drop [OF i] by (simp add: front_def back1_def)
  have up: "?cs[i := x] = front @ x # back1" using upd_conv_take_nth_drop [OF i] by (simp add: front_def back1_def)
  have len: "length (filter P (a @ y # b)) = length (filter P (a @ b)) + of_bool (P y)" for P a y and b :: "('o, 'r) caller list" by simp
  have c0: "counts_ok g0 call (gs_gate s) (gs_calls s) (length (filter claimed (front @ back1)) + of_bool (claimed (?cs ! i)))
      (length (filter called (front @ back1)) + of_bool (called (?cs ! i)))"
    using inv unfolding one_shot_inv_def by (subst (asm) (1 2) cs) (simp only: len)
  have rest: "caller_ok g0 call g calls c" if c: "c \<in> set (front @ back1)" for c
  proof -
    obtain a b where ab: "front @ back1 = a @ c # b" using split_list [OF c] by blast
    have "counts_ok g0 call (gs_gate s) (gs_calls s) (length (filter claimed (a @ b)) + of_bool (claimed (?cs ! i)) + of_bool (claimed c))
        (length (filter called (a @ b)) + of_bool (called (?cs ! i)) + of_bool (called c))"
      using c0 unfolding ab len by (simp only: add.assoc add.commute add.left_commute)
    moreover have "caller_ok g0 call (gs_gate s) (gs_calls s) c"
      using inv c cs unfolding one_shot_inv_def by (metis Un_iff insert_iff list.simps(15) set_append)
    ultimately show ?thesis using others by blast
  qed
  have own: "caller_ok g0 call (gs_gate s) (gs_calls s) (?cs ! i)" using inv i unfolding one_shot_inv_def by simp
  have "caller_ok g0 call g calls x" by (rule self [OF own c0])
  then have "\<forall>c \<in> set (?cs[i := x]). caller_ok g0 call g calls c" unfolding up using rest by auto
  then show ?thesis using counts [OF c0 own] by (cases "claimed x"; cases "called x") (simp_all add: one_shot_inv_def up)
qed

lemma step_keeps_inv:
  assumes st: "gate_step load claim store persist s s1" and inv: "one_shot_inv g0 call s" and p: "persist g0 (rec g0) = Some call"
  shows "one_shot_inv g0 call s1"
  using st
proof cases
  case (load_ends i out)
  have o: "\<not> avail (gs_gate s)" "\<not> success out" using load_out [OF load_ends(4)] by auto
  show ?thesis using move_caller [OF inv load_ends(2), of "gs_gate s" "gs_calls s" "Done out"] o load_ends
    by (simp add: claimed_def called_def caller_ok_def)
next
  case (load_goes_on i r)
  have "r = rec (gs_gate s)" using load_record [OF load_goes_on(4)] .
  moreover have "rec (gs_gate s) = rec g0" using inv by (simp add: one_shot_inv_def counts_ok_def)
  ultimately show ?thesis using move_caller [OF inv load_goes_on(2), of "gs_gate s" "gs_calls s" "Loaded r"] load_goes_on
    by (simp add: claimed_def called_def caller_ok_def)
next
  case (claim_ends i r out g)
  note c = claim_out [OF claim_ends(4)]
  then show ?thesis using move_caller [OF inv claim_ends(2), of "gs_gate s" "gs_calls s" "Done out"] claim_ends
    by (simp add: claimed_def called_def caller_ok_def)
next
  case (claim_wins i r r1 g)
  note c = claim_in [OF claim_wins(4)]
  have "one_shot_inv g0 call (s\<lparr>gs_callers := (gs_callers s)[i := Claimed r1], gs_gate := g, gs_calls := gs_calls s\<rparr>)"
    by (rule move_caller [OF inv claim_wins(2)])
      (use c claim_wins(3) in \<open>auto simp: claimed_def called_def caller_ok_def counts_ok_def split: caller.splits\<close>)
  then show ?thesis using claim_wins(1) by simp
next
  case (no_call i r)
  have "r = rec g0" "persist (gs_gate s) = persist g0"
    using inv no_call(2,3) nth_mem [OF no_call(2)] by (fastforce simp: one_shot_inv_def counts_ok_def caller_ok_def)+
  then show ?thesis using p no_call(4) by simp
next
  case (firmware_answers i r call1 answer)
  have "r = rec g0" "persist (gs_gate s) = persist g0"
    using inv firmware_answers(2,3) nth_mem [OF firmware_answers(2)] by (fastforce simp: one_shot_inv_def counts_ok_def caller_ok_def)+
  then have "call1 = call" using p firmware_answers(4) by simp
  have "one_shot_inv g0 call (s\<lparr>gs_callers := (gs_callers s)[i := Called r answer], gs_gate := gs_gate s, gs_calls := gs_calls s @ [(call, answer)]\<rparr>)"
    by (rule move_caller [OF inv firmware_answers(2)])
      (use firmware_answers(3) in \<open>auto simp: claimed_def called_def caller_ok_def counts_ok_def split: caller.splits\<close>)
  then show ?thesis using firmware_answers(1) \<open>call1 = call\<close> by simp
next
  case (stores i r answer out g)
  note c = store_out [OF stores(4)]
  have "one_shot_inv g0 call (s\<lparr>gs_callers := (gs_callers s)[i := Done out], gs_gate := g, gs_calls := gs_calls s\<rparr>)"
    by (rule move_caller [OF inv stores(2)])
      (use c stores(3) in \<open>auto simp: claimed_def called_def caller_ok_def counts_ok_def split: caller.splits\<close>)
  then show ?thesis using stores(1) by simp
qed

lemma start_inv:
  assumes "avail g"
  shows "one_shot_inv g call (system_start g n)"
  using assms avail_open by (simp add: one_shot_inv_def counts_ok_def caller_ok_def system_start_def claimed_def called_def)

lemma run_inv:
  assumes "(gate_step load claim store persist)\<^sup>*\<^sup>* (system_start g n) s" and "avail g" and "persist g (rec g) = Some call"
  shows "one_shot_inv g call s"
  using assms(1) by (induction rule: rtranclp_induct) (auto intro: start_inv [OF assms(2)] step_keeps_inv [OF _ _ assms(3)])

text \<open>At most one firmware call is made; a caller that is told of a success can rely on it; and once every caller
  has its answer, the call has been made.\<close>

lemma one_shot:
  assumes r: "(gate_step load claim store persist)\<^sup>*\<^sup>* (system_start g n) s" and a: "avail g" and p: "persist g (rec g) = Some call"
  shows "gs_calls s = [] \<or> (\<exists>answer. gs_calls s = [(call, answer)])"
    and "Done out \<in> set (gs_callers s) \<Longrightarrow> success out \<Longrightarrow> gs_calls s = [(call, True)]"
    and "gs_callers s \<noteq> [] \<Longrightarrow> \<forall>c \<in> set (gs_callers s). \<exists>out. c = Done out \<Longrightarrow> gs_calls s \<noteq> []"
proof -
  note inv = run_inv [OF r a p]
  have le: "length (gs_calls s) \<le> 1" and fin: "finished (gs_gate s) \<Longrightarrow> gs_calls s = [(call, True)]"
    using inv by (auto simp: one_shot_inv_def counts_ok_def)
  have "\<forall>x \<in> set (gs_calls s). fst x = call"
    using r
  proof (induction rule: rtranclp_induct)
    case (step s s1)
    have inv: "one_shot_inv g call s" by (rule run_inv [OF step(1) a p])
    from step(2) show ?case
    proof cases
      case (firmware_answers i r c answer)
      have "caller_ok g call (gs_gate s) (gs_calls s) (Claimed r)" using inv firmware_answers(2,3) nth_mem [OF firmware_answers(2)]
        by (auto simp: one_shot_inv_def)
      then have "c = call" using inv firmware_answers(4) p by (auto simp: one_shot_inv_def counts_ok_def caller_ok_def)
      then show ?thesis using step.IH firmware_answers(1) by auto
    qed (use step.IH in auto)
  qed (simp add: system_start_def)
  then show "gs_calls s = [] \<or> (\<exists>answer. gs_calls s = [(call, answer)])"
    using le by (cases "gs_calls s") auto
  show "gs_calls s = [(call, True)]" if "Done out \<in> set (gs_callers s)" "success out"
  proof (rule fin)
    have "caller_ok g call (gs_gate s) (gs_calls s) (Done out)" using inv that(1) by (simp add: one_shot_inv_def)
    then show "finished (gs_gate s)" using that(2) by (simp add: caller_ok_def)
  qed
  show "gs_calls s \<noteq> []" if ne: "gs_callers s \<noteq> []" and all: "\<forall>c \<in> set (gs_callers s). \<exists>out. c = Done out"
  proof -
    have "hd (gs_callers s) \<in> set (gs_callers s)" using ne by simp
    then obtain out where "Done out \<in> set (gs_callers s)" using all by metis
    then have "caller_ok g call (gs_gate s) (gs_calls s) (Done out)" using inv by (simp add: one_shot_inv_def)
    then have "\<not> avail (gs_gate s)" by (simp add: caller_ok_def)
    moreover have "filter claimed (gs_callers s) = []" using all by (auto simp: filter_empty_conv claimed_def)
    ultimately show ?thesis using inv by (auto simp: one_shot_inv_def counts_ok_def)
  qed
qed

text \<open>A gate that is closed from the start makes no call.\<close>

lemma closed_gate:
  assumes r: "(gate_step load claim store persist)\<^sup>*\<^sup>* (system_start g n) s" and l: "load g = Inl out"
  shows "gs_calls s = [] \<and> gs_gate s = g \<and> set (gs_callers s) \<subseteq> {Start, Done out}"
  using r
proof (induction rule: rtranclp_induct)
  case (step s s1)
  have at: "gs_callers s ! i = Start \<or> gs_callers s ! i = Done out" if "i < length (gs_callers s)" for i
    using step.IH nth_mem [OF that] by auto
  from step(2) show ?case
  proof cases
    case (load_ends i o1)
    then show ?thesis using step.IH l set_update_subset_insert [of "gs_callers s" i "Done out"] by auto
  qed (use step.IH l at in fastforce)+
qed (auto simp: system_start_def)

end

definition readiness_step :: "(readiness_gate, readiness_outcome, boot_ready_record) gate_system \<Rightarrow>
  (readiness_gate, readiness_outcome, boot_ready_record) gate_system \<Rightarrow> bool" where
  "readiness_step = gate_step report_load report_claim report_store (\<lambda>g. persist_readiness (readiness_context g))"

definition stage_step :: "(stage_gate, stage_outcome, boot_stage_record) gate_system \<Rightarrow>
  (stage_gate, stage_outcome, boot_stage_record) gate_system \<Rightarrow> bool" where
  "stage_step = gate_step stage_load stage_claim stage_store persist_stage"

definition readiness_success :: "readiness_outcome \<Rightarrow> bool" where
  "readiness_success out = (case out of RO_Persisted _ \<Rightarrow> True | RO_AlreadyPersisted _ \<Rightarrow> True | _ \<Rightarrow> False)"

definition stage_success :: "stage_outcome \<Rightarrow> bool" where
  "stage_success out = (case out of SO_Staged _ \<Rightarrow> True | SO_AlreadyStaged _ \<Rightarrow> True | _ \<Rightarrow> False)"

definition requested_slot :: "stage_gate \<Rightarrow> boot_stage_record" where
  "requested_slot g = \<lparr>sg_slot = 1 - min (tg_confirmed_slot g) 1, sg_journal_generation = tg_journal_generation g\<rparr>"

interpretation readiness: one_shot_gate report_load report_claim report_store "\<lambda>g. persist_readiness (readiness_context g)"
  "\<lambda>g. rg_state g = NOT_REPORTED" "\<lambda>g. rg_state g = PERSISTED" readiness_success readiness_record
  by unfold_locales
    (auto simp: report_load_def report_claim_def report_store_def readiness_success_def readiness_record_def readiness_context_def
      split: if_splits readiness_state.splits)

interpretation staging: one_shot_gate stage_load stage_claim stage_store persist_stage
  "\<lambda>g. tg_state g = STAGE_READY" "\<lambda>g. tg_state g = STAGE_DONE" stage_success requested_slot
  by unfold_locales
    (auto simp: stage_load_def stage_claim_def stage_store_def stage_success_def requested_slot_def stage_record_def target_slot_def
      persist_stage_def fun_eq_iff split: if_splits option.split)

lemma run_length:
  assumes "(gate_step load claim store persist)\<^sup>*\<^sup>* s t"
  shows "length (gs_callers t) = length (gs_callers s)"
  using assms
proof (induction rule: rtranclp_induct)
  case (step t u)
  from step(2) show ?case by cases (use step.IH in auto)
qed simp

lemma trial_call:
  assumes t: "is_trial context"
  defines "g \<equiv> fst (boot_control_initialize context)"
  shows "\<exists>call. persist_readiness (readiness_context g) (readiness_record g) = Some call \<and>
    fc_address call = bc_set_variable_address context \<and> fc_name call = NAGI_BOOT_READY_VARIABLE \<and>
    ready_decode (fc_data call) = Some \<lparr>rd_slot = bc_slot context, rd_attempt = bc_attempt context,
      rd_journal_generation = bc_journal_generation context\<rparr>"
proof -
  have c: "is_trial (readiness_context g)" "bc_set_variable_address (readiness_context g) = bc_set_variable_address context"
    using t by (simp_all add: g_def boot_control_initialize_def readiness_configure_def readiness_context_def is_trial_def)
  have r: "readiness_record g = \<lparr>rd_slot = bc_slot context, rd_attempt = bc_attempt context,
      rd_journal_generation = bc_journal_generation context\<rparr>"
    by (simp add: g_def boot_control_initialize_def readiness_configure_def readiness_record_def readiness_context_def)
  obtain bytes where b: "ready_encode (readiness_record g) = Some bytes"
    using t by (auto simp: r ready_encode_eq is_trial_def not_less split: if_splits)
  then show ?thesis using c ready_codec.decode_encode [OF b] by (simp add: persist_readiness_def r)
qed

lemma stageable_call:
  assumes t: "is_update_stageable context"
  defines "g \<equiv> snd (boot_control_initialize context)"
  shows "\<exists>call. persist_stage g (requested_slot g) = Some call \<and>
    fc_address call = bc_set_variable_address context \<and> fc_name call = NAGI_BOOT_STAGE_VARIABLE \<and>
    stage_decode (fc_data call) = Some \<lparr>sg_slot = 1 - bc_slot context, sg_journal_generation = bc_journal_generation context\<rparr>"
proof -
  have "bc_slot context \<le> 1" using t by (simp add: is_update_stageable_def)
  then have r: "requested_slot g = \<lparr>sg_slot = 1 - bc_slot context, sg_journal_generation = bc_journal_generation context\<rparr>"
    by (simp add: g_def boot_control_initialize_def stage_configure_def requested_slot_def min_def)
  have "1 - bc_slot context \<le> 1" using \<open>bc_slot context \<le> 1\<close> by (simp add: word_le_nat_alt unat_sub)
  then obtain bytes where b: "stage_encode (requested_slot g) = Some bytes"
    by (auto simp: r stage_encode_eq not_less split: if_splits)
  have "tg_set_variable_address g = bc_set_variable_address context" "bc_set_variable_address context \<noteq> 0"
    using t by (simp_all add: g_def boot_control_initialize_def stage_configure_def is_update_stageable_def)
  then show ?thesis using b stage_codec.decode_encode [OF b] by (simp add: persist_stage_def r set_variable_def)
qed

section \<open>Properties\<close>

text \<open>C14. Readiness and update requests are one-shot. However many callers report readiness or request an update, and
  however their atomic steps interleave, the firmware is called at most once for each: for readiness only
  on a trial boot, with the encoding of exactly the slot, attempt and journal generation that the
  loader passed; for an update only on a boot that may stage one, and for the slot that is not the
  confirmed one. A caller is told of a success only if the firmware accepted that call, and when all
  callers have returned the call has been made.\<close>

theorem boot_requests_are_one_shot:
  assumes "readiness_step\<^sup>*\<^sup>* (system_start (fst (boot_control_initialize context)) n) s"
    and "stage_step\<^sup>*\<^sup>* (system_start (snd (boot_control_initialize context)) m) t"
  shows "(is_trial context \<longrightarrow> (\<exists>call.
      fc_address call = bc_set_variable_address context \<and> fc_name call = NAGI_BOOT_READY_VARIABLE \<and>
      ready_decode (fc_data call) = Some \<lparr>rd_slot = bc_slot context, rd_attempt = bc_attempt context,
        rd_journal_generation = bc_journal_generation context\<rparr> \<and>
      (gs_calls s = [] \<or> (\<exists>answer. gs_calls s = [(call, answer)])) \<and>
      (\<forall>out. Done out \<in> set (gs_callers s) \<and> readiness_success out \<longrightarrow> gs_calls s = [(call, True)]) \<and>
      (0 < n \<and> (\<forall>c \<in> set (gs_callers s). \<exists>out. c = Done out) \<longrightarrow> gs_calls s \<noteq> []))) \<and>
    (\<not> is_trial context \<longrightarrow> gs_calls s = [] \<and> set (gs_callers s) \<subseteq> {Start, Done RO_NoTrial}) \<and>
    (is_update_stageable context \<longrightarrow> (\<exists>call.
      fc_address call = bc_set_variable_address context \<and> fc_name call = NAGI_BOOT_STAGE_VARIABLE \<and>
      stage_decode (fc_data call) = Some \<lparr>sg_slot = 1 - bc_slot context, sg_journal_generation = bc_journal_generation context\<rparr> \<and>
      (gs_calls t = [] \<or> (\<exists>answer. gs_calls t = [(call, answer)])) \<and>
      (\<forall>out. Done out \<in> set (gs_callers t) \<and> stage_success out \<longrightarrow> gs_calls t = [(call, True)]) \<and>
      (0 < m \<and> (\<forall>c \<in> set (gs_callers t). \<exists>out. c = Done out) \<longrightarrow> gs_calls t \<noteq> []))) \<and>
    (\<not> is_update_stageable context \<longrightarrow> gs_calls t = [] \<and> set (gs_callers t) \<subseteq> {Start, Done SO_Unavailable})"
proof (intro conjI impI)
  let ?g = "fst (boot_control_initialize context)" and ?h = "snd (boot_control_initialize context)"
  note rs = assms(1) [unfolded readiness_step_def] and ss = assms(2) [unfolded stage_step_def]
  have len: "length (gs_callers s) = n" "length (gs_callers t) = m"
    using run_length [OF rs] run_length [OF ss] by (simp_all add: system_start_def)
  show "\<exists>call. fc_address call = bc_set_variable_address context \<and> fc_name call = NAGI_BOOT_READY_VARIABLE \<and>
      ready_decode (fc_data call) = Some \<lparr>rd_slot = bc_slot context, rd_attempt = bc_attempt context,
        rd_journal_generation = bc_journal_generation context\<rparr> \<and>
      (gs_calls s = [] \<or> (\<exists>answer. gs_calls s = [(call, answer)])) \<and>
      (\<forall>out. Done out \<in> set (gs_callers s) \<and> readiness_success out \<longrightarrow> gs_calls s = [(call, True)]) \<and>
      (0 < n \<and> (\<forall>c \<in> set (gs_callers s). \<exists>out. c = Done out) \<longrightarrow> gs_calls s \<noteq> [])" if t: "is_trial context"
  proof -
    obtain call where call: "persist_readiness (readiness_context ?g) (readiness_record ?g) = Some call"
      "fc_address call = bc_set_variable_address context" "fc_name call = NAGI_BOOT_READY_VARIABLE"
      "ready_decode (fc_data call) = Some \<lparr>rd_slot = bc_slot context, rd_attempt = bc_attempt context,
        rd_journal_generation = bc_journal_generation context\<rparr>" using trial_call [OF t] by blast
    have a: "rg_state ?g = NOT_REPORTED" using t by (simp add: boot_control_initialize_def readiness_configure_def)
    show ?thesis using readiness.one_shot [OF rs a call(1)] call(2-4) len(1) by (intro exI [of _ call]) auto
  qed
  show "\<exists>call. fc_address call = bc_set_variable_address context \<and> fc_name call = NAGI_BOOT_STAGE_VARIABLE \<and>
      stage_decode (fc_data call) = Some \<lparr>sg_slot = 1 - bc_slot context, sg_journal_generation = bc_journal_generation context\<rparr> \<and>
      (gs_calls t = [] \<or> (\<exists>answer. gs_calls t = [(call, answer)])) \<and>
      (\<forall>out. Done out \<in> set (gs_callers t) \<and> stage_success out \<longrightarrow> gs_calls t = [(call, True)]) \<and>
      (0 < m \<and> (\<forall>c \<in> set (gs_callers t). \<exists>out. c = Done out) \<longrightarrow> gs_calls t \<noteq> [])" if t: "is_update_stageable context"
  proof -
    obtain call where call: "persist_stage ?h (requested_slot ?h) = Some call"
      "fc_address call = bc_set_variable_address context" "fc_name call = NAGI_BOOT_STAGE_VARIABLE"
      "stage_decode (fc_data call) = Some \<lparr>sg_slot = 1 - bc_slot context, sg_journal_generation = bc_journal_generation context\<rparr>"
      using stageable_call [OF t] by blast
    have a: "tg_state ?h = STAGE_READY" using t by (simp add: boot_control_initialize_def stage_configure_def)
    show ?thesis using staging.one_shot [OF ss a call(1)] call(2-4) len(2) by (intro exI [of _ call]) auto
  qed
  show "gs_calls s = []" "set (gs_callers s) \<subseteq> {Start, Done RO_NoTrial}" if "\<not> is_trial context"
    using readiness.closed_gate [OF rs, of RO_NoTrial] that
    by (simp_all add: report_load_def boot_control_initialize_def readiness_configure_def)
  show "gs_calls t = []" "set (gs_callers t) \<subseteq> {Start, Done SO_Unavailable}" if "\<not> is_update_stageable context"
    using staging.closed_gate [OF ss, of SO_Unavailable] that
    by (simp_all add: stage_load_def stage_record_def target_slot_def boot_control_initialize_def stage_configure_def)
qed

lemma two_reports:
  assumes a: "rg_state g = NOT_REPORTED" and c: "persist_readiness (readiness_context g) (readiness_record g) = Some call"
  defines "r \<equiv> readiness_record g"
  shows "readiness_step\<^sup>*\<^sup>* (system_start g 2)
    \<lparr>gs_gate = g\<lparr>rg_state := PERSISTED\<rparr>, gs_callers = [Done (RO_Persisted r), Done (RO_AlreadyPersisted r)],
     gs_calls = [(call, True)]\<rparr>"
proof -
  let ?sys = "\<lambda>st c d calls. \<lparr>gs_gate = g\<lparr>rg_state := st\<rparr>, gs_callers = [c, d], gs_calls = calls\<rparr>"
  have r: "readiness_record (g\<lparr>rg_state := st\<rparr>) = r" "readiness_context (g\<lparr>rg_state := st\<rparr>) = readiness_context g" for st
    by (simp_all add: r_def readiness_record_def readiness_context_def)
  have z: "g\<lparr>rg_state := NOT_REPORTED\<rparr> = g" using a by (cases g) simp
  have "system_start g 2 = ?sys NOT_REPORTED Start Start []" by (simp add: system_start_def z numeral_2_eq_2)
  moreover have "readiness_step (?sys NOT_REPORTED Start Start []) (?sys NOT_REPORTED (Loaded r) Start [])"
    using gate_step.load_goes_on [of 0 "?sys NOT_REPORTED Start Start []" report_load r]
    by (simp add: readiness_step_def report_load_def r)
  moreover have "readiness_step (?sys NOT_REPORTED (Loaded r) Start []) (?sys IN_PROGRESS (Claimed r) Start [])"
    using gate_step.claim_wins [of 0 "?sys NOT_REPORTED (Loaded r) Start []" r report_claim]
    by (simp add: readiness_step_def report_claim_def)
  moreover have "readiness_step (?sys IN_PROGRESS (Claimed r) Start []) (?sys IN_PROGRESS (Called r True) Start [(call, True)])"
    using gate_step.firmware_answers [of 0 "?sys IN_PROGRESS (Claimed r) Start []" r "\<lambda>g. persist_readiness (readiness_context g)" call _ _ _ True]
      c by (simp add: readiness_step_def r r_def [symmetric])
  moreover have "readiness_step (?sys IN_PROGRESS (Called r True) Start [(call, True)])
      (?sys PERSISTED (Done (RO_Persisted r)) Start [(call, True)])"
    using gate_step.stores [of 0 "?sys IN_PROGRESS (Called r True) Start [(call, True)]" r True report_store]
    by (simp add: readiness_step_def report_store_def)
  moreover have "readiness_step (?sys PERSISTED (Done (RO_Persisted r)) Start [(call, True)])
      (?sys PERSISTED (Done (RO_Persisted r)) (Loaded r) [(call, True)])"
    using gate_step.load_goes_on [of 1 "?sys PERSISTED (Done (RO_Persisted r)) Start [(call, True)]" report_load r]
    by (simp add: readiness_step_def report_load_def r)
  moreover have "readiness_step (?sys PERSISTED (Done (RO_Persisted r)) (Loaded r) [(call, True)])
      (?sys PERSISTED (Done (RO_Persisted r)) (Done (RO_AlreadyPersisted r)) [(call, True)])"
    using gate_step.claim_ends [of 1 "?sys PERSISTED (Done (RO_Persisted r)) (Loaded r) [(call, True)]" r report_claim]
    by (simp add: readiness_step_def report_claim_def)
  ultimately show ?thesis by (metis (no_types, lifting) converse_rtranclp_into_rtranclp rtranclp.rtrancl_refl)
qed

theorem boot_requests_are_one_shot_witness:
  "\<exists>s call. let r = \<lparr>rd_slot = 1, rd_attempt = 2, rd_journal_generation = 5\<rparr>;
      context = \<lparr>bc_set_variable_address = 0x1000, bc_journal_generation = 5, bc_slot = 1, bc_attempt = 2, bc_flags = 0,
        bc_reserved = [0, 0, 0, 0, 0]\<rparr> in
    is_trial context \<and> readiness_step\<^sup>*\<^sup>* (system_start (fst (boot_control_initialize context)) 2) s \<and>
    gs_callers s = [Done (RO_Persisted r), Done (RO_AlreadyPersisted r)] \<and> gs_calls s = [(call, True)] \<and>
    fc_address call = 0x1000 \<and> ready_decode (fc_data call) = Some r"
proof -
  let ?r = "\<lparr>rd_slot = 1, rd_attempt = 2, rd_journal_generation = 5\<rparr>"
  let ?c = "\<lparr>bc_set_variable_address = 0x1000, bc_journal_generation = 5, bc_slot = 1, bc_attempt = 2, bc_flags = 0,
    bc_reserved = [0, 0, 0, 0, 0]\<rparr>"
  let ?g = "fst (boot_control_initialize ?c)"
  have t: "is_trial ?c" by code_simp
  then have a: "rg_state ?g = NOT_REPORTED" by (simp add: boot_control_initialize_def readiness_configure_def)
  have r: "readiness_record ?g = ?r"
    by (simp add: boot_control_initialize_def readiness_configure_def readiness_record_def readiness_context_def)
  obtain call where call: "persist_readiness (readiness_context ?g) (readiness_record ?g) = Some call" using trial_call [OF t] by blast
  let ?s = "\<lparr>gs_gate = ?g\<lparr>rg_state := PERSISTED\<rparr>, gs_callers = [Done (RO_Persisted ?r), Done (RO_AlreadyPersisted ?r)],
     gs_calls = [(call, True)]\<rparr>"
  have s: "readiness_step\<^sup>*\<^sup>* (system_start ?g 2) ?s" using two_reports [OF a call] unfolding r .
  show ?thesis
    using boot_requests_are_one_shot [OF s rtranclp.rtrancl_refl] s t
    by (intro exI [of _ ?s] exI [of _ call]) (simp add: Let_def)
qed

end
