(* ===== verification/Spec2Isabelle.thy ===== *)
theory Spec2Isabelle
  imports User_Ipc Vmo Scheduler Boot_Info Boot_Journal User_Elf Memory Policy Boot_Control
begin

text \<open>
  A verification development for NagiOS: the capability core of the kernel (\<open>src/kernel/src\<close>), the
  boot path that loader and kernel share (\<open>src/loader/src/ab.rs\<close>, \<open>src/crates/nagi-bootinfo\<close>) and
  the permission policy of the user space (\<open>src/crates/nagi-capability\<close>).

  \<^bold>\<open>The program.\<close> The kernel keeps its objects in one reference-counted registry. Each process has a
  handle table; a handle names a registry object with rights. Channels carry bytes and moved handles
  between processes, events and timers signal, a wait registry wakes those who wait, and address
  spaces map memory objects. The channel manager of the user processes ties these together under one
  lock. Threads are run by a cooperative scheduler, and the exit table hands the status of an
  ended process to the one that waits for it. Below them are the page allocator and the page tables.
  Programs enter as ELF images. Before all this, the loader picks one of two system slots from a
  journal in firmware variables; the kernel reports a successful trial boot, or requests an
  update, through the same firmware. The permission policy decides on the requests of applications.

  \<^bold>\<open>Conventions.\<close> A Rust \<open>Result\<close> is the sum type \<open>result\<close> with the error on the left. A method on
  \<open>&mut self\<close> returns its result with the new state, also on the error branches. A fixed array is a list
  whose length the invariant keeps, \<open>usize\<close> is \<open>nat\<close> where the code bounds it, and the other
  integers are words of their width, so that wrapping, checked and saturating arithmetic differ as in
  the code. The parser of program images has a panic outcome for its indexed store, shown not to occur.
  Record fields carry a short prefix for their structure. Code that is not in the
  repository is a parameter: the memory behind a raw pointer, the firmware's variable services, the
  JSON library. What is relied on is a named hypothesis, and witnesses instantiate it.

  \<^bold>\<open>Theories.\<close>
  \<^item> \<open>Prelude\<close>: word arithmetic of the standard library, arrays and options, and the interfaces
    \<open>invariant_system\<close>, \<open>generational\<close> and \<open>codec\<close>. \<open>Bytes\<close>: slices, little-endian conversions and the
    checksum, which is shown to be the CRC-32 that IEEE 802.3 defines by polynomial division.
    \<open>Rust_Text\<close>: the string functions that the policy uses.
  \<^item> \<open>Objects\<close> (\<open>handles.rs\<close>, first half): rights and the object registry. The registry refines a map of
    reference counts, and no identity is used twice.
  \<^item> \<open>Handles\<close> (\<open>handles.rs\<close>, second half): handle tables and processes. Table operations conserve the
    registry's references, a handle value is never used twice, and a transfer only attenuates rights.
  \<^item> \<open>Wait_Registry\<close>, \<open>Channel\<close>, \<open>Events\<close> (\<open>ipc.rs\<close>): no wakeup is lost, and a
    wait never touches what other waiters hold; a send and a receive happen
    as a whole or not at all; the ring buffer refines a bounded queue; \<open>wait_many\<close> is exact, and who
    blocks in it is woken; a timer fires at its deadline.
  \<^item> \<open>Vmo\<close> (\<open>vmo.rs\<close>): memory objects and address spaces. The mappings of an address space never overlap,
    and a mapping never has more rights than the handles it came from.
  \<^item> \<open>Scheduler\<close> (\<open>scheduler.rs\<close>): thread states stay consistent, a runnable thread runs within one
    round, an exit reaches the joiner. The number of thread slots is a parameter (32 or 64 in the code).
  \<^item> \<open>Process_Exit\<close> (\<open>process_exit.rs\<close>): an exit status is delivered once.
  \<^item> \<open>User_Ipc\<close> (\<open>user_ipc.rs\<close>): the channel manager. The references that the registry counts are exactly
    those that tables, channels and processes hold, and exactly the unreachable channels are
    reclaimed.
  \<^item> \<open>User_Elf\<close> (\<open>user_elf.rs\<close>): an accepted image gives a load plan whose segments are in bounds, apart
    from each other and never writable and executable.
  \<^item> \<open>Memory\<close> (\<open>memory.rs\<close>): a page has one owner; the identity check agrees with the page walk of the
    processor.
  \<^item> \<open>Boot_Info\<close> (\<open>nagi-bootinfo\<close>), \<open>Boot_Journal\<close> (\<open>ab.rs\<close>, \<open>ab/uefi_store.rs\<close>), \<open>Boot_Control\<close>
    (\<open>boot_control.rs\<close>): the firmware clock is converted exactly; records survive their encoding; a
    crash during a write leaves a journal with a record in the old or the new state; the trials of a slot
    are bounded; readiness and update requests call the firmware at most once, under every interleaving of their callers.
  \<^item> \<open>Capability\<close>, \<open>Policy\<close> (\<open>nagi-capability\<close>): identifiers, scopes, grants, stores and the evaluator. An
    access is decided exactly as the grants say, and a one-shot grant allows once.

  \<^bold>\<open>Interfaces.\<close> A contract between components is a locale, interpreted on the model's own definitions:
  \<open>refcount_store\<close> (the registry, as seen by handle tables), \<open>bounded_fifo\<close> (the ring, as seen by
  channels), \<open>journal_store\<close> and \<open>firmware_variables\<close> (the boot journal's storage), their extensions
  \<open>guarded_store\<close> and \<open>guarded_variables\<close> (what a failed write may leave), \<open>policy_store\<close> (both
  permission stores), \<open>one_shot_gate\<close> (both boot gates), \<open>generational\<close> (registry and handle tables),
  \<open>codec\<close> (the three boot records), and \<open>invariant_system\<close> (the step relations).

  \<^bold>\<open>Termination and bounds.\<close> All definitions are total; no loop has fuel. Loops over arrays recurse on the
  list of indices. The loops that are not structural have a measure: the scan of a notification, the drain
  of a closed channel, the marking of reachable channels, the pages of an identity check, the groups of
  an IPv6 address. The capacities are those of the source.

  \<^bold>\<open>Not modelled.\<close>
  \<^item> \<open>syscall.rs\<close>, \<open>user_process.rs\<close>, \<open>user_child.rs\<close>: register-level entry, copies through raw pointers,
    switches of the address space. The channel, thread, exit and boot-control operations
    that they call are modelled.
  \<^item> \<open>interrupts.rs\<close>, \<open>cpu_tables.rs\<close>, \<open>smp.rs\<close>, \<open>acpi.rs\<close>, \<open>main.rs\<close>, \<open>m4.rs\<close>: processor state, firmware
    tables and start-up order. The devices (\<open>virtio.rs\<close>, \<open>audio.rs\<close>, \<open>display.rs\<close>, \<open>input.rs\<close>, \<open>net.rs\<close>,
    \<open>random.rs\<close>) change memory on their own, in ways that no source of the repository states.
  \<^item> The global locks: each modelled operation of the kernel runs under one, so that it is a single step.
    The boot gates have no lock, and their atomic accesses are single steps. Memory orderings weaker
    than sequential consistency are not modelled.
  \<^item> \<open>gpt.rs\<close>, the loader's \<open>main.rs\<close> and \<open>elf.rs\<close>, the rest of \<open>nagi-abi\<close> (system-call numbers and shared
    layouts), the other crates, the user programs and the host tools: they are outside the parts above.
    No modelled component calls them.
\<close>

end
